(* ===== verification/Xal_Prelude.thy ===== *)
theory Xal_Prelude
  imports Main "HOL-Library.Word"
begin

text \<open>
  Shared vocabulary of the development: the machine integer types of the C code, the error
  numbers it returns, the outcome type of a C function that may fail, the two sequencing
  operators that stand for the pattern \<open>err = f(..); if (err) return err;\<close>, the loop
  combinator for a \<open>for\<close> loop that returns early on an error, NUL-terminated strings, and
  the generic lemmas the component theories use.
\<close>

unbundle bit_operations_syntax

section \<open>Machine integers\<close>

type_synonym u8 = "8 word"
type_synonym u16 = "16 word"
type_synonym u32 = "32 word"
type_synonym u64 = "64 word"

abbreviation UINT32_MAX :: u64 where
  "UINT32_MAX \<equiv> 4294967295"

section \<open>Error numbers and outcomes\<close>

text \<open>
  A C function of the library returns 0 or a negative error number, so codes are plain
  integers here: \<^term>\<open>Err (- 22)\<close> is \<open>return -EINVAL\<close>. Stopping the process is a different
  outcome: an access outside an object, through a null pointer or to freed memory, a failed \<open>assert\<close>, a
  division by zero, a shift by the width of its operand or more, a loop whose step is zero, or
  a recursion that the fuel of the model does not cover.
\<close>

abbreviation EPERM :: int where "EPERM \<equiv> 1"
abbreviation ENOENT :: int where "ENOENT \<equiv> 2"
abbreviation EIO :: int where "EIO \<equiv> 5"
abbreviation EAGAIN :: int where "EAGAIN \<equiv> 11"
abbreviation ENOMEM :: int where "ENOMEM \<equiv> 12"
abbreviation ENOTDIR :: int where "ENOTDIR \<equiv> 20"
abbreviation EINVAL :: int where "EINVAL \<equiv> 22"
abbreviation ENOSYS :: int where "ENOSYS \<equiv> 38"
abbreviation EOVERFLOW :: int where "EOVERFLOW \<equiv> 75"
abbreviation ESTALE :: int where "ESTALE \<equiv> 116"

datatype fault =
  OutOfBounds | NullDeref | UseAfterFree | AssertFailed | DivideByZero | BadShift | NoProgress | OutOfFuel

datatype fail = Err int | Fault fault

type_synonym ('a, 's) outcome = "(fail + 'a) \<times> 's"

text \<open>
  \<open>and_then r k\<close> continues with \<open>k\<close> when \<open>r\<close> succeeded and passes a failure on together with
  the state it left behind: C does not roll state back when it returns an error.
\<close>

definition and_then ::
  "('a, 's) outcome \<Rightarrow> ('a \<Rightarrow> 's \<Rightarrow> ('b, 's) outcome) \<Rightarrow> ('b, 's) outcome" where
  "and_then r k = (case r of (Inl e, s) \<Rightarrow> (Inl e, s) | (Inr x, s) \<Rightarrow> k x s)"

lemma and_then_simps [simp]:
  "and_then (Inl e, s) k = (Inl e, s)"
  "and_then (Inr x, s) k = k x s"
  by (simp_all add: and_then_def)

lemma and_then_InrD:
  "and_then r k = (Inr y, s') \<Longrightarrow> \<exists>x s. r = (Inr x, s) \<and> k x s = (Inr y, s')"
  by (auto simp: and_then_def split: prod.splits sum.splits)

lemma and_then_InrE:
  assumes "and_then r k = (Inr y, s')"
  obtains x s where "r = (Inr x, s)" and "k x s = (Inr y, s')"
  using and_then_InrD [OF assms] by blast

lemma and_then_cong [fundef_cong]:
  assumes "r = r'" and "\<And>x s. r' = (Inr x, s) \<Longrightarrow> k x s = k' x s"
  shows "and_then r k = and_then r' k'"
  using assms by (auto simp: and_then_def split: prod.splits sum.splits)

lemma and_then_assoc: "and_then (and_then r k) l = and_then r (\<lambda>a s. and_then (k a s) l)"
  by (simp add: and_then_def split: prod.split sum.split)

text \<open>The same for functions that return a value or fail and touch no state.\<close>

definition sbind :: "fail + 'a \<Rightarrow> ('a \<Rightarrow> fail + 'b) \<Rightarrow> fail + 'b" where
  "sbind r k = (case r of Inl e \<Rightarrow> Inl e | Inr x \<Rightarrow> k x)"

lemma sbind_simps [simp]:
  "sbind (Inl e) k = Inl e"
  "sbind (Inr x) k = k x"
  by (simp_all add: sbind_def)

lemma sbind_InrD: "sbind r k = Inr y \<Longrightarrow> \<exists>x. r = Inr x \<and> k x = Inr y"
  by (auto simp: sbind_def split: sum.splits)

lemma sbind_InrE:
  assumes "sbind r k = Inr y"
  obtains x where "r = Inr x" and "k x = Inr y"
  using sbind_InrD [OF assms] by blast

text \<open>A pure check inside a stateful function.\<close>

definition lift_s :: "fail + 'a \<Rightarrow> 's \<Rightarrow> ('a, 's) outcome" where
  "lift_s r s = (r, s)"

lemma lift_s_simps [simp]: "lift_s r s = (r, s)"
  by (simp add: lift_s_def)

section \<open>A loop that returns early on an error\<close>

fun for_each :: "('x \<Rightarrow> 's \<Rightarrow> (unit, 's) outcome) \<Rightarrow> 'x list \<Rightarrow> 's \<Rightarrow> (unit, 's) outcome" where
  "for_each body [] s = (Inr (), s)"
| "for_each body (x # xs) s = and_then (body x s) (\<lambda>_ s'. for_each body xs s')"

lemma for_each_cong [fundef_cong]:
  assumes "xs = ys" and "s = t" and "\<And>x u. x \<in> set ys \<Longrightarrow> f x u = g x u"
  shows "for_each f xs s = for_each g ys t"
  using assms(3) unfolding assms(1,2)
  by (induction ys arbitrary: t) (auto intro: and_then_cong)

text \<open>A loop that a body can also leave early with success: \<open>Inr False\<close>.\<close>

fun for_each_while :: "('x \<Rightarrow> 's \<Rightarrow> (bool, 's) outcome) \<Rightarrow> 'x list \<Rightarrow> 's \<Rightarrow> (bool, 's) outcome" where
  "for_each_while body [] s = (Inr True, s)"
| "for_each_while body (x # xs) s =
     and_then (body x s) (\<lambda>go s'. if go then for_each_while body xs s' else (Inr False, s'))"

lemma for_each_append:
  "for_each f (xs @ ys) s = and_then (for_each f xs s) (\<lambda>_ s'. for_each f ys s')"
proof (induction xs arbitrary: s)
  case (Cons x xs)
  then show ?case by (cases "f x s") (auto simp: and_then_def split: sum.splits)
qed simp

lemma for_each_map: "for_each f (map g xs) s = for_each (\<lambda>x. f (g x)) xs s"
  by (induction xs arbitrary: s) (auto intro: and_then_cong)

lemma for_each_concat:
  "for_each f (concat xss) s = for_each (\<lambda>xs. for_each f xs) xss s"
  by (induction xss arbitrary: s) (auto simp: for_each_append intro: and_then_cong)

lemma for_each_eqI:
  assumes "\<And>x t. x \<in> set xs \<Longrightarrow> f x t = g x t"
  shows "for_each f xs s = for_each g xs s"
  by (rule for_each_cong) (simp_all add: assms)

text \<open>The loop rule: an invariant every successful pass keeps holds when the loop is done.\<close>

lemma for_each_invariant:
  assumes "for_each body xs s = (r, s')"
    and "P s"
    and "\<And>x t r' t'. x \<in> set xs \<Longrightarrow> P t \<Longrightarrow> body x t = (r', t') \<Longrightarrow> P t'"
  shows "P s'"
  using assms
proof (induction xs arbitrary: s)
  case Nil
  then show ?case by simp
next
  case (Cons x xs)
  obtain r1 s1 where b: "body x s = (r1, s1)" by (cases "body x s")
  with Cons.prems have P1: "P s1" by auto
  show ?case
  proof (cases r1)
    case (Inl e)
    with b Cons.prems(1) P1 show ?thesis by simp
  next
    case (Inr u)
    with b Cons.prems(1) have "for_each body xs s1 = (r, s')" by simp
    then show ?thesis by (rule Cons.IH [OF _ P1]) (use Cons.prems(3) in auto)
  qed
qed

text \<open>The same when only successful passes keep the invariant and the loop succeeds.\<close>

lemma for_each_success_invariant:
  assumes "for_each body xs s = (Inr u, s')"
    and "P s"
    and "\<And>x t t'. P t \<Longrightarrow> body x t = (Inr (), t') \<Longrightarrow> P t'"
  shows "P s'"
  using assms(1,2)
  by (induction xs arbitrary: s) (auto elim!: and_then_InrE dest: assms(3))

lemma for_each_while_success_invariant:
  assumes "for_each_while body xs s = (Inr go, s')"
    and "P s"
    and "\<And>x t go t'. P t \<Longrightarrow> body x t = (Inr go, t') \<Longrightarrow> P t'"
  shows "P s'"
  using assms(1,2)
  by (induction xs arbitrary: s) (auto elim!: and_then_InrE dest: assms(3) split: if_splits)

text \<open>A counting loop, with the counter in the invariant.\<close>

lemma for_each_upt_invariant:
  assumes "for_each body [a..<b] s = (Inr u, s')" and "a \<le> b"
    and "P a s"
    and "\<And>k t t'. a \<le> k \<Longrightarrow> k < b \<Longrightarrow> P k t \<Longrightarrow> body k t = (Inr (), t') \<Longrightarrow> P (Suc k) t'"
  shows "P b s'"
  using assms
proof (induction "b - a" arbitrary: a s)
  case 0
  then show ?case by simp
next
  case (Suc n)
  then have ab: "a < b" by simp
  with Suc.prems(1) obtain s1 where b: "body a s = (Inr (), s1)"
    and r: "for_each body [Suc a..<b] s1 = (Inr u, s')"
    by (auto simp: upt_conv_Cons elim!: and_then_InrE)
  show ?case
  proof (rule Suc.hyps(1) [OF _ r])
    show "n = b - Suc a" using Suc.hyps(2) by simp
    show "P (Suc a) s1" using Suc.prems(4) [OF _ ab Suc.prems(3) b] by simp
  qed (use ab Suc.prems(4) in auto)
qed

section \<open>C strings\<close>

text \<open>
  A \<open>char\<close> array is a list of bytes, all bytes past the end of the list being zero. Its
  value as a C string ends at the first zero byte.
\<close>

type_synonym cstr = "u8 list"

definition cstr_of :: "u8 list \<Rightarrow> cstr" where
  "cstr_of bs = takeWhile (\<lambda>b. b \<noteq> 0) bs"

definition is_cstr :: "u8 list \<Rightarrow> bool" where
  "is_cstr bs \<longleftrightarrow> 0 \<notin> set bs"

lemma cstr_of_id: "is_cstr bs \<Longrightarrow> cstr_of bs = bs"
  by (auto simp: is_cstr_def cstr_of_def takeWhile_eq_all_conv)

lemma is_cstr_cstr_of: "is_cstr (cstr_of bs)"
  by (auto simp: is_cstr_def cstr_of_def dest: set_takeWhileD)

text \<open>\<open>strcmp\<close>: the sign of the comparison, byte by byte, as unsigned values.\<close>

fun strcmp :: "cstr \<Rightarrow> cstr \<Rightarrow> int" where
  "strcmp [] [] = 0"
| "strcmp [] (b # bs) = - 1"
| "strcmp (a # as) [] = 1"
| "strcmp (a # as) (b # bs) = (if a < b then - 1 else if b < a then 1 else strcmp as bs)"

lemma strcmp_eq_0_iff [simp]: "strcmp a b = 0 \<longleftrightarrow> a = b"
  by (induction a b rule: strcmp.induct) auto

lemma strcmp_refl: "strcmp a a = 0"
  by simp

lemma strcmp_swap: "strcmp b a = - strcmp a b"
  by (induction a b rule: strcmp.induct) auto

lemma strcmp_less_trans: "strcmp a b < 0 \<Longrightarrow> strcmp b c < 0 \<Longrightarrow> strcmp a c < 0"
proof (induction a b arbitrary: c rule: strcmp.induct)
  case (2 b bs)
  then show ?case by (cases c) auto
next
  case (4 a as b bs)
  then show ?case by (cases c) (auto split: if_splits)
qed auto

lemma strcmp_common_prefix: "strcmp (p @ a) (p @ b) = strcmp a b"
  by (induction p) auto

text \<open>The bytes of a string literal, for concrete runs.\<close>

definition bytes_of :: "string \<Rightarrow> cstr" where
  "bytes_of s = map of_char s"

section \<open>Index lists of concrete loops\<close>

lemma upt_small:
  "[0..<numeral n] = 0 # [Suc 0..<numeral n]"
  "[Suc 0..<numeral n] = (if 1 < (numeral n :: nat) then Suc 0 # [2..<numeral n] else [])"
  by (simp_all add: upt_rec [of 0] upt_rec [of "Suc 0"] numeral_2_eq_2)

section \<open>Words as numbers\<close>

lemma unat_add_no_wrap:
  fixes a b :: "'a::len word"
  assumes "unat a + unat b < 2 ^ LENGTH('a)"
  shows "unat (a + b) = unat a + unat b"
  using assms by (simp add: unat_word_ariths)

lemma unat_mult_no_wrap:
  fixes a b :: "'a::len word"
  assumes "unat a * unat b < 2 ^ LENGTH('a)"
  shows "unat (a * b) = unat a * unat b"
  using assms by (simp add: unat_word_ariths)

lemma unat_of_nat_small:
  "n < 2 ^ LENGTH('a::len) \<Longrightarrow> unat (of_nat n :: 'a word) = n"
  by (simp add: unat_of_nat take_bit_nat_eq_self_iff)

lemma unat_and_mask:
  fixes w :: "'a::len word"
  shows "unat (w AND mask n) = unat w mod 2 ^ n"
  by (simp add: take_bit_eq_mask [symmetric] unsigned_take_bit_eq) (simp add: take_bit_eq_mod)

lemma unat_drop_bit:
  fixes w :: "'a::len word"
  shows "unat (drop_bit n w) = unat w div 2 ^ n"
  by (simp only: unat_drop_bit_eq) (simp add: drop_bit_eq_div)

lemma unat_ucast_mod:
  "unat (ucast (w :: 'a::len word) :: 'b::len word) = unat w mod 2 ^ LENGTH('b)"
  by (simp add: unsigned_ucast_eq take_bit_eq_mod)

lemma unat_ucast_up_eq:
  "LENGTH('a::len) \<le> LENGTH('b::len) \<Longrightarrow> unat (ucast (w :: 'a word) :: 'b word) = unat w"
  by (simp add: unat_ucast_mod) (meson le_trans less_le_trans one_le_numeral power_increasing unsigned_less mod_less)

lemma sint_nonneg:
  assumes "unat w < 2 ^ 31"
  shows "sint (w :: u32) = int (unat w)"
proof -
  have u: "uint w < 2 ^ 31"
    using assms unfolding unat_eq_nat_uint by (subst (asm) nat_less_iff) simp_all
  have l: "- (2 ^ 31) \<le> uint w" by (rule order_trans [of _ 0]) simp_all
  show ?thesis unfolding sint_uint
    using signed_take_bit_int_eq_self [OF l u] by simp
qed

text \<open>The bits of a word below a power of two.\<close>

lemma bit_above:
  fixes w :: "'a::len word"
  assumes "w < 2 ^ n" and "n \<le> m"
  shows "\<not> bit w m"
proof -
  have "bit w m \<longleftrightarrow> bit (w AND mask n) m"
    by (simp only: less_mask_eq [OF assms(1)])
  also have "\<dots> \<longleftrightarrow> False"
    using assms(2) by (simp add: bit_simps)
  finally show ?thesis by simp
qed

lemma bit_below:
  fixes w :: "'a::len word"
  shows "w < 2 ^ n \<Longrightarrow> bit w m \<Longrightarrow> m < n"
  by (rule ccontr) (use bit_above in \<open>auto simp: not_less\<close>)

lemma unat_below_2p:
  fixes w :: "'a::len word"
  assumes "n < LENGTH('a)"
  shows "w < 2 ^ n \<longleftrightarrow> unat w < 2 ^ n"
  using assms by transfer (simp add: nat_less_iff)

text \<open>Bits of shifted words, with the shifts left as they are written.\<close>

lemmas shift_bits =
  bit_or_iff bit_and_iff bit_push_bit_iff bit_drop_bit_eq bit_1_iff bit_0_eq bot_apply
  bit_mask_iff possible_bit_word o_apply bit_of_bool_iff

end
