(* ===== verification/Xal_Khash.thy ===== *)
theory Xal_Khash
  imports Xal_Prelude
begin

text \<open>
  The hash table behind the maps of inode numbers, watch descriptors and paths (tp/khash.h): open
  addressing with triangular probing over a power of two of buckets, two flag bits per bucket packed
  into words, and a rehash in place that kicks elements out of their old buckets. The other theories
  use maps of HOL for these tables; the theorems here show that the table is one.
\<close>

section \<open>Flags\<close>

text \<open>The word and the bit offset of a bucket: \<open>i >> 4\<close> and \<open>(i & 0xfU) << 1\<close>.\<close>

definition ac_word :: "u32 \<Rightarrow> nat" where
  "ac_word i = unat (drop_bit 4 i)"

definition ac_shift :: "u32 \<Rightarrow> nat" where
  "ac_shift i = unat (push_bit 1 (i AND 0xF))"

definition ac_isempty :: "(nat \<Rightarrow> u32) \<Rightarrow> u32 \<Rightarrow> bool" where
  "ac_isempty fl i \<longleftrightarrow> drop_bit (ac_shift i) (fl (ac_word i)) AND 2 \<noteq> 0"

definition ac_isdel :: "(nat \<Rightarrow> u32) \<Rightarrow> u32 \<Rightarrow> bool" where
  "ac_isdel fl i \<longleftrightarrow> drop_bit (ac_shift i) (fl (ac_word i)) AND 1 \<noteq> 0"

definition ac_iseither :: "(nat \<Rightarrow> u32) \<Rightarrow> u32 \<Rightarrow> bool" where
  "ac_iseither fl i \<longleftrightarrow> drop_bit (ac_shift i) (fl (ac_word i)) AND 3 \<noteq> 0"

definition ac_set_isempty_false :: "u32 \<Rightarrow> (nat \<Rightarrow> u32) \<Rightarrow> nat \<Rightarrow> u32" where
  "ac_set_isempty_false i fl = fl(ac_word i := fl (ac_word i) AND NOT (push_bit (ac_shift i) 2))"

definition ac_set_isboth_false :: "u32 \<Rightarrow> (nat \<Rightarrow> u32) \<Rightarrow> nat \<Rightarrow> u32" where
  "ac_set_isboth_false i fl = fl(ac_word i := fl (ac_word i) AND NOT (push_bit (ac_shift i) 3))"

definition ac_set_isdel_true :: "u32 \<Rightarrow> (nat \<Rightarrow> u32) \<Rightarrow> nat \<Rightarrow> u32" where
  "ac_set_isdel_true i fl = fl(ac_word i := fl (ac_word i) OR push_bit (ac_shift i) 1)"

definition ac_fsize :: "u32 \<Rightarrow> nat" where
  "ac_fsize m = (if m < 16 then 1 else unat (drop_bit 4 m))"

section \<open>The table\<close>

record ('k, 'v) khash =
  n_buckets :: u32
  kh_size :: u32
  n_occupied :: u32
  upper_bound :: u32
  kh_flags :: "nat \<Rightarrow> u32"
  kh_keys :: "nat \<Rightarrow> 'k"
  kh_vals :: "nat \<Rightarrow> 'v"

text \<open>
  \<open>kh_init\<close>; the arrays are null pointers then, their content here is arbitrary. \<open>kh_clear\<close> fills the
  words of the flags with the byte \<open>0xaa\<close>.
\<close>

definition kh_init :: "('k, 'v) khash" where
  "kh_init = \<lparr>n_buckets = 0, kh_size = 0, n_occupied = 0, upper_bound = 0, kh_flags = (\<lambda>_. 0),
     kh_keys = undefined, kh_vals = undefined\<rparr>"

definition kh_clear :: "('k, 'v) khash \<Rightarrow> ('k, 'v) khash" where
  "kh_clear h =
     (if n_buckets h = 0 then h
      else h\<lparr>kh_flags := (\<lambda>w. if w < ac_fsize (n_buckets h) then 0xAAAAAAAA else kh_flags h w),
             kh_size := 0, n_occupied := 0\<rparr>)"

text \<open>
  The loops take fuel; \<open>None\<close> means that it ran out. The probe of \<open>kh_get\<close> gives up when it is back
  at its first bucket.
\<close>

definition busy :: "('k, 'v) khash \<Rightarrow> 'k \<Rightarrow> u32 \<Rightarrow> bool" where
  "busy h key i \<longleftrightarrow>
     \<not> ac_isempty (kh_flags h) i \<and> (ac_isdel (kh_flags h) i \<or> kh_keys h (unat i) \<noteq> key)"

fun kh_get_loop :: "nat \<Rightarrow> ('k, 'v) khash \<Rightarrow> 'k \<Rightarrow> u32 \<Rightarrow> u32 \<Rightarrow> u32 \<Rightarrow> u32 \<Rightarrow> u32 option" where
  "kh_get_loop 0 h key msk start i step = None"
| "kh_get_loop (Suc n) h key msk start i step =
     (if busy h key i then
        let step = step + 1; i = (i + step) AND msk
        in if i = start then Some (n_buckets h) else kh_get_loop n h key msk start i step
      else Some (if ac_iseither (kh_flags h) i then n_buckets h else i))"

definition kh_get :: "('k \<Rightarrow> u32) \<Rightarrow> ('k, 'v) khash \<Rightarrow> 'k \<Rightarrow> u32 option" where
  "kh_get hash h key =
     (if n_buckets h = 0 then Some 0
      else let msk = n_buckets h - 1; i = hash key AND msk
           in kh_get_loop (2 * unat (n_buckets h)) h key msk i i 0)"

section \<open>Resizing\<close>

definition kroundup32 :: "u32 \<Rightarrow> u32" where
  "kroundup32 x =
     (let x = x - 1; x = x OR drop_bit 1 x; x = x OR drop_bit 2 x; x = x OR drop_bit 4 x;
          x = x OR drop_bit 8 x; x = x OR drop_bit 16 x
      in x + 1)"

text \<open>
  \<open>(khint_t)(n * __ac_HASH_UPPER + 0.5)\<close>. The double nearest to 0.77 is off by less than \<open>2 ^ -55\<close>, and
  \<open>n * 0.77 + 0.5\<close> is a multiple of 0.01, so for 32-bit \<open>n\<close> rounding cannot reach the next integer.
\<close>

definition hash_upper :: "u32 \<Rightarrow> u32" where
  "hash_upper n = of_nat ((unat n * 77 + 50) div 100)"

text \<open>The arrays during a rehash: old flags, new flags, keys and values.\<close>

record ('k, 'v) rehash =
  old_flags :: "nat \<Rightarrow> u32"
  new_flags :: "nat \<Rightarrow> u32"
  re_keys :: "nat \<Rightarrow> 'k"
  re_vals :: "nat \<Rightarrow> 'v"

fun kick_probe :: "nat \<Rightarrow> (nat \<Rightarrow> u32) \<Rightarrow> u32 \<Rightarrow> u32 \<Rightarrow> u32 \<Rightarrow> u32 option" where
  "kick_probe 0 fl msk i step = None"
| "kick_probe (Suc n) fl msk i step =
     (if ac_isempty fl i then Some i
      else let step = step + 1 in kick_probe n fl msk ((i + step) AND msk) step)"

fun kick_out ::
  "nat \<Rightarrow> ('k \<Rightarrow> u32) \<Rightarrow> u32 \<Rightarrow> u32 \<Rightarrow> 'k \<Rightarrow> 'v \<Rightarrow> ('k, 'v) rehash \<Rightarrow> ('k, 'v) rehash option" where
  "kick_out 0 hash n_old n_new key val r = None"
| "kick_out (Suc n) hash n_old n_new key val r =
     (case kick_probe (unat n_new) (new_flags r) (n_new - 1) (hash key AND (n_new - 1)) 0 of
        None \<Rightarrow> None
      | Some i \<Rightarrow>
          let kicked_key = re_keys r (unat i); kicked_val = re_vals r (unat i);
              kick = (i < n_old \<and> \<not> ac_iseither (old_flags r) i);
              r = r\<lparr>new_flags := ac_set_isempty_false i (new_flags r),
                    re_keys := (re_keys r)(unat i := key), re_vals := (re_vals r)(unat i := val)\<rparr>
          in if kick then
               kick_out n hash n_old n_new kicked_key kicked_val
                 (r\<lparr>old_flags := ac_set_isdel_true i (old_flags r)\<rparr>)
             else Some r)"

definition rehash_bucket ::
  "('k \<Rightarrow> u32) \<Rightarrow> u32 \<Rightarrow> u32 \<Rightarrow> u32 \<Rightarrow> ('k, 'v) rehash \<Rightarrow> ('k, 'v) rehash option" where
  "rehash_bucket hash n_old n_new j r =
     (if ac_iseither (old_flags r) j then Some r
      else kick_out (Suc (unat n_old)) hash n_old n_new (re_keys r (unat j)) (re_vals r (unat j))
             (r\<lparr>old_flags := ac_set_isdel_true j (old_flags r)\<rparr>))"

fun rehash_loop ::
  "('k \<Rightarrow> u32) \<Rightarrow> u32 \<Rightarrow> u32 \<Rightarrow> u32 list \<Rightarrow> ('k, 'v) rehash \<Rightarrow> ('k, 'v) rehash option" where
  "rehash_loop hash n_old n_new [] r = Some r"
| "rehash_loop hash n_old n_new (j # js) r =
     (case rehash_bucket hash n_old n_new j r of
        None \<Rightarrow> None
      | Some r \<Rightarrow> rehash_loop hash n_old n_new js r)"

text \<open>
  \<open>mem\<close> tells whether the allocations of the resize succeed (the first that fails ends it); a table
  that is too small for its elements is left as it is. The result tells whether it is not negative.
\<close>

definition kh_resize ::
  "bool \<Rightarrow> ('k \<Rightarrow> u32) \<Rightarrow> ('k, 'v) khash \<Rightarrow> u32 \<Rightarrow> (bool \<times> ('k, 'v) khash) option" where
  "kh_resize mem hash h new_n_buckets =
     (let n = kroundup32 new_n_buckets; n = (if n < 4 then 4 else n)
      in if hash_upper n \<le> kh_size h then Some (True, h)
         else if \<not> mem then Some (False, h)
         else
           case rehash_loop hash (n_buckets h) n (map of_nat [0..<unat (n_buckets h)])
                  \<lparr>old_flags = kh_flags h, new_flags = (\<lambda>_. 0xAAAAAAAA), re_keys = kh_keys h, re_vals = kh_vals h\<rparr> of
             None \<Rightarrow> None
           | Some r \<Rightarrow>
               Some (True, h\<lparr>kh_keys := re_keys r, kh_vals := re_vals r, kh_flags := new_flags r,
                 n_buckets := n, n_occupied := kh_size h, upper_bound := hash_upper n\<rparr>))"

section \<open>Insertion and deletion\<close>

text \<open>The probe of \<open>kh_put\<close> remembers the last deleted bucket it passed; it results in \<open>x\<close>.\<close>

fun kh_put_loop :: "nat \<Rightarrow> ('k, 'v) khash \<Rightarrow> 'k \<Rightarrow> u32 \<Rightarrow> u32 \<Rightarrow> u32 \<Rightarrow> u32 \<Rightarrow> u32 \<Rightarrow> u32 option" where
  "kh_put_loop 0 h key msk start site i step = None"
| "kh_put_loop (Suc n) h key msk start site i step =
     (if busy h key i then
        let site = (if ac_isdel (kh_flags h) i then i else site);
            step = step + 1; i = (i + step) AND msk
        in if i = start then
             Some (if site = n_buckets h then i else site)
           else kh_put_loop n h key msk start site i step
      else Some (if ac_isempty (kh_flags h) i \<and> site \<noteq> n_buckets h then site else i))"

text \<open>The states of \<open>*ret\<close>: \<open>-1\<close> failed, 0 present, 1 a bucket never used, 2 a deleted bucket.\<close>

definition kh_put_at :: "('k, 'v) khash \<Rightarrow> 'k \<Rightarrow> u32 \<Rightarrow> u32 \<times> int \<times> ('k, 'v) khash" where
  "kh_put_at h key x =
     (if ac_isempty (kh_flags h) x then
        (x, 1, h\<lparr>kh_keys := (kh_keys h)(unat x := key), kh_flags := ac_set_isboth_false x (kh_flags h),
                kh_size := kh_size h + 1, n_occupied := n_occupied h + 1\<rparr>)
      else if ac_isdel (kh_flags h) x then
        (x, 2, h\<lparr>kh_keys := (kh_keys h)(unat x := key), kh_flags := ac_set_isboth_false x (kh_flags h),
                kh_size := kh_size h + 1\<rparr>)
      else (x, 0, h))"

definition kh_put_site :: "('k \<Rightarrow> u32) \<Rightarrow> ('k, 'v) khash \<Rightarrow> 'k \<Rightarrow> u32 option" where
  "kh_put_site hash h key =
     (let msk = n_buckets h - 1; i = hash key AND msk
      in if ac_isempty (kh_flags h) i then Some i
         else kh_put_loop (2 * unat (n_buckets h)) h key msk i (n_buckets h) i 0)"

definition kh_put_room :: "bool \<Rightarrow> ('k \<Rightarrow> u32) \<Rightarrow> ('k, 'v) khash \<Rightarrow> (bool \<times> ('k, 'v) khash) option" where
  "kh_put_room mem hash h =
     (if upper_bound h \<le> n_occupied h then
        kh_resize mem hash h (if push_bit 1 (kh_size h) < n_buckets h then n_buckets h - 1 else n_buckets h + 1)
      else Some (True, h))"

definition kh_put :: "bool \<Rightarrow> ('k \<Rightarrow> u32) \<Rightarrow> ('k, 'v) khash \<Rightarrow> 'k \<Rightarrow> (u32 \<times> int \<times> ('k, 'v) khash) option" where
  "kh_put mem hash h key =
     (case kh_put_room mem hash h of
        None \<Rightarrow> None
      | Some (False, h) \<Rightarrow> Some (n_buckets h, - 1, h)
      | Some (True, h) \<Rightarrow> map_option (kh_put_at h key) (kh_put_site hash h key))"

definition kh_del :: "('k, 'v) khash \<Rightarrow> u32 \<Rightarrow> ('k, 'v) khash" where
  "kh_del h x =
     (if x \<noteq> n_buckets h \<and> \<not> ac_iseither (kh_flags h) x
      then h\<lparr>kh_flags := ac_set_isdel_true x (kh_flags h), kh_size := kh_size h - 1\<rparr>
      else h)"

text \<open>\<open>kh_value(h, x) = v\<close>\<close>

definition kh_set_value :: "u32 \<Rightarrow> 'v \<Rightarrow> ('k, 'v) khash \<Rightarrow> ('k, 'v) khash" where
  "kh_set_value x v h = h\<lparr>kh_vals := (kh_vals h)(unat x := v)\<rparr>"

section \<open>Hash functions\<close>

definition kh_int64_hash_func :: "u64 \<Rightarrow> u32" where
  "kh_int64_hash_func key = ucast (drop_bit 33 key XOR key XOR push_bit 11 key)"

text \<open>\<open>char\<close> is signed here: a byte of 128 or more is sign-extended.\<close>

definition ac_X31_hash_string :: "cstr \<Rightarrow> u32" where
  "ac_X31_hash_string s =
     (case s of [] \<Rightarrow> 0
      | c # cs \<Rightarrow> foldl (\<lambda>h c. push_bit 5 h - h + scast c) (scast c) cs)"

section \<open>Two bits per bucket\<close>

lemma ac_place:
  "ac_word i = unat i div 16" "ac_shift i = 2 * (unat i mod 16)" "ac_shift i < 31"
proof -
  have "i AND 0xF = take_bit 4 i" by (simp add: take_bit_eq_mask mask_eq_exp_minus_1)
  then have m: "unat (i AND 0xF) = unat i mod 16" by (simp add: take_bit_eq_mod unat_mod)
  have "push_bit 1 (i AND 0xF) = 2 * (i AND 0xF)" by (simp add: push_bit_eq_mult)
  moreover have "unat (2 * (i AND 0xF)) = 2 * unat (i AND 0xF)"
    using unat_mult_no_wrap [of 2 "i AND 0xF"] m by simp
  ultimately show "ac_shift i = 2 * (unat i mod 16)" by (simp add: ac_shift_def m)
  then show "ac_shift i < 31" by simp
  show "ac_word i = unat i div 16" by (simp add: ac_word_def drop_bit_eq_div unat_div)
qed

lemma ac_bits:
  "ac_isempty fl i \<longleftrightarrow> bit (fl (unat i div 16)) (Suc (2 * (unat i mod 16)))"
  "ac_isdel fl i \<longleftrightarrow> bit (fl (unat i div 16)) (2 * (unat i mod 16))"
  "ac_iseither fl i \<longleftrightarrow> ac_isempty fl i \<or> ac_isdel fl i"
proof -
  have two: "w AND 2 \<noteq> 0 \<longleftrightarrow> bit w 1" and one: "w AND 1 \<noteq> 0 \<longleftrightarrow> bit w 0" and three: "w AND 3 \<noteq> 0 \<longleftrightarrow> bit w 0 \<or> bit w 1" for w :: u32
  proof -
    show 1: "w AND 1 \<noteq> 0 \<longleftrightarrow> bit w 0" by (simp add: and_one_eq bit_0 odd_iff_mod_2_eq_one)
    have "(2 :: u32) = push_bit 1 1" by simp
    then show 2: "w AND 2 \<noteq> 0 \<longleftrightarrow> bit w 1"
      by (metis and_exp_eq_0_iff_not_bit power_one_right)
    have three: "(3 :: u32) = mask 2" by (simp add: mask_eq_exp_minus_1)
    have A: "w AND mask 2 = 0 \<longleftrightarrow> (\<forall>n. \<not> (bit w n \<and> n < 2))"
    proof -
      show ?thesis
        by (auto simp: bit_eq_iff bit_and_iff bit_mask_iff) (drule_tac x = n in spec, simp)
    qed
    have B: "(\<forall>n. \<not> (bit w n \<and> n < 2)) \<longleftrightarrow> \<not> bit w 0 \<and> \<not> bit w 1"
      by (simp add: numeral_2_eq_2 less_Suc_eq) (metis neq0_conv)
    show "w AND 3 \<noteq> 0 \<longleftrightarrow> bit w 0 \<or> bit w 1" unfolding three A B by blast
  qed
  show e: "ac_isempty fl i \<longleftrightarrow> bit (fl (unat i div 16)) (Suc (2 * (unat i mod 16)))"
    by (simp add: ac_isempty_def two bit_drop_bit_eq ac_place)
  show d: "ac_isdel fl i \<longleftrightarrow> bit (fl (unat i div 16)) (2 * (unat i mod 16))"
    by (simp add: ac_isdel_def one bit_drop_bit_eq ac_place)
  show "ac_iseither fl i \<longleftrightarrow> ac_isempty fl i \<or> ac_isdel fl i"
    by (auto simp: ac_iseither_def three e d bit_drop_bit_eq ac_place)
qed


lemma same_bucket: "unat (i :: u32) div 16 = unat j div 16 \<Longrightarrow> unat i mod 16 = unat j mod 16 \<Longrightarrow> i = j"
  by (metis div_mult_mod_eq unsigned_word_eqI)

lemma flag_bits [simp]:
  "unat (i :: u32) mod 16 < 16" "2 * (unat (i :: u32) mod 16) < 32" "Suc (2 * (unat (i :: u32) mod 16)) < 32"
proof -
  show m: "unat i mod 16 < 16" by simp
  show "2 * (unat i mod 16) < 32" "Suc (2 * (unat i mod 16)) < 32" using m by linarith+
qed

lemma two_bits: "bit (2 :: u32) n \<longleftrightarrow> n = 1" "bit (3 :: u32) n \<longleftrightarrow> n < 2"
proof -
  have "(2 :: u32) = push_bit 1 1" "(3 :: u32) = mask 2" by (simp_all add: mask_eq_exp_minus_1)
  then show "bit (2 :: u32) n \<longleftrightarrow> n = 1" "bit (3 :: u32) n \<longleftrightarrow> n < 2"
    by (auto simp only: bit_push_bit_iff bit_1_iff bit_mask_iff possible_bit_word) auto
qed

lemma flag_updates:
  fixes w :: u32
  assumes "s < 31"
  shows "bit (w AND NOT (push_bit s 2)) n \<longleftrightarrow> bit w n \<and> n \<noteq> Suc s"
    "bit (w AND NOT (push_bit s 3)) n \<longleftrightarrow> bit w n \<and> n \<noteq> s \<and> n \<noteq> Suc s"
    "bit (w OR push_bit s 1) n \<longleftrightarrow> bit w n \<or> n = s"
proof -
  have small: "bit w n \<Longrightarrow> n < 32" using bit_imp_le_length [of w n] by simp
  have "s \<le> n \<and> n - s < 2 \<longleftrightarrow> n = s \<or> n = Suc s" "s \<le> n \<and> n - s = 1 \<longleftrightarrow> n = Suc s" by linarith+
  then have e: "bit (push_bit s (2 :: u32)) n \<longleftrightarrow> n = Suc s" "bit (push_bit s (3 :: u32)) n \<longleftrightarrow> n = s \<or> n = Suc s"
      "bit (push_bit s (1 :: u32)) n \<longleftrightarrow> n = s"
    using assms by (simp_all only: bit_push_bit_iff two_bits bit_1_iff possible_bit_word) auto
  show "bit (w AND NOT (push_bit s 2)) n \<longleftrightarrow> bit w n \<and> n \<noteq> Suc s"
    "bit (w AND NOT (push_bit s 3)) n \<longleftrightarrow> bit w n \<and> n \<noteq> s \<and> n \<noteq> Suc s"
    "bit (w OR push_bit s 1) n \<longleftrightarrow> bit w n \<or> n = s"
    using small by (simp_all only: bit_and_iff bit_or_iff bit_not_iff possible_bit_word e) auto
qed

lemma other_bucket:
  "unat j div 16 = unat i div 16 \<Longrightarrow> j \<noteq> (i :: u32) \<Longrightarrow> unat j mod 16 \<noteq> unat i mod 16"
  using same_bucket by metis

lemma ac_at:
  "bit ((fl(unat i div 16 := w)) (unat j div 16)) n \<longleftrightarrow>
     (if unat j div 16 = unat i div 16 then bit w n else bit (fl (unat j div 16)) n)"
  by simp

lemma ac_set [simp]:
  "ac_isempty (ac_set_isempty_false i fl) j \<longleftrightarrow> j \<noteq> i \<and> ac_isempty fl j"
  "ac_isdel (ac_set_isempty_false i fl) j \<longleftrightarrow> ac_isdel fl j"
  "ac_isempty (ac_set_isboth_false i fl) j \<longleftrightarrow> j \<noteq> i \<and> ac_isempty fl j"
  "ac_isdel (ac_set_isboth_false i fl) j \<longleftrightarrow> j \<noteq> i \<and> ac_isdel fl j"
  "ac_isempty (ac_set_isdel_true i fl) j \<longleftrightarrow> ac_isempty fl j"
  "ac_isdel (ac_set_isdel_true i fl) j \<longleftrightarrow> j = i \<or> ac_isdel fl j"
proof -
  let ?i = "unat i mod 16" and ?j = "unat j mod 16"
  have s: "2 * ?i < 31" using flag_bits(1) [of i] by linarith
  have parity: "2 * a \<noteq> Suc (2 * b)" "Suc (2 * a) \<noteq> 2 * b" for a b :: nat by presburger+
  have eq: "2 * a = 2 * b \<longleftrightarrow> a = b" "Suc (2 * a) = Suc (2 * b) \<longleftrightarrow> a = b" for a b :: nat by linarith+
  note upd = flag_updates [OF s]
  note defs = ac_set_isempty_false_def ac_set_isboth_false_def ac_set_isdel_true_def ac_bits(1,2) ac_place(1,2) ac_at
  have cases: "j = i \<and> unat j div 16 = unat i div 16 \<and> ?j = ?i \<or> j \<noteq> i \<and> (unat j div 16 \<noteq> unat i div 16 \<or> ?j \<noteq> ?i)"
    using other_bucket by blast
  show "ac_isempty (ac_set_isempty_false i fl) j \<longleftrightarrow> j \<noteq> i \<and> ac_isempty fl j"
    unfolding defs upd using cases parity by (auto simp: eq)
  show "ac_isdel (ac_set_isempty_false i fl) j \<longleftrightarrow> ac_isdel fl j"
    unfolding defs upd using cases parity by (auto simp: eq)
  show "ac_isempty (ac_set_isboth_false i fl) j \<longleftrightarrow> j \<noteq> i \<and> ac_isempty fl j"
    unfolding defs upd using cases parity by (auto simp: eq)
  show "ac_isdel (ac_set_isboth_false i fl) j \<longleftrightarrow> j \<noteq> i \<and> ac_isdel fl j"
    unfolding defs upd using cases parity by (auto simp: eq)
  show "ac_isempty (ac_set_isdel_true i fl) j \<longleftrightarrow> ac_isempty fl j"
    unfolding defs upd using cases parity by (auto simp: eq)
  show "ac_isdel (ac_set_isdel_true i fl) j \<longleftrightarrow> j = i \<or> ac_isdel fl j"
    unfolding defs upd using cases parity by (auto simp: eq)
qed

lemma ac_filled: "fl (unat i div 16) = 0xAAAAAAAA \<Longrightarrow> ac_isempty fl i \<and> \<not> ac_isdel fl i"
proof -
  have b: "\<forall>n < 16. bit (0xAAAAAAAA :: u32) (Suc (2 * n)) \<and> \<not> bit (0xAAAAAAAA :: u32) (2 * n)"
    by code_simp
  then have "bit (0xAAAAAAAA :: u32) (Suc (2 * (unat i mod 16))) \<and> \<not> bit (0xAAAAAAAA :: u32) (2 * (unat i mod 16))"
    using flag_bits(1) [of i] by blast
  then show "fl (unat i div 16) = 0xAAAAAAAA \<Longrightarrow> ac_isempty fl i \<and> \<not> ac_isdel fl i"
    by (simp add: ac_bits)
qed

section \<open>Triangular probing\<close>

text \<open>The bucket of the step \<open>s\<close> from the start \<open>a\<close>, in a table of \<open>n\<close> buckets.\<close>

definition probe :: "nat \<Rightarrow> nat \<Rightarrow> nat \<Rightarrow> nat" where
  "probe n a s = (a + s * (s + 1) div 2) mod n"

lemma tri_Suc: "Suc s * (Suc s + 1) div 2 = s * (s + 1) div 2 + Suc s"
proof -
  have "Suc s * (Suc s + 1) = s * (s + 1) + 2 * Suc s" by simp
  then show ?thesis by (simp only: div_mult_self2 [of 2] numeral_neq_zero) simp
qed

lemma probe_0: "a < n \<Longrightarrow> probe n a 0 = a"
  by (simp add: probe_def)

lemma probe_Suc: "probe n a (Suc s) = (probe n a s + Suc s) mod n"
  unfolding probe_def tri_Suc by (simp only: mod_add_left_eq add.assoc)

lemma probe_less: "0 < n \<Longrightarrow> probe n a s < n"
  by (simp add: probe_def)

lemma two_tri: "2 * (s * (s + 1) div 2) = s * (s + 1)" for s :: nat
  by (intro dvd_mult_div_cancel) simp

text \<open>Two steps meet only if a power of two divides one of two factors, of which one is odd.\<close>

lemma probe_meet:
  assumes "s < t" and "probe (2 ^ k) a s = probe (2 ^ k) a t"
  shows "2 ^ Suc k dvd t - s \<or> 2 ^ Suc k dvd t + s + 1"
proof -
  let ?S = "s * (s + 1) div 2" and ?T = "t * (t + 1) div 2"
  have le: "?S \<le> ?T" using assms(1) by (intro div_le_mono mult_le_mono) simp_all
  have "(a + ?T) mod 2 ^ k = (a + ?S) mod 2 ^ k" using assms(2) by (simp add: probe_def)
  then have "2 ^ k dvd (a + ?T) - (a + ?S)" by (rule mod_eq_dvd_iff_nat [THEN iffD1, rotated]) (use le in simp)
  then have "2 ^ k dvd ?T - ?S" by simp
  then have "2 * 2 ^ k dvd 2 * (?T - ?S)" by (rule mult_dvd_mono [OF dvd_refl])
  moreover have "2 * (?T - ?S) = (t - s) * (t + s + 1)"
  proof -
    have "2 * (?T - ?S) = t * (t + 1) - s * (s + 1)" by (simp only: diff_mult_distrib2 two_tri)
    also have "\<dots> = (t - s) * (t + s + 1)"
    proof -
      obtain d where t: "t = s + d" using assms(1) less_imp_add_positive by blast
      show ?thesis by (simp add: t algebra_simps)
    qed
    finally show ?thesis .
  qed
  ultimately have d: "2 ^ Suc k dvd (t - s) * (t + s + 1)" by (simp only: power_Suc)
  show ?thesis
  proof (cases "even (t - s)")
    case True
    then have "odd (t + s + 1)" using assms(1) by (metis even_add even_diff_nat even_plus_one_iff less_imp_le_nat not_less)
    then have "coprime (2 ^ Suc k) (t + s + 1)" by simp
    with d have "2 ^ Suc k dvd t - s" by (simp only: coprime_dvd_mult_left_iff)
    then show ?thesis ..
  next
    case False
    then have "coprime (2 ^ Suc k) (t - s)" by simp
    with d have "2 ^ Suc k dvd t + s + 1" by (simp only: coprime_dvd_mult_right_iff)
    then show ?thesis ..
  qed
qed

lemma probe_inj:
  assumes "s < t" and "t < 2 ^ k"
  shows "probe (2 ^ k) a s \<noteq> probe (2 ^ k) a t"
proof
  assume "probe (2 ^ k) a s = probe (2 ^ k) a t"
  from probe_meet [OF assms(1) this] have "2 ^ Suc k \<le> t - s \<or> 2 ^ Suc k \<le> t + s + 1"
    using assms(1) by (auto dest!: dvd_imp_le)
  with assms show False by auto
qed

lemma probe_back:
  assumes "0 < t" and "probe (2 ^ k) a t = probe (2 ^ k) a 0"
  shows "2 ^ Suc k \<le> Suc t"
  using probe_meet [OF assms(1) assms(2) [symmetric]] assms(1) by (auto dest!: dvd_imp_le)

text \<open>The first \<open>2 ^ k\<close> steps visit every bucket.\<close>

lemma probe_all:
  assumes "x < 2 ^ k"
  shows "\<exists>s < 2 ^ k. probe (2 ^ k) a s = x"
proof -
  have inj: "inj_on (probe (2 ^ k) a) {..<2 ^ k}"
    by (rule inj_onI) (metis lessThan_iff linorder_neqE_nat probe_inj)
  have "probe (2 ^ k) a ` {..<2 ^ k} = {..<2 ^ k}"
    by (rule card_subset_eq) (use inj in \<open>auto simp: card_image probe_less\<close>)
  with assms show ?thesis by (metis imageE lessThan_iff)
qed

text \<open>The same steps with 32-bit words and a mask.\<close>

lemma and_pow2:
  assumes "k < 32"
  shows "(w :: u32) AND (2 ^ k - 1) = of_nat (unat w mod 2 ^ k)"
proof -
  have "w AND (2 ^ k - 1) = take_bit k w" by (simp add: take_bit_eq_mask mask_eq_exp_minus_1)
  also have "\<dots> = of_nat (unat (take_bit k w))" by simp
  also have "unat (take_bit k w) = take_bit k (unat w)" by (rule unsigned_take_bit_eq)
  also have "\<dots> = unat w mod 2 ^ k" by (rule take_bit_eq_mod)
  finally show ?thesis .
qed

lemma probe_word:
  assumes k: "k < 32" and s: "Suc s < 2 ^ 32"
  shows "(of_nat (probe (2 ^ k) a s) + (of_nat s + 1) :: u32) AND (2 ^ k - 1) = of_nat (probe (2 ^ k) a (Suc s))"
proof -
  have "of_nat (probe (2 ^ k) a s) + (of_nat s + 1) = (of_nat (probe (2 ^ k) a s + Suc s) :: u32)"
    by (simp add: add.commute add.left_commute)
  moreover have "unat (of_nat m :: u32) mod 2 ^ k = m mod 2 ^ k" for m
  proof -
    have "(2 :: nat) ^ k dvd 2 ^ 32" using k by (intro le_imp_power_dvd) simp
    then show ?thesis by (simp add: unat_of_nat mod_mod_cancel)
  qed
  ultimately show ?thesis by (simp only: and_pow2 [OF k] probe_Suc)
qed

section \<open>The loops\<close>

text \<open>The bucket of a step as the code holds it.\<close>

abbreviation bkt :: "nat \<Rightarrow> nat \<Rightarrow> nat \<Rightarrow> u32" where
  "bkt k a s \<equiv> of_nat (probe (2 ^ k) a s)"

lemma pow_32: "k < 32 \<Longrightarrow> 2 ^ k \<le> (2 :: nat) ^ 31"
  by (intro power_increasing) simp_all

lemma bkt_unat: "k < 32 \<Longrightarrow> unat (bkt k a s) = probe (2 ^ k) a s"
  using probe_less [of "2 ^ k" a s] pow_32 [of k] by (simp add: unat_of_nat)

lemma bkt_start: "k < 32 \<Longrightarrow> w AND (2 ^ k - 1) = bkt k (unat w) 0"
  by (simp only: and_pow2 probe_def) simp

lemma bkt_next: "k < 32 \<Longrightarrow> Suc s < 2 ^ k \<Longrightarrow> (bkt k a s + (of_nat s + 1)) AND (2 ^ k - 1) = bkt k a (Suc s)"
  using probe_word [of k s a] pow_32 [of k] by simp

lemma bkt_not_start:
  assumes "k < 32" and "0 < s" "s < 2 ^ k"
  shows "bkt k a s \<noteq> bkt k a 0"
proof
  assume "bkt k a s = bkt k a 0"
  then have "probe (2 ^ k) a s = probe (2 ^ k) a 0" by (metis bkt_unat [OF assms(1)])
  with probe_inj [OF assms(2,3), of a] show False by simp
qed

lemma pow2_unat: "k < 32 \<Longrightarrow> unat (2 ^ k :: u32) = 2 ^ k"
proof -
  assume "k < 32"
  then have "(2 :: nat) ^ k < 2 ^ 32" using pow_32 [of k] by simp
  moreover have "(2 ^ k :: u32) = of_nat (2 ^ k)" by simp
  ultimately show ?thesis by (simp only: unat_of_nat) simp
qed

text \<open>The loops stop at the first bucket that is not busy.\<close>

lemma kh_get_loop_stops:
  assumes k: "k < 32" and before: "\<And>t. t < s1 \<Longrightarrow> busy h key (bkt k a t)" and stop: "\<not> busy h key (bkt k a s1)"
    and s: "s \<le> s1" "s1 < 2 ^ k" and "s1 - s < fuel"
  shows "kh_get_loop fuel h key (2 ^ k - 1) (bkt k a 0) (bkt k a s) (of_nat s) =
    Some (if ac_iseither (kh_flags h) (bkt k a s1) then n_buckets h else bkt k a s1)"
  using assms(4,6)
proof (induction fuel arbitrary: s)
  case (Suc fuel)
  show ?case
  proof (cases "s = s1")
    case True
    with stop show ?thesis by simp
  next
    case False
    then have lt: "s < s1" using Suc.prems(1) by simp
    then have "Suc s < 2 ^ k" using s(2) by simp
    note nx = bkt_next [OF k this, of a] and ne = bkt_not_start [OF k zero_less_Suc this, of a]
    have "kh_get_loop fuel h key (2 ^ k - 1) (bkt k a 0) (bkt k a (Suc s)) (of_nat (Suc s)) =
        Some (if ac_iseither (kh_flags h) (bkt k a s1) then n_buckets h else bkt k a s1)"
      by (rule Suc.IH) (use lt Suc.prems in simp_all)
    moreover have "of_nat (Suc s) = (of_nat s + 1 :: u32)" by simp
    ultimately show ?thesis
      using before [OF lt] nx ne by (simp only: kh_get_loop.simps if_True if_False Let_def)
  qed
qed simp

lemma kick_probe_stops:
  assumes k: "k < 32" and before: "\<And>t. t < s1 \<Longrightarrow> \<not> ac_isempty fl (bkt k a t)" and stop: "ac_isempty fl (bkt k a s1)"
    and s: "s \<le> s1" "s1 < 2 ^ k" and "s1 - s < fuel"
  shows "kick_probe fuel fl (2 ^ k - 1) (bkt k a s) (of_nat s) = Some (bkt k a s1)"
  using assms(4,6)
proof (induction fuel arbitrary: s)
  case (Suc fuel)
  show ?case
  proof (cases "s = s1")
    case True
    with stop show ?thesis by simp
  next
    case False
    then have lt: "s < s1" using Suc.prems(1) by simp
    then have "Suc s < 2 ^ k" using s(2) by simp
    note nx = bkt_next [OF k this, of a]
    have "kick_probe fuel fl (2 ^ k - 1) (bkt k a (Suc s)) (of_nat (Suc s)) = Some (bkt k a s1)"
      by (rule Suc.IH) (use lt Suc.prems in simp_all)
    moreover have "of_nat (Suc s) = (of_nat s + 1 :: u32)" by simp
    ultimately show ?thesis
      using before [OF lt] nx by (simp only: kick_probe.simps if_True if_False Let_def simp_thms)
  qed
qed simp

text \<open>
  The probe of \<open>kh_put\<close> ends at the same bucket, or, when that is empty, at a deleted bucket before.
\<close>

definition put_site :: "nat \<Rightarrow> nat \<Rightarrow> ('k, 'v) khash \<Rightarrow> nat \<Rightarrow> u32 \<Rightarrow> bool" where
  "put_site k a h s1 x \<longleftrightarrow>
     x = bkt k a s1 \<or>
     ac_isempty (kh_flags h) (bkt k a s1) \<and>
       (\<exists>t < s1. x = bkt k a t \<and> ac_isdel (kh_flags h) (bkt k a t) \<and> \<not> ac_isempty (kh_flags h) (bkt k a t))"

lemma kh_put_loop_stops:
  assumes k: "k < 32" and before: "\<And>t. t < s1 \<Longrightarrow> busy h key (bkt k a t)" and stop: "\<not> busy h key (bkt k a s1)"
    and s: "s \<le> s1" "s1 < 2 ^ k" and fuel: "s1 - s < fuel"
    and site: "site = n_buckets h \<or>
      (\<exists>t < s. site = bkt k a t \<and> ac_isdel (kh_flags h) (bkt k a t) \<and> \<not> ac_isempty (kh_flags h) (bkt k a t))"
  shows "\<exists>x. kh_put_loop fuel h key (2 ^ k - 1) (bkt k a 0) site (bkt k a s) (of_nat s) = Some x \<and> put_site k a h s1 x"
  using s(1) fuel site
proof (induction fuel arbitrary: s site)
  case (Suc fuel)
  show ?case
  proof (cases "s = s1")
    case True
    then show ?thesis using stop Suc.prems(3) by (auto simp: put_site_def)
  next
    case False
    then have lt: "s < s1" using Suc.prems(1) by simp
    then have sk: "Suc s < 2 ^ k" using s(2) by simp
    note nx = bkt_next [OF k sk, of a] and ne = bkt_not_start [OF k zero_less_Suc sk, of a]
    let ?site = "if ac_isdel (kh_flags h) (bkt k a s) then bkt k a s else site"
    have "\<exists>x. kh_put_loop fuel h key (2 ^ k - 1) (bkt k a 0) ?site (bkt k a (Suc s)) (of_nat (Suc s)) = Some x \<and>
        put_site k a h s1 x"
    proof (rule Suc.IH)
      show "?site = n_buckets h \<or> (\<exists>t < Suc s. ?site = bkt k a t \<and> ac_isdel (kh_flags h) (bkt k a t) \<and>
          \<not> ac_isempty (kh_flags h) (bkt k a t))"
        using Suc.prems(3) before [OF lt] by (auto simp: busy_def less_Suc_eq)
    qed (use lt Suc.prems in simp_all)
    moreover have "of_nat (Suc s) = (of_nat s + 1 :: u32)" by simp
    ultimately show ?thesis
      using before [OF lt] nx ne by (simp only: kh_put_loop.simps if_True if_False Let_def)
  qed
qed simp

section \<open>The invariant\<close>

definition empty_at :: "('k, 'v) khash \<Rightarrow> nat \<Rightarrow> bool" where
  "empty_at h x = ac_isempty (kh_flags h) (of_nat x)"

definition live_at :: "('k, 'v) khash \<Rightarrow> nat \<Rightarrow> bool" where
  "live_at h x \<longleftrightarrow> \<not> ac_iseither (kh_flags h) (of_nat x)"

text \<open>The element at \<open>x\<close> is on the probe sequence of its key, with no empty bucket before it.\<close>

definition findable :: "nat \<Rightarrow> ('k \<Rightarrow> u32) \<Rightarrow> (nat \<Rightarrow> bool) \<Rightarrow> 'k \<Rightarrow> nat \<Rightarrow> bool" where
  "findable k hash emp key x \<longleftrightarrow>
     (\<exists>s. probe (2 ^ k) (unat (hash key)) s = x \<and> (\<forall>t < s. \<not> emp (probe (2 ^ k) (unat (hash key)) t)))"

definition kh_shape :: "nat \<Rightarrow> ('k \<Rightarrow> u32) \<Rightarrow> ('k, 'v) khash \<Rightarrow> bool" where
  "kh_shape k hash h \<longleftrightarrow>
     2 \<le> k \<and> k < 32 \<and> n_buckets h = 2 ^ k \<and> upper_bound h = hash_upper (2 ^ k) \<and>
     unat (n_occupied h) = card {x. x < 2 ^ k \<and> \<not> empty_at h x} \<and> n_occupied h \<le> upper_bound h \<and>
     unat (kh_size h) = card {x. x < 2 ^ k \<and> live_at h x} \<and>
     (\<forall>x < 2 ^ k. live_at h x \<longrightarrow> findable k hash (empty_at h) (kh_keys h x) x) \<and>
     inj_on (kh_keys h) {x. x < 2 ^ k \<and> live_at h x}"

definition kh_wf :: "('k \<Rightarrow> u32) \<Rightarrow> ('k, 'v) khash \<Rightarrow> bool" where
  "kh_wf hash h \<longleftrightarrow>
     n_buckets h = 0 \<and> kh_size h = 0 \<and> n_occupied h = 0 \<and> upper_bound h = 0 \<or> (\<exists>k. kh_shape k hash h)"

text \<open>\<open>kh_get\<close>, the comparison with \<open>kh_end\<close>, and \<open>kh_val\<close>, as every caller combines them.\<close>

definition kh_find :: "('k \<Rightarrow> u32) \<Rightarrow> ('k, 'v) khash \<Rightarrow> 'k \<Rightarrow> 'v option" where
  "kh_find hash h key =
     (case kh_get hash h key of
        None \<Rightarrow> None
      | Some x \<Rightarrow> if x = n_buckets h then None else Some (kh_vals h (unat x)))"

lemma hash_upper_less:
  assumes "2 \<le> k" and "k < 32"
  shows "unat (hash_upper (2 ^ k)) = (2 ^ k * 77 + 50) div 100" "unat (hash_upper (2 ^ k)) < 2 ^ k"
proof -
  have four: "(2 :: nat) ^ 2 \<le> 2 ^ k" using assms(1) by (intro power_increasing) simp_all
  have less: "((2 :: nat) ^ k * 77 + 50) div 100 < 2 ^ k" using four by (simp add: div_less_iff_less_mult)
  then have "((2 :: nat) ^ k * 77 + 50) div 100 < 2 ^ 32" using pow_32 [OF assms(2)] by simp
  then show "unat (hash_upper (2 ^ k)) = (2 ^ k * 77 + 50) div 100"
    by (simp add: hash_upper_def pow2_unat [OF assms(2)] unat_of_nat)
  with less show "unat (hash_upper (2 ^ k)) < 2 ^ k" by simp
qed

lemma not_busy: "\<not> busy h key (of_nat x) \<longleftrightarrow> empty_at h x \<or> live_at h x \<and> kh_keys h (unat (of_nat x :: u32)) = key"
  by (auto simp: busy_def empty_at_def live_at_def ac_bits(3))

lemma live_not_empty: "live_at h x \<Longrightarrow> \<not> empty_at h x"
  by (simp add: live_at_def empty_at_def ac_bits(3))

lemma some_empty:
  assumes "unat occ = card {x. x < 2 ^ k \<and> \<not> emp x}" and "unat occ < 2 ^ k"
  shows "\<exists>x < (2 :: nat) ^ k. emp x"
proof (rule ccontr)
  assume "\<not> ?thesis"
  then have "{x. x < 2 ^ k \<and> \<not> emp x} = {..<2 ^ k}" by auto
  with assms show False by simp
qed

lemma unat_small: "k < 32 \<Longrightarrow> x < 2 ^ k \<Longrightarrow> unat (of_nat x :: u32) = x"
  using pow_32 [of k] by (simp add: unat_of_nat)

lemma first_stop:
  assumes shape: "kh_shape k hash h"
  shows "\<exists>s1 < 2 ^ k. \<not> busy h key (bkt k a s1) \<and> (\<forall>t < s1. busy h key (bkt k a t))"
proof -
  have k: "2 \<le> k" "k < 32" using shape by (simp_all add: kh_shape_def)
  have "unat (n_occupied h) < 2 ^ k"
    using shape hash_upper_less(2) [OF k] by (auto simp: kh_shape_def word_le_nat_alt)
  with shape obtain x where x: "x < 2 ^ k" "empty_at h x"
    using some_empty [of "n_occupied h" k "empty_at h"] by (auto simp: kh_shape_def)
  obtain s where s: "s < 2 ^ k" "probe (2 ^ k) a s = x" using probe_all [OF x(1)] by blast
  have stop: "\<not> busy h key (bkt k a s)" using x(2) s(2) by (simp add: not_busy)
  define s1 where "s1 = (LEAST s. \<not> busy h key (bkt k a s))"
  have "\<not> busy h key (bkt k a s1)" unfolding s1_def by (rule LeastI) (rule stop)
  moreover have "s1 \<le> s" unfolding s1_def by (rule Least_le) (rule stop)
  moreover have "busy h key (bkt k a t)" if "t < s1" for t
    using not_less_Least that unfolding s1_def by blast
  ultimately show ?thesis using s(1) by (intro exI [of _ s1]) simp
qed

lemma kh_get_run:
  assumes shape: "kh_shape k hash h" and s1: "s1 < 2 ^ k" "\<not> busy h key (bkt k (unat (hash key)) s1)"
    "\<And>t. t < s1 \<Longrightarrow> busy h key (bkt k (unat (hash key)) t)"
  shows "kh_get hash h key =
    Some (if live_at h (probe (2 ^ k) (unat (hash key)) s1) then bkt k (unat (hash key)) s1 else n_buckets h)"
proof -
  have k: "2 \<le> k" "k < 32" and n: "n_buckets h = 2 ^ k" using shape by (simp_all add: kh_shape_def)
  have "n_buckets h \<noteq> 0"
  proof
    assume "n_buckets h = 0"
    with pow2_unat [OF k(2)] have "(2 :: nat) ^ k = 0" by (simp only: n unat_0)
    then show False by simp
  qed
  then show ?thesis
    using kh_get_loop_stops [OF k(2) s1(3) s1(2) _ s1(1), where s = 0 and fuel = "2 * 2 ^ k"] s1(1)
    by (simp add: kh_get_def Let_def n pow2_unat [OF k(2)] bkt_start [OF k(2)] live_at_def)
qed

lemma kh_get_present:
  assumes shape: "kh_shape k hash h" and x: "x < 2 ^ k" "live_at h x" "kh_keys h x = key"
  shows "kh_get hash h key = Some (of_nat x)"
proof -
  let ?a = "unat (hash key)"
  have k: "k < 32" using shape by (simp add: kh_shape_def)
  obtain s1 where s1: "s1 < 2 ^ k" "\<not> busy h key (bkt k ?a s1)" "\<And>t. t < s1 \<Longrightarrow> busy h key (bkt k ?a t)"
    using first_stop [OF shape] by blast
  from shape x obtain s where s: "probe (2 ^ k) ?a s = x" "\<And>t. t < s \<Longrightarrow> \<not> empty_at h (probe (2 ^ k) ?a t)"
    unfolding kh_shape_def findable_def by blast
  have "\<not> busy h key (bkt k ?a s)" using x by (simp add: not_busy unat_small [OF k x(1)] s(1))
  then have "s1 \<le> s" using s1(3) by (meson not_less)
  then have "\<not> empty_at h (probe (2 ^ k) ?a s1)"
    using s live_not_empty [OF x(2)] by (cases "s1 = s") auto
  then have live: "live_at h (probe (2 ^ k) ?a s1)" "kh_keys h (probe (2 ^ k) ?a s1) = key"
    using s1(2) by (simp_all add: not_busy bkt_unat [OF k])
  have "probe (2 ^ k) ?a s1 = x"
    by (rule inj_onD [of "kh_keys h" "{x. x < 2 ^ k \<and> live_at h x}"])
      (use shape live x probe_less in \<open>auto simp: kh_shape_def\<close>)
  with kh_get_run [OF shape s1] live show ?thesis by simp
qed

lemma kh_get_absent:
  assumes shape: "kh_shape k hash h" and absent: "\<And>x. x < 2 ^ k \<Longrightarrow> live_at h x \<Longrightarrow> kh_keys h x \<noteq> key"
  shows "kh_get hash h key = Some (n_buckets h)"
proof -
  let ?a = "unat (hash key)"
  have k: "k < 32" using shape by (simp add: kh_shape_def)
  obtain s1 where s1: "s1 < 2 ^ k" "\<not> busy h key (bkt k ?a s1)" "\<And>t. t < s1 \<Longrightarrow> busy h key (bkt k ?a t)"
    using first_stop [OF shape] by blast
  have "\<not> live_at h (probe (2 ^ k) ?a s1)"
    using s1(2) absent [OF probe_less] live_not_empty by (auto simp: not_busy bkt_unat [OF k])
  with kh_get_run [OF shape s1] show ?thesis by simp
qed

text \<open>What a well-formed table holds.\<close>

lemma kh_find_iff:
  assumes "kh_shape k hash h"
  shows "kh_find hash h key = Some v \<longleftrightarrow> (\<exists>x < 2 ^ k. live_at h x \<and> kh_keys h x = key \<and> kh_vals h x = v)"
proof -
  have k: "k < 32" and n: "n_buckets h = 2 ^ k" using assms by (simp_all add: kh_shape_def)
  have u: "unat (of_nat x :: u32) = x" "of_nat x \<noteq> (2 ^ k :: u32)" if "x < 2 ^ k" for x
  proof -
    show 1: "unat (of_nat x :: u32) = x" by (rule unat_small [OF k that])
    show "of_nat x \<noteq> (2 ^ k :: u32)" using that 1 pow2_unat [OF k] by auto
  qed
  show ?thesis
  proof (cases "\<exists>x < 2 ^ k. live_at h x \<and> kh_keys h x = key")
    case True
    then obtain x where x: "x < 2 ^ k" "live_at h x" "kh_keys h x = key" by blast
    have "y = x" if "y < 2 ^ k" "live_at h y" "kh_keys h y = key" for y
      by (rule inj_onD [of "kh_keys h" "{x. x < 2 ^ k \<and> live_at h x}"])
        (use assms x that in \<open>auto simp: kh_shape_def\<close>)
    then have "(\<exists>y < 2 ^ k. live_at h y \<and> kh_keys h y = key \<and> kh_vals h y = v) \<longleftrightarrow> kh_vals h x = v"
      using x by blast
    then show ?thesis
      using kh_get_present [OF assms x] u(2) [OF x(1)] by (simp only: kh_find_def option.case n if_False u(1) [OF x(1)] option.inject)
  next
    case False
    then show ?thesis using kh_get_absent [OF assms, of key] by (auto simp: kh_find_def)
  qed
qed

section \<open>Insertion into a table with room\<close>

lemma findable_mono: "findable k hash emp key x \<Longrightarrow> (\<And>y. emp' y \<Longrightarrow> emp y) \<Longrightarrow> findable k hash emp' key x"
  by (auto simp: findable_def)

lemma findableI: "probe (2 ^ k) (unat (hash key)) s = x \<Longrightarrow>
    (\<And>t. t < s \<Longrightarrow> \<not> emp (probe (2 ^ k) (unat (hash key)) t)) \<Longrightarrow> findable k hash emp key x"
  by (auto simp: findable_def)

lemma kh_put_site_finds:
  assumes shape: "kh_shape k hash h"
  shows "\<exists>x < 2 ^ k. kh_put_site hash h key = Some (of_nat x) \<and> findable k hash (empty_at h) key x \<and>
    (if live_at h x then kh_keys h x = key else \<forall>y < 2 ^ k. live_at h y \<longrightarrow> kh_keys h y \<noteq> key)"
proof -
  let ?a = "unat (hash key)"
  have k: "k < 32" and n: "n_buckets h = 2 ^ k" using shape by (simp_all add: kh_shape_def)
  obtain s1 where s1: "s1 < 2 ^ k" "\<not> busy h key (bkt k ?a s1)" "\<And>t. t < s1 \<Longrightarrow> busy h key (bkt k ?a t)"
    using first_stop [OF shape] by blast
  have full: "\<not> empty_at h (probe (2 ^ k) ?a t)" if "t < s1" for t
    using s1(3) [OF that] by (simp add: busy_def empty_at_def)
  have "\<exists>x. kh_put_site hash h key = Some x \<and> put_site k ?a h s1 x"
  proof (cases "ac_isempty (kh_flags h) (bkt k ?a 0)")
    case True
    then have "s1 = 0" using full [of 0] by (auto simp: empty_at_def)
    with True show ?thesis by (simp add: kh_put_site_def Let_def n bkt_start [OF k] put_site_def)
  next
    case False
    have "\<exists>x. kh_put_loop (2 * 2 ^ k) h key (2 ^ k - 1) (bkt k ?a 0) (n_buckets h) (bkt k ?a 0) (of_nat 0) = Some x \<and>
        put_site k ?a h s1 x"
      by (rule kh_put_loop_stops [OF k s1(3) s1(2)]) (use s1(1) in simp_all)
    with False show ?thesis by (simp add: kh_put_site_def Let_def n bkt_start [OF k] pow2_unat [OF k])
  qed
  then obtain x where x: "kh_put_site hash h key = Some x" "put_site k ?a h s1 x" by blast
  from x(2) obtain s where s: "s \<le> s1" "x = bkt k ?a s"
    "s < s1 \<Longrightarrow> ac_isempty (kh_flags h) (bkt k ?a s1) \<and> ac_isdel (kh_flags h) x"
    unfolding put_site_def by (metis less_imp_le order_refl less_irrefl)
  have stop: "empty_at h (probe (2 ^ k) ?a s1) \<or>
      live_at h (probe (2 ^ k) ?a s1) \<and> kh_keys h (probe (2 ^ k) ?a s1) = key"
    using s1(2) by (simp add: not_busy bkt_unat [OF k])
  have absent: "kh_keys h y \<noteq> key" if e: "empty_at h (probe (2 ^ k) ?a s1)" and y: "y < 2 ^ k" "live_at h y" for y
  proof
    assume key: "kh_keys h y = key"
    have "kh_get hash h key = Some (n_buckets h)"
      using kh_get_run [OF shape s1] e live_not_empty by fastforce
    then have "of_nat y = (2 ^ k :: u32)" using kh_get_present [OF shape y key] n by simp
    then have "y = 2 ^ k" using unat_small [OF k y(1)] pow2_unat [OF k] by metis
    with y(1) show False by simp
  qed
  show ?thesis
  proof (intro exI conjI)
    show "probe (2 ^ k) ?a s < 2 ^ k" by (simp add: probe_less)
    show "kh_put_site hash h key = Some (of_nat (probe (2 ^ k) ?a s))" using x(1) s(2) by simp
    show "findable k hash (empty_at h) key (probe (2 ^ k) ?a s)"
      by (rule findableI [of k hash key s]) (use full s(1) in auto)
    show "if live_at h (probe (2 ^ k) ?a s) then kh_keys h (probe (2 ^ k) ?a s) = key
        else \<forall>y < 2 ^ k. live_at h y \<longrightarrow> kh_keys h y \<noteq> key"
    proof (cases "s = s1")
      case True
      with stop absent show ?thesis using live_not_empty by auto
    next
      case False
      then have "s < s1" using s(1) by simp
      with s have "empty_at h (probe (2 ^ k) ?a s1)" "\<not> live_at h (probe (2 ^ k) ?a s)"
        by (simp_all add: empty_at_def live_at_def ac_bits(3))
      with absent show ?thesis by simp
    qed
  qed
qed

text \<open>The result of \<open>kh_put_at\<close>, by the state of the bucket.\<close>

lemma kh_put_at_cases:
  assumes "x < 2 ^ k" "k < 32"
  shows "kh_put_at h key (of_nat x) =
    (if live_at h x then (of_nat x, 0, h)
     else let h' = h\<lparr>kh_keys := (kh_keys h)(x := key), kh_flags := ac_set_isboth_false (of_nat x) (kh_flags h),
                kh_size := kh_size h + 1\<rparr>
          in if empty_at h x then (of_nat x, 1, h'\<lparr>n_occupied := n_occupied h + 1\<rparr>) else (of_nat x, 2, h'))"
  by (auto simp: kh_put_at_def empty_at_def live_at_def ac_bits(3) unat_small [OF assms(2,1)] Let_def)

lemma card_add_bucket:
  assumes "x < (n :: nat)" and "\<not> P x"
  shows "card {y. y < n \<and> (y = x \<or> P y)} = Suc (card {y. y < n \<and> P y})"
proof -
  have "{y. y < n \<and> (y = x \<or> P y)} = insert x {y. y < n \<and> P y}" using assms(1) by auto
  with assms(2) show ?thesis by simp
qed

lemma kh_size_bound:
  assumes "kh_shape k hash h"
  shows "unat (kh_size h) \<le> unat (n_occupied h)" "unat (n_occupied h) < 2 ^ k"
proof -
  show "unat (kh_size h) \<le> unat (n_occupied h)"
    using assms live_not_empty by (auto simp: kh_shape_def intro!: card_mono)
  show "unat (n_occupied h) < 2 ^ k"
    using assms hash_upper_less(2) [of k] by (auto simp: kh_shape_def word_le_nat_alt)
qed

lemma unat_inc: "unat w < 2 ^ k \<Longrightarrow> k < 32 \<Longrightarrow> unat (w + 1 :: u32) = Suc (unat w)"
proof -
  assume "unat w < 2 ^ k" "k < 32"
  then have "unat w + 1 < 2 ^ 32" using pow_32 [of k] by simp
  then show ?thesis using unat_add_lem [of w "1 :: u32"] by simp
qed

lemma fill_flags:
  assumes "x < 2 ^ k" "y < 2 ^ k" "k < 32" and "kh_flags h' = ac_set_isboth_false (of_nat x) (kh_flags h)"
  shows "empty_at h' y \<longleftrightarrow> y \<noteq> x \<and> empty_at h y" "live_at h' y \<longleftrightarrow> y = x \<or> live_at h y"
proof -
  have "of_nat y = (of_nat x :: u32) \<longleftrightarrow> y = x"
    using unat_small [OF assms(3,1)] unat_small [OF assms(3,2)] by metis
  then show "empty_at h' y \<longleftrightarrow> y \<noteq> x \<and> empty_at h y" "live_at h' y \<longleftrightarrow> y = x \<or> live_at h y"
    by (auto simp: empty_at_def live_at_def ac_bits(3) assms(4))
qed

lemma kh_fill_shape:
  assumes shape: "kh_shape k hash h" and x: "x < 2 ^ k" "\<not> live_at h x" "findable k hash (empty_at h) key x"
    and fresh: "\<forall>y < 2 ^ k. live_at h y \<longrightarrow> kh_keys h y \<noteq> key"
    and h': "n_buckets h' = n_buckets h" "upper_bound h' = upper_bound h" "kh_size h' = kh_size h + 1"
      "kh_keys h' = (kh_keys h)(x := key)" "kh_flags h' = ac_set_isboth_false (of_nat x) (kh_flags h)"
      "n_occupied h' = (if empty_at h x then n_occupied h + 1 else n_occupied h)"
    and room: "empty_at h x \<Longrightarrow> n_occupied h < upper_bound h"
  shows "kh_shape k hash h'"
proof -
  have k: "2 \<le> k" "k < 32" using shape by (simp_all add: kh_shape_def)
  note flags = fill_flags [OF x(1) _ k(2) h'(5)]
  have live: "{y. y < 2 ^ k \<and> live_at h' y} = {y. y < 2 ^ k \<and> (y = x \<or> live_at h y)}"
    using flags by blast
  have "{y. y < 2 ^ k \<and> \<not> empty_at h' y} = {y. y < 2 ^ k \<and> (y = x \<or> \<not> empty_at h y)}"
    using flags by blast
  then have occ: "card {y. y < 2 ^ k \<and> \<not> empty_at h' y} =
      (if empty_at h x then Suc (unat (n_occupied h)) else unat (n_occupied h))"
    using shape card_add_bucket [OF x(1), of "\<lambda>y. \<not> empty_at h y"] x(1)
    by (auto simp: kh_shape_def intro!: arg_cong [where f = card])
  note bound = kh_size_bound [OF shape]
  have size: "unat (kh_size h') = card {y. y < 2 ^ k \<and> live_at h' y}"
    unfolding live card_add_bucket [of x "2 ^ k" "live_at h", OF x(1,2)] h'(3)
    using unat_inc [of "kh_size h" k] bound k(2) shape by (simp add: kh_shape_def)
  have upper: "n_occupied h' \<le> upper_bound h'"
    using room shape inc_le [of "n_occupied h" "upper_bound h"] by (auto simp: h' kh_shape_def)
  have find: "findable k hash (empty_at h') (kh_keys h' y) y" if "y < 2 ^ k" "live_at h' y" for y
  proof -
    have old: "findable k hash (empty_at h) (kh_keys h' y) y"
      using shape x that flags [OF that(1)] by (auto simp: kh_shape_def h'(4))
    then obtain s where s: "probe (2 ^ k) (unat (hash (kh_keys h' y))) s = y"
      "\<And>t. t < s \<Longrightarrow> \<not> empty_at h (probe (2 ^ k) (unat (hash (kh_keys h' y))) t)"
      by (auto simp: findable_def)
    show ?thesis by (rule findableI [of k hash "kh_keys h' y" s, OF s(1)]) (use s(2) flags(1) in \<open>simp add: probe_less\<close>)
  qed
  have inj: "inj_on (kh_keys h') {y. y < 2 ^ k \<and> live_at h' y}"
    unfolding live
  proof (rule inj_onI)
    fix y z assume "y \<in> {y. y < 2 ^ k \<and> (y = x \<or> live_at h y)}" "z \<in> {y. y < 2 ^ k \<and> (y = x \<or> live_at h y)}"
      "kh_keys h' y = kh_keys h' z"
    then show "y = z"
      using fresh shape unfolding kh_shape_def inj_on_def h'(4) by (auto split: if_splits)
  qed
  show ?thesis
    unfolding kh_shape_def
    using k shape upper size find inj occ unat_inc [of "n_occupied h" k] bound(2)
    by (simp add: h'(1,2,6) kh_shape_def)
qed

text \<open>Two tables that differ at one bucket, which holds \<open>key\<close>, if anything.\<close>

lemma kh_find_upd:
  assumes shape: "kh_shape k hash h" "kh_shape k hash h'"
    and x: "x < 2 ^ k" "live_at h' x" "kh_keys h' x = key" "kh_vals h' x = v" "live_at h x \<Longrightarrow> kh_keys h x = key"
    and same: "\<And>y. y < 2 ^ k \<Longrightarrow> y \<noteq> x \<Longrightarrow>
      live_at h' y = live_at h y \<and> kh_keys h' y = kh_keys h y \<and> kh_vals h' y = kh_vals h y"
  shows "kh_find hash h' = (kh_find hash h)(key \<mapsto> v)"
proof
  fix key'
  show "kh_find hash h' key' = ((kh_find hash h)(key \<mapsto> v)) key'"
  proof (cases "key' = key")
    case True
    then have "kh_find hash h' key' = Some v" using kh_find_iff [OF shape(2)] x(1-4) by blast
    with True show ?thesis by simp
  next
    case False
    have "kh_find hash h' key' = Some w \<longleftrightarrow> kh_find hash h key' = Some w" for w
      unfolding kh_find_iff [OF shape(1)] kh_find_iff [OF shape(2)]
      by (rule iff_exI) (use False x same in metis)
    then have "kh_find hash h' key' = kh_find hash h key'" by (metis option.exhaust)
    with False show ?thesis by simp
  qed
qed

lemma kh_find_fill:
  assumes shape: "kh_shape k hash h" and shape': "kh_shape k hash h'" and x: "x < 2 ^ k" "\<not> live_at h x"
    and h': "kh_keys h' = (kh_keys h)(x := key)" "kh_vals h' = (kh_vals h)(x := v)"
      "kh_flags h' = ac_set_isboth_false (of_nat x) (kh_flags h)"
  shows "kh_find hash h' = (kh_find hash h)(key \<mapsto> v)"
proof -
  have k: "k < 32" using shape by (simp add: kh_shape_def)
  note live = fill_flags(2) [OF x(1) _ k h'(3)]
  show ?thesis by (rule kh_find_upd [OF shape shape' x(1)]) (use x live in \<open>simp_all add: h'(1,2)\<close>)
qed

lemma kh_shape_vals [simp]: "kh_shape k hash (h\<lparr>kh_vals := f\<rparr>) \<longleftrightarrow> kh_shape k hash h"
  by (simp add: kh_shape_def empty_at_def [abs_def] live_at_def [abs_def])

lemma kh_find_value:
  assumes shape: "kh_shape k hash h" and x: "x < 2 ^ k" "live_at h x" "kh_keys h x = key"
  shows "kh_find hash (kh_set_value (of_nat x) v h) = (kh_find hash h)(key \<mapsto> v)"
proof -
  have k: "k < 32" using shape by (simp add: kh_shape_def)
  show ?thesis
    by (rule kh_find_upd [OF shape _ x(1)])
      (use shape x in \<open>simp_all add: kh_set_value_def live_at_def unat_small [OF k x(1)]\<close>)
qed

lemma kh_put_in_shape:
  assumes shape: "kh_shape k hash h" and room: "n_occupied h < upper_bound h"
  obtains x ret h' where "map_option (kh_put_at h key) (kh_put_site hash h key) = Some (of_nat x, ret, h')"
    "x < 2 ^ k" "kh_shape k hash h'" "ret = 0 \<longleftrightarrow> kh_find hash h key \<noteq> None" "ret \<in> {0, 1, 2}"
    "\<And>v. kh_find hash (kh_set_value (of_nat x) v h') = (kh_find hash h)(key \<mapsto> v)"
proof -
  have k: "k < 32" using shape by (simp add: kh_shape_def)
  from kh_put_site_finds [OF shape, of key] obtain x where x: "x < 2 ^ k" "kh_put_site hash h key = Some (of_nat x)"
    "findable k hash (empty_at h) key x"
    "if live_at h x then kh_keys h x = key else \<forall>y < 2 ^ k. live_at h y \<longrightarrow> kh_keys h y \<noteq> key"
    by blast
  show thesis
  proof (cases "live_at h x")
    case True
    then have "kh_find hash h key = Some (kh_vals h x)" using x kh_find_iff [OF shape] by auto
    then show thesis
      using True x that [of x 0 h] shape kh_find_value [OF shape x(1) True] by (simp add: kh_put_at_cases [OF x(1) k])
  next
    case False
    with x have fresh: "\<forall>y < 2 ^ k. live_at h y \<longrightarrow> kh_keys h y \<noteq> key" by simp
    then have none: "kh_find hash h key = None" using kh_find_iff [OF shape, of key] by (metis option.exhaust)
    let ?h = "h\<lparr>kh_keys := (kh_keys h)(x := key), kh_flags := ac_set_isboth_false (of_nat x) (kh_flags h),
      kh_size := kh_size h + 1\<rparr>"
    let ?h' = "if empty_at h x then ?h\<lparr>n_occupied := n_occupied h + 1\<rparr> else ?h"
    have shape': "kh_shape k hash ?h'"
      by (rule kh_fill_shape [OF shape x(1) False x(3) fresh]) (use room in auto)
    have "kh_find hash (kh_set_value (of_nat x) v ?h') = (kh_find hash h)(key \<mapsto> v)" for v
      by (rule kh_find_fill [OF shape _ x(1) False])
        (use shape' in \<open>auto simp: kh_set_value_def unat_small [OF k x(1)]\<close>)
    then show thesis
      using False x none shape' that [of x "if empty_at h x then 1 else 2" ?h']
      by (simp add: kh_put_at_cases [OF x(1) k] Let_def)
  qed
qed

section \<open>The rehash\<close>

definition old_live :: "u32 \<Rightarrow> ('k, 'v) rehash \<Rightarrow> nat set" where
  "old_live n_old r = {x. x < unat n_old \<and> \<not> ac_iseither (old_flags r) (of_nat x)}"

definition new_full :: "nat \<Rightarrow> ('k, 'v) rehash \<Rightarrow> nat set" where
  "new_full k r = {x. x < 2 ^ k \<and> \<not> ac_isempty (new_flags r) (of_nat x)}"

definition entries :: "(nat \<Rightarrow> 'k) \<Rightarrow> (nat \<Rightarrow> 'v) \<Rightarrow> nat set \<Rightarrow> ('k \<times> 'v) set" where
  "entries ks vs X = (\<lambda>x. (ks x, vs x)) ` X"

text \<open>
  While the elements move, each is in a bucket of the old table, in one of the new table, or in the
  hand of the kick-out (\<open>H\<close>), and those of the new table can be found there.
\<close>

definition rehash_ok ::
  "nat \<Rightarrow> u32 \<Rightarrow> ('k \<Rightarrow> u32) \<Rightarrow> ('k \<times> 'v) set \<Rightarrow> ('k \<times> 'v) set \<Rightarrow> ('k, 'v) rehash \<Rightarrow> bool" where
  "rehash_ok k n_old hash E H r \<longleftrightarrow>
     (\<forall>x < 2 ^ k. \<not> ac_isdel (new_flags r) (of_nat x)) \<and>
     (\<forall>x \<in> new_full k r. findable k hash (\<lambda>y. ac_isempty (new_flags r) (of_nat y)) (re_keys r x) x) \<and>
     old_live n_old r \<inter> new_full k r = {} \<and>
     inj_on (re_keys r) (old_live n_old r \<union> new_full k r) \<and>
     entries (re_keys r) (re_vals r) (old_live n_old r \<union> new_full k r) \<union> H = E \<and>
     re_keys r ` (old_live n_old r \<union> new_full k r) \<inter> fst ` H = {}"

lemma old_live_finite [simp]: "finite (old_live n_old r)" "finite (new_full k r)"
  by (simp_all add: old_live_def new_full_def)

lemma entries_card: "inj_on ks X \<Longrightarrow> card (entries ks vs X) = card X"
  unfolding entries_def by (rule card_image) (auto simp: inj_on_def)

text \<open>A bucket for the element in the hand.\<close>

lemma rehash_place:
  assumes ok: "rehash_ok k n_old hash E H r" and E: "finite E" "card E < 2 ^ k" and k: "k < 32"
  shows "\<exists>s < 2 ^ k. kick_probe (2 ^ k) (new_flags r) (2 ^ k - 1) (bkt k a 0) 0 = Some (bkt k a s) \<and>
    ac_isempty (new_flags r) (bkt k a s) \<and> (\<forall>t < s. \<not> ac_isempty (new_flags r) (bkt k a t))"
proof -
  let ?X = "old_live n_old r \<union> new_full k r"
  have "card (new_full k r) \<le> card ?X" by (rule card_mono) simp_all
  also have "\<dots> = card (entries (re_keys r) (re_vals r) ?X)"
    using ok by (simp add: rehash_ok_def entries_card)
  also have "\<dots> \<le> card E" by (rule card_mono [OF E(1)]) (use ok in \<open>auto simp: rehash_ok_def\<close>)
  finally have "card (new_full k r) < 2 ^ k" using E(2) by simp
  then have "\<exists>x < 2 ^ k. ac_isempty (new_flags r) (of_nat x)"
    by (metis (mono_tags, lifting) Collect_cong card_Collect_less_nat less_irrefl new_full_def)
  then obtain x where x: "x < 2 ^ k" "ac_isempty (new_flags r) (of_nat x)" by blast
  obtain s where s: "s < 2 ^ k" "probe (2 ^ k) a s = x" using probe_all [OF x(1)] by blast
  define s1 where "s1 = (LEAST s. ac_isempty (new_flags r) (bkt k a s))"
  have stop: "ac_isempty (new_flags r) (bkt k a s1)"
    unfolding s1_def by (rule LeastI [of _ s]) (use x s in simp)
  have "s1 \<le> s" unfolding s1_def by (rule Least_le) (use x s in simp)
  then have s1: "s1 < 2 ^ k" using s(1) by simp
  have before: "\<not> ac_isempty (new_flags r) (bkt k a t)" if "t < s1" for t
    using not_less_Least that unfolding s1_def by blast
  have "kick_probe (2 ^ k) (new_flags r) (2 ^ k - 1) (bkt k a 0) (of_nat 0) = Some (bkt k a s1)"
    by (rule kick_probe_stops [OF k before stop]) (use s1 in simp_all)
  with stop s1 before show ?thesis by auto
qed

text \<open>The element in the hand takes a bucket, of which the old element goes into the hand.\<close>

definition take_bucket :: "nat \<Rightarrow> 'k \<Rightarrow> 'v \<Rightarrow> ('k, 'v) rehash \<Rightarrow> ('k, 'v) rehash" where
  "take_bucket x key val r =
     r\<lparr>new_flags := ac_set_isempty_false (of_nat x) (new_flags r),
       re_keys := (re_keys r)(x := key), re_vals := (re_vals r)(x := val)\<rparr>"

definition drop_bucket :: "nat \<Rightarrow> ('k, 'v) rehash \<Rightarrow> ('k, 'v) rehash" where
  "drop_bucket x r = r\<lparr>old_flags := ac_set_isdel_true (of_nat x) (old_flags r)\<rparr>"

lemma of_nat_eq: "k < 32 \<Longrightarrow> x < 2 ^ k \<Longrightarrow> y < 2 ^ k \<Longrightarrow> of_nat y = (of_nat x :: u32) \<longleftrightarrow> y = x"
  by (metis unat_small)

lemma of_nat_eq_old: "x < unat (w :: u32) \<Longrightarrow> y < 2 ^ 32 \<Longrightarrow> of_nat x = (of_nat y :: u32) \<longleftrightarrow> x = y"
proof -
  assume "x < unat w" "y < 2 ^ 32"
  moreover have "unat w < 2 ^ 32" using unsigned_less [of w] by simp
  ultimately have "unat (of_nat x :: u32) = x" "unat (of_nat y :: u32) = y" by (simp_all add: unat_of_nat)
  then show ?thesis by metis
qed

lemma drop_take: "drop_bucket x (take_bucket x key val r) = take_bucket x key val (drop_bucket x r)"
  by (rule rehash.equality) (simp_all add: drop_bucket_def take_bucket_def)

lemma take_bucket_sets:
  assumes "x < 2 ^ k" "k < 32"
  shows "new_full k (take_bucket x key val r) = insert x (new_full k r)"
    "old_live n_old (take_bucket x key val r) = old_live n_old r"
  using assms of_nat_eq [OF assms(2,1)] by (auto simp: new_full_def old_live_def take_bucket_def)

lemma drop_bucket_sets:
  assumes "x < 2 ^ 32"
  shows "new_full k (drop_bucket x r) = new_full k r"
    "old_live n_old (drop_bucket x r) = old_live n_old r - {x}"
  using of_nat_eq_old [OF _ assms]
  by (auto simp: new_full_def old_live_def drop_bucket_def ac_bits(3))

lemma rehash_lift:
  assumes ok: "rehash_ok k n_old hash E H r" and x: "x \<in> old_live n_old r" and k: "x < 2 ^ 32"
  shows "rehash_ok k n_old hash E (insert (re_keys r x, re_vals r x) H) (drop_bucket x r)"
proof -
  note sets = drop_bucket_sets [OF k, where r = r]
  have same: "re_keys (drop_bucket x r) = re_keys r" "re_vals (drop_bucket x r) = re_vals r"
    "new_flags (drop_bucket x r) = new_flags r" by (simp_all add: drop_bucket_def)
  have X: "old_live n_old r \<union> new_full k r = insert x (old_live n_old r - {x} \<union> new_full k r)" using x by blast
  have x': "x \<notin> old_live n_old r - {x} \<union> new_full k r" using ok x by (auto simp: rehash_ok_def)
  have inj: "inj_on (re_keys r) (old_live n_old r - {x} \<union> new_full k r)"
    "re_keys r x \<notin> re_keys r ` (old_live n_old r - {x} \<union> new_full k r)"
    using ok x' unfolding rehash_ok_def X by (simp_all add: inj_on_insert Diff_insert0)
  have "entries (re_keys r) (re_vals r) (old_live n_old r \<union> new_full k r) =
      insert (re_keys r x, re_vals r x) (entries (re_keys r) (re_vals r) (old_live n_old r - {x} \<union> new_full k r))"
    unfolding X by (simp add: entries_def)
  then show ?thesis
    using ok inj unfolding rehash_ok_def sets same by auto
qed

lemma rehash_fill:
  assumes ok: "rehash_ok k n_old hash E (insert (key, val) H) r" and key: "key \<notin> fst ` H" and k: "k < 32"
    and x: "x < 2 ^ k" "x \<notin> old_live n_old r" "x \<notin> new_full k r"
    and find: "findable k hash (\<lambda>y. ac_isempty (new_flags r) (of_nat y)) key x"
  shows "rehash_ok k n_old hash E H (take_bucket x key val r)"
proof -
  note sets = take_bucket_sets [OF x(1) k, where r = r]
  let ?r = "take_bucket x key val r" and ?X = "old_live n_old r \<union> new_full k r"
  have X: "old_live n_old ?r \<union> new_full k ?r = insert x ?X" by (simp add: sets)
  have same: "re_keys ?r = (re_keys r)(x := key)" "re_vals ?r = (re_vals r)(x := val)"
    "new_flags ?r = ac_set_isempty_false (of_nat x) (new_flags r)" by (simp_all add: take_bucket_def)
  have x': "x \<notin> ?X" using x by simp
  have fresh: "key \<notin> re_keys r ` ?X" using ok by (auto simp: rehash_ok_def)
  have img: "(re_keys r)(x := key) ` insert x ?X = insert key (re_keys r ` ?X)" using x' by auto
  have "inj_on ((re_keys r)(x := key)) (insert x ?X)"
    using ok fresh x' unfolding rehash_ok_def inj_on_def by auto
  moreover have "entries ((re_keys r)(x := key)) ((re_vals r)(x := val)) (insert x ?X) =
      insert (key, val) (entries (re_keys r) (re_vals r) ?X)"
    using x' by (auto simp: entries_def)
  moreover have "findable k hash (\<lambda>y. ac_isempty (new_flags ?r) (of_nat y)) (re_keys ?r y) y"
    if "y \<in> new_full k ?r" for y
  proof (rule findable_mono)
    show "findable k hash (\<lambda>y. ac_isempty (new_flags r) (of_nat y)) (re_keys ?r y) y"
      using that find ok unfolding sets same by (auto simp: rehash_ok_def)
  qed (simp add: same)
  ultimately show ?thesis
    using ok key x' unfolding rehash_ok_def X same(1,2) img by (auto simp: same sets)
qed

text \<open>The kick-out ends: each round but the last leaves one element less in the old table.\<close>

lemma kick_out_ok:
  assumes "rehash_ok k n_old hash E {(key, val)} r" and "finite E" "card E < 2 ^ k" and k: "k < 32"
    and "card (old_live n_old r) < fuel"
  shows "\<exists>r'. kick_out fuel hash n_old (2 ^ k) key val r = Some r' \<and> rehash_ok k n_old hash E {} r' \<and>
    old_live n_old r' \<subseteq> old_live n_old r"
  using assms(1,5)
proof (induction fuel arbitrary: key val r)
  case (Suc fuel)
  let ?a = "unat (hash key)"
  from rehash_place [OF Suc.prems(1) assms(2,3) k, of ?a] obtain s where s: "s < 2 ^ k"
    "kick_probe (2 ^ k) (new_flags r) (2 ^ k - 1) (bkt k ?a 0) 0 = Some (bkt k ?a s)"
    "ac_isempty (new_flags r) (bkt k ?a s)" "\<And>t. t < s \<Longrightarrow> \<not> ac_isempty (new_flags r) (bkt k ?a t)"
    by blast
  define x where "x = probe (2 ^ k) ?a s"
  have x: "x < 2 ^ k" "x \<notin> new_full k r" "unat (of_nat x :: u32) = x" "bkt k ?a s = of_nat x"
    using s(3) unat_small [OF k, of x] by (simp_all add: x_def probe_less new_full_def)
  have x32: "x < 2 ^ 32" using x(1) pow_32 [OF k] by simp
  have find: "findable k hash (\<lambda>y. ac_isempty (new_flags r) (of_nat y)) key x"
    by (rule findableI [of k hash key s]) (use s(4) in \<open>simp_all add: x_def\<close>)
  have kick: "of_nat x < n_old \<and> \<not> ac_iseither (old_flags r) (of_nat x) \<longleftrightarrow> x \<in> old_live n_old r"
    by (simp add: old_live_def word_less_nat_alt x(3))
  have step: "kick_out (Suc fuel) hash n_old (2 ^ k) key val r =
      (if x \<in> old_live n_old r
       then kick_out fuel hash n_old (2 ^ k) (re_keys r x) (re_vals r x) (take_bucket x key val (drop_bucket x r))
       else Some (take_bucket x key val r))"
    unfolding drop_take [symmetric] using s(2) kick
    by (simp add: bkt_start [OF k] pow2_unat [OF k] x(3,4) Let_def take_bucket_def drop_bucket_def)
  show ?case
  proof (cases "x \<in> old_live n_old r")
    case False
    then have "rehash_ok k n_old hash E {} (take_bucket x key val r)"
      using rehash_fill [OF Suc.prems(1) _ k x(1) False x(2) find] by simp
    then show ?thesis unfolding step using False by (simp add: take_bucket_sets [OF x(1) k])
  next
    case True
    let ?r = "take_bucket x key val (drop_bucket x r)"
    have lifted: "rehash_ok k n_old hash E (insert (key, val) {(re_keys r x, re_vals r x)}) (drop_bucket x r)"
      using rehash_lift [OF Suc.prems(1) True x32] by (simp add: insert_commute)
    have "key \<notin> fst ` {(re_keys r x, re_vals r x)}"
      using Suc.prems(1) True by (auto simp: rehash_ok_def)
    then have ok: "rehash_ok k n_old hash E {(re_keys r x, re_vals r x)} ?r"
      by (rule rehash_fill [OF lifted _ k x(1)])
        (use x(2) find in \<open>simp_all add: drop_bucket_sets [OF x32], simp add: drop_bucket_def\<close>)
    have old: "old_live n_old ?r = old_live n_old r - {x}"
      by (simp add: take_bucket_sets [OF x(1) k] drop_bucket_sets [OF x32])
    have "card (old_live n_old r - {x}) < card (old_live n_old r)"
      by (rule card_Diff1_less) (use True in simp_all)
    then have "card (old_live n_old ?r) < fuel" using Suc.prems(2) old by simp
    from Suc.IH [OF ok this] show ?thesis unfolding step old using True by auto
  qed
qed simp

lemma rehash_bucket_ok:
  assumes ok: "rehash_ok k n_old hash E {} r" and E: "finite E" "card E < 2 ^ k" and k: "k < 32"
    and j: "j < unat n_old"
  shows "\<exists>r'. rehash_bucket hash n_old (2 ^ k) (of_nat j) r = Some r' \<and> rehash_ok k n_old hash E {} r' \<and>
    old_live n_old r' \<subseteq> old_live n_old r - {j}"
proof (cases "ac_iseither (old_flags r) (of_nat j)")
  case True
  then have "j \<notin> old_live n_old r" by (simp add: old_live_def)
  with True ok show ?thesis by (simp add: rehash_bucket_def)
next
  case False
  with j have old: "j \<in> old_live n_old r" by (simp add: old_live_def)
  have "unat n_old < 2 ^ 32" using unsigned_less [of n_old] by simp
  with j have j32: "j < 2 ^ 32" by simp
  then have u: "unat (of_nat j :: u32) = j" by (simp add: unat_of_nat)
  note sets = drop_bucket_sets(2) [OF j32, of n_old r]
  have lifted: "rehash_ok k n_old hash E {(re_keys r j, re_vals r j)} (drop_bucket j r)"
    using rehash_lift [OF ok old j32] by simp
  have "card (old_live n_old (drop_bucket j r)) \<le> card {..<unat n_old}"
    by (rule card_mono) (auto simp: old_live_def)
  then have "card (old_live n_old (drop_bucket j r)) < Suc (unat n_old)" by simp
  note kick_out_ok [OF lifted E k this, unfolded sets]
  moreover have "rehash_bucket hash n_old (2 ^ k) (of_nat j) r =
      kick_out (Suc (unat n_old)) hash n_old (2 ^ k) (re_keys r j) (re_vals r j) (drop_bucket j r)"
    using False by (simp only: rehash_bucket_def if_False u drop_bucket_def)
  ultimately show ?thesis by simp
qed

lemma rehash_loop_ok:
  assumes E: "finite E" "card E < 2 ^ k" and k: "k < 32"
  shows "rehash_ok k n_old hash E {} r \<Longrightarrow> \<forall>j \<in> set js. j < unat n_old \<Longrightarrow>
    \<exists>r'. rehash_loop hash n_old (2 ^ k) (map of_nat js) r = Some r' \<and> rehash_ok k n_old hash E {} r' \<and>
      old_live n_old r' \<subseteq> old_live n_old r - set js"
proof (induction js arbitrary: r)
  case (Cons j js)
  from Cons.prems(2) have "j < unat n_old" by simp
  from rehash_bucket_ok [OF Cons.prems(1) E k this] obtain r1 where r1:
    "rehash_bucket hash n_old (2 ^ k) (of_nat j) r = Some r1" "rehash_ok k n_old hash E {} r1"
    "old_live n_old r1 \<subseteq> old_live n_old r - {j}" by blast
  from Cons.IH [OF r1(2)] Cons.prems(2) obtain r2 where
    "rehash_loop hash n_old (2 ^ k) (map of_nat js) r1 = Some r2" "rehash_ok k n_old hash E {} r2"
    "old_live n_old r2 \<subseteq> old_live n_old r1 - set js" by auto
  with r1 show ?case by auto
qed simp

section \<open>Rounding up to a power of two\<close>

lemma smear:
  assumes "\<And>n. bit (x :: u32) n \<longleftrightarrow> (\<exists>m. n \<le> m \<and> m < n + d \<and> bit w m)"
  shows "bit (x OR drop_bit d x) n \<longleftrightarrow> (\<exists>m. n \<le> m \<and> m < n + 2 * d \<and> bit w m)"
proof -
  have "bit (x OR drop_bit d x) n \<longleftrightarrow> bit x n \<or> bit x (d + n)"
    by (simp add: bit_or_iff bit_drop_bit_eq)
  also have "\<dots> \<longleftrightarrow> (\<exists>m. (n \<le> m \<and> m < n + d \<or> d + n \<le> m \<and> m < d + n + d) \<and> bit w m)"
    unfolding assms by blast
  also have "(\<lambda>m. n \<le> m \<and> m < n + d \<or> d + n \<le> m \<and> m < d + n + d) = (\<lambda>m. n \<le> m \<and> m < n + 2 * d)"
    by (rule ext) linarith
  finally show ?thesis by meson
qed

lemma smear_all: "(\<exists>m. n \<le> m \<and> m < n + 32 \<and> bit w m) \<longleftrightarrow> (\<exists>m \<ge> n. bit (w :: u32) m)"
  using bit_imp_le_length [of w] by (auto dest: bit_imp_le_length) (metis add.commute bit_imp_le_length len_of_numeral_defs trans_less_add1)


text \<open>For 32 bits, the least power of two that is not less, which wraps around to 0.\<close>

lemma kroundup32_pow2:
  assumes "2 ^ k < unat x" "unat x \<le> 2 ^ Suc k" and k: "k < 32"
  shows "kroundup32 x = 2 ^ Suc k"
proof -
  define w where "w = x - 1"
  have "x \<noteq> 0" using assms(1) by auto
  then have w: "unat w = unat x - 1" by (simp add: w_def unat_minus_one)
  then have w: "2 ^ k \<le> unat w" "unat w < 2 ^ Suc k" using assms by simp_all
  have top: "bit w k" "\<And>m. k < m \<Longrightarrow> \<not> bit w m"
  proof -
    have "unat w div 2 ^ k = 1" using w by (simp add: div_nat_eqI)
    then have "bit (unat w) k" by (simp add: bit_iff_odd)
    then show "bit w k" by (simp only: bit_unsigned_iff)
    show "\<not> bit w m" if "k < m" for m
    proof -
      have "(2 :: nat) ^ Suc k \<le> 2 ^ m" using that by (intro power_increasing) simp_all
      then have "unat w div 2 ^ m = 0" using w(2) by simp
      then have "\<not> bit (unat w) m" by (simp add: bit_iff_odd)
      then show ?thesis using bit_imp_le_length [of w m] by (simp add: bit_unsigned_iff)
    qed
  qed
  let ?x1 = "w OR drop_bit 1 w"
  let ?x2 = "?x1 OR drop_bit 2 ?x1"
  let ?x3 = "?x2 OR drop_bit 4 ?x2"
  let ?x4 = "?x3 OR drop_bit 8 ?x3"
  let ?x5 = "?x4 OR drop_bit 16 ?x4"
  have 0: "bit w n \<longleftrightarrow> (\<exists>m. n \<le> m \<and> m < n + 1 \<and> bit w m)" for n by (auto simp: less_Suc_eq_le dest: antisym)
  note 1 = smear [OF 0, simplified mult_1_right]
  note 2 = smear [OF 1] note 3 = smear [OF 2, simplified] note 4 = smear [OF 3, simplified]
  note 5 = smear [OF 4, simplified]
  have "bit ?x5 n \<longleftrightarrow> n \<le> k" for n
  proof -
    have "bit ?x5 n \<longleftrightarrow> (\<exists>m. n \<le> m \<and> m < n + 32 \<and> bit w m)" using 5 by simp
    also have "\<dots> \<longleftrightarrow> n \<le> k" unfolding smear_all using top by (meson le_trans not_le)
    finally show ?thesis .
  qed
  then have "?x5 = mask (Suc k)"
    by (intro bit_word_eqI) (use k in \<open>simp add: bit_mask_iff less_Suc_eq_le\<close>)
  then have "kroundup32 x = mask (Suc k) + 1" by (simp only: kroundup32_def Let_def w_def)
  then show ?thesis by (simp add: mask_eq_exp_minus_1)
qed

section \<open>Resizing keeps the content\<close>

definition kh_live :: "('k, 'v) khash \<Rightarrow> nat set" where
  "kh_live h = {x. x < unat (n_buckets h) \<and> live_at h x}"

lemma kh_wf_content:
  assumes "kh_wf hash h"
  shows "inj_on (kh_keys h) (kh_live h)" "card (kh_live h) = unat (kh_size h)"
    "kh_find hash h key = Some v \<longleftrightarrow> (key, v) \<in> entries (kh_keys h) (kh_vals h) (kh_live h)"
proof -
  have "inj_on (kh_keys h) (kh_live h) \<and> card (kh_live h) = unat (kh_size h) \<and>
    (kh_find hash h key = Some v \<longleftrightarrow> (key, v) \<in> entries (kh_keys h) (kh_vals h) (kh_live h))"
  proof (cases "n_buckets h = 0")
    case True
    then have "kh_size h = 0" using assms pow2_unat by (auto simp: kh_wf_def kh_shape_def)
    with True show ?thesis by (simp add: kh_live_def kh_find_def kh_get_def entries_def)
  next
    case False
    then obtain k where shape: "kh_shape k hash h" using assms by (auto simp: kh_wf_def)
    then have "unat (n_buckets h) = 2 ^ k" using pow2_unat by (auto simp: kh_shape_def)
    then show ?thesis
      using shape kh_find_iff [OF shape, of key v] by (auto simp: kh_live_def kh_shape_def entries_def)
  qed
  then show "inj_on (kh_keys h) (kh_live h)" "card (kh_live h) = unat (kh_size h)"
    "kh_find hash h key = Some v \<longleftrightarrow> (key, v) \<in> entries (kh_keys h) (kh_vals h) (kh_live h)" by simp_all
qed

lemma option_eqI: "(\<And>v. a = Some v \<longleftrightarrow> b = Some v) \<Longrightarrow> a = b"
  by (metis option.exhaust)

lemma kh_resize_ok:
  assumes wf: "kh_wf hash h" and k: "2 \<le> k" "k < 32"
    and n: "(if kroundup32 want < 4 then 4 else kroundup32 want) = 2 ^ k" and size: "kh_size h < hash_upper (2 ^ k)"
  obtains h' where "kh_resize True hash h want = Some (True, h')" "kh_shape k hash h'"
    "kh_find hash h' = kh_find hash h" "n_occupied h' < upper_bound h'" "kh_size h' = kh_size h"
proof -
  note content = kh_wf_content [OF wf]
  define E where "E = entries (kh_keys h) (kh_vals h) (kh_live h)"
  have fin: "finite (kh_live h)" by (simp add: kh_live_def)
  have E: "finite E" "card E = unat (kh_size h)"
    using fin content(2) by (simp_all add: E_def entries_card [OF content(1)]) (simp add: entries_def)
  have small: "unat (kh_size h) < 2 ^ k"
    using size hash_upper_less(2) [OF k] by (simp add: word_less_nat_alt)
  let ?r = "\<lparr>old_flags = kh_flags h, new_flags = (\<lambda>_. 0xAAAAAAAA), re_keys = kh_keys h, re_vals = kh_vals h\<rparr>"
  have old: "old_live (n_buckets h) ?r = kh_live h" by (simp add: old_live_def kh_live_def live_at_def)
  have new: "new_full k ?r = {}" "\<not> ac_isdel (\<lambda>_. 0xAAAAAAAA) i" for i
    using ac_filled [of "\<lambda>_. 0xAAAAAAAA"] by (simp_all add: new_full_def)
  have start: "rehash_ok k (n_buckets h) hash E {} ?r"
    unfolding rehash_ok_def new old using content(1) new(2) by (simp add: E_def)
  have "\<forall>j \<in> set [0..<unat (n_buckets h)]. j < unat (n_buckets h)" by simp
  from rehash_loop_ok [OF E(1) _ k(2) start this] E(2) small obtain r where r:
    "rehash_loop hash (n_buckets h) (2 ^ k) (map of_nat [0..<unat (n_buckets h)]) ?r = Some r"
    "rehash_ok k (n_buckets h) hash E {} r" "old_live (n_buckets h) r \<subseteq> kh_live h - {0..<unat (n_buckets h)}"
    by (auto simp: old)
  then have none: "old_live (n_buckets h) r = {}" by (auto simp: kh_live_def)
  let ?h = "h\<lparr>kh_keys := re_keys r, kh_vals := re_vals r, kh_flags := new_flags r,
    n_buckets := 2 ^ k, n_occupied := kh_size h, upper_bound := hash_upper (2 ^ k)\<rparr>"
  have run: "kh_resize True hash h want = Some (True, ?h)"
    using size r(1) by (simp add: kh_resize_def Let_def n)
  have live: "live_at ?h x \<longleftrightarrow> \<not> empty_at ?h x" if "x < 2 ^ k" for x
    using r(2) that by (simp add: live_at_def empty_at_def ac_bits(3) rehash_ok_def)
  have full: "new_full k r = {x. x < 2 ^ k \<and> \<not> empty_at ?h x}" by (simp add: new_full_def empty_at_def)
  have livefull: "{x. x < 2 ^ k \<and> live_at ?h x} = new_full k r" unfolding full using live by blast
  have inj: "inj_on (re_keys r) (new_full k r)" "entries (re_keys r) (re_vals r) (new_full k r) = E"
    using r(2) by (simp_all add: rehash_ok_def none)
  then have card: "card (new_full k r) = unat (kh_size h)" using entries_card [OF inj(1)] E(2) by metis
  have find: "findable k hash (empty_at ?h) (re_keys r x) x" if "x < 2 ^ k" "live_at ?h x" for x
  proof -
    have "x \<in> new_full k r" using that livefull by blast
    with r(2) have "findable k hash (\<lambda>y. ac_isempty (new_flags r) (of_nat y)) (re_keys r x) x"
      by (simp add: rehash_ok_def)
    moreover have "empty_at ?h = (\<lambda>y. ac_isempty (new_flags r) (of_nat y))" by (simp add: empty_at_def fun_eq_iff)
    ultimately show ?thesis by simp
  qed
  have shape: "kh_shape k hash ?h"
    unfolding kh_shape_def livefull full [symmetric] using k size inj(1) card find by simp
  have "kh_find hash ?h key = Some v \<longleftrightarrow> kh_find hash h key = Some v" for key v
  proof -
    have "kh_find hash ?h key = Some v \<longleftrightarrow> (key, v) \<in> entries (re_keys r) (re_vals r) {x. x < 2 ^ k \<and> live_at ?h x}"
      unfolding kh_find_iff [OF shape] by (auto simp: entries_def)
    also have "\<dots> \<longleftrightarrow> (key, v) \<in> E" unfolding livefull inj(2) ..
    also have "\<dots> \<longleftrightarrow> kh_find hash h key = Some v" by (simp add: content(3) E_def)
    finally show ?thesis .
  qed
  then have "kh_find hash ?h key = kh_find hash h key" for key by (rule option_eqI)
  then have same: "kh_find hash ?h = kh_find hash h" by (rule ext)
  show thesis by (rule that [OF run shape same]) (simp_all add: size)
qed

section \<open>Insertion\<close>

lemma kroundup32_1: "kroundup32 1 = 1"
  by (simp add: kroundup32_def Let_def)

lemma pow2_ge: "2 \<le> k \<Longrightarrow> k < 32 \<Longrightarrow> \<not> (2 ^ k :: u32) < 4"
proof -
  assume k: "2 \<le> k" "k < 32"
  have "(2 :: nat) ^ 2 \<le> 2 ^ k" using k(1) by (intro power_increasing) simp_all
  then show ?thesis by (simp add: word_less_nat_alt pow2_unat [OF k(2)])
qed

text \<open>The sizes that \<open>kh_put\<close> asks for are never too small.\<close>

lemma kh_put_room_size:
  assumes wf: "kh_wf hash h" and size: "unat (kh_size h) < 2 ^ 30"
    and want: "want = (if push_bit 1 (kh_size h) < n_buckets h then n_buckets h - 1 else n_buckets h + 1)"
  shows "\<exists>k. 2 \<le> k \<and> k < 32 \<and> (if kroundup32 want < 4 then 4 else kroundup32 want) = 2 ^ k \<and>
    kh_size h < hash_upper (2 ^ k)"
proof (cases "n_buckets h = 0")
  case True
  then have "kh_size h = 0" using wf pow2_unat by (auto simp: kh_wf_def kh_shape_def)
  with True want show ?thesis
    by (intro exI [of _ 2]) (simp add: kroundup32_1 hash_upper_def)
next
  case False
  then obtain k where shape: "kh_shape k hash h" using wf by (auto simp: kh_wf_def)
  then have k: "2 \<le> k" "k < 32" and n: "n_buckets h = 2 ^ k" by (simp_all add: kh_shape_def)
  have four: "(2 :: nat) ^ 2 \<le> 2 ^ k" using k(1) by (intro power_increasing) simp_all
  have two: "unat (push_bit 1 (kh_size h)) = 2 * unat (kh_size h)"
    using unat_mult_no_wrap [of 2 "kh_size h"] size by (simp add: push_bit_eq_mult mult.commute)
  show ?thesis
  proof (cases "push_bit 1 (kh_size h) < n_buckets h")
    case True
    then have less: "2 * unat (kh_size h) < 2 ^ k" by (simp only: word_less_nat_alt two n pow2_unat [OF k(2)])
    have u: "unat (2 ^ k - 1 :: u32) = 2 ^ k - 1"
      using pow2_unat [OF k(2)] False n by (simp add: unat_minus_one)
    obtain j where j: "k = Suc j" using k(1) by (cases k) simp_all
    have "kroundup32 (2 ^ k - 1) = 2 ^ Suc j"
      by (rule kroundup32_pow2; (unfold u)?) (use k four in \<open>simp_all add: j\<close>)
    moreover have "kh_size h < hash_upper (2 ^ k)"
      using less by (simp add: word_less_nat_alt hash_upper_less [OF k] Suc_le_eq [symmetric] less_eq_div_iff_mult_less_eq)
    ultimately show ?thesis using True k pow2_ge [OF k] by (intro exI [of _ k]) (simp add: want n j)
  next
    case False
    then have ge: "2 ^ k \<le> 2 * unat (kh_size h)" by (simp only: word_less_nat_alt two n pow2_unat [OF k(2)] not_less)
    then have "(2 :: nat) ^ k < 2 ^ 31" using size by simp
    then have k31: "k < 31" by (rule power_less_imp_less_exp [rotated]) simp
    have u: "unat (2 ^ k + 1 :: u32) = 2 ^ k + 1"
      using unat_inc [of "2 ^ k" 31] pow2_unat [OF k(2)] \<open>(2 :: nat) ^ k < 2 ^ 31\<close> by simp
    have "kroundup32 (2 ^ k + 1) = 2 ^ Suc k"
      by (rule kroundup32_pow2; (unfold u)?) (use k in simp_all)
    moreover have "kh_size h < hash_upper (2 ^ Suc k)"
    proof -
      have k': "2 \<le> Suc k" "Suc k < 32" using k k31 by simp_all
      have "unat (kh_size h) < 2 ^ k" using kh_size_bound [OF shape] by simp
      then show ?thesis
        by (simp add: word_less_nat_alt hash_upper_less [OF k'] Suc_le_eq [symmetric] less_eq_div_iff_mult_less_eq
            del: power_Suc) simp
    qed
    ultimately show ?thesis
      using False k k31 pow2_ge [of "Suc k"] by (intro exI [of _ "Suc k"]) (simp add: want n del: power_Suc)
  qed
qed

lemma kh_put_room_ok:
  assumes wf: "kh_wf hash h" and size: "unat (kh_size h) < 2 ^ 30"
  obtains k h' where "kh_put_room True hash h = Some (True, h')" "kh_shape k hash h'"
    "kh_find hash h' = kh_find hash h" "n_occupied h' < upper_bound h'" "kh_size h' = kh_size h"
proof (cases "upper_bound h \<le> n_occupied h")
  case True
  let ?want = "if push_bit 1 (kh_size h) < n_buckets h then n_buckets h - 1 else n_buckets h + 1"
  from kh_put_room_size [OF wf size refl] obtain k where k: "2 \<le> k" "k < 32"
    "(if kroundup32 ?want < 4 then 4 else kroundup32 ?want) = 2 ^ k" "kh_size h < hash_upper (2 ^ k)" by blast
  from kh_resize_ok [OF wf k] obtain h' where "kh_resize True hash h ?want = Some (True, h')" "kh_shape k hash h'"
    "kh_find hash h' = kh_find hash h" "n_occupied h' < upper_bound h'" "kh_size h' = kh_size h" by blast
  with True that show thesis by (simp add: kh_put_room_def)
next
  case False
  then have "n_buckets h \<noteq> 0" using wf pow2_unat by (auto simp: kh_wf_def kh_shape_def)
  with wf False that show thesis by (auto simp: kh_wf_def kh_put_room_def)
qed

text \<open>
  Inserting into the table updates the map. As long as it holds fewer than \<open>2 ^ 30\<close> elements,
  \<open>kh_put\<close> ends, whether it has to grow, to clear deleted buckets or neither, \<open>*ret\<close> is 0 exactly for a
  key that is present, and with the value written to the bucket it returns, lookups find what they found
  before and the new value for the key: no element is lost in a rehash.
\<close>

lemma kh_put_map:
  assumes "kh_wf hash h" and "unat (kh_size h) < 2 ^ 30"
  shows "\<exists>x ret h'. kh_put True hash h key = Some (x, ret, h') \<and> kh_wf hash (kh_set_value x v h') \<and>
    ret \<in> {0, 1, 2} \<and> (ret = 0 \<longleftrightarrow> kh_find hash h key \<noteq> None) \<and>
    kh_find hash (kh_set_value x v h') = (kh_find hash h)(key \<mapsto> v)"
proof -
  from kh_put_room_ok [OF assms] obtain k h1 where h1: "kh_put_room True hash h = Some (True, h1)"
    "kh_shape k hash h1" "kh_find hash h1 = kh_find hash h" "n_occupied h1 < upper_bound h1" by blast
  from kh_put_in_shape [OF h1(2,4), of key] obtain x ret h' where
    put: "map_option (kh_put_at h1 key) (kh_put_site hash h1 key) = Some (of_nat x, ret, h')" and
    shape: "x < 2 ^ k" "kh_shape k hash h'" and ret: "ret = 0 \<longleftrightarrow> kh_find hash h1 key \<noteq> None" "ret \<in> {0, 1, 2}" and
    find: "\<And>v. kh_find hash (kh_set_value (of_nat x) v h') = (kh_find hash h1)(key \<mapsto> v)" by blast
  have run: "kh_put True hash h key = Some (of_nat x, ret, h')" by (simp only: kh_put_def h1(1) option.case prod.case bool.case put)
  have wf: "kh_wf hash (kh_set_value (of_nat x) v h')"
    unfolding kh_wf_def kh_set_value_def kh_shape_vals using shape(2) by blast
  show ?thesis
    by (intro exI conjI) (rule run wf ret(2) ret(1) [unfolded h1(3)] find [unfolded h1(3)])+
qed

lemma kh_init_wf: "kh_wf hash kh_init" "kh_find hash kh_init = Map.empty" "kh_size kh_init = 0"
  by (simp_all add: kh_wf_def kh_init_def kh_find_def kh_get_def fun_eq_iff)

text \<open>
  Note (a failed allocation leaves the table alone). When the table is at its bound and an allocation of the
  resize fails, \<open>kh_put\<close> sets \<open>*ret\<close> to -1, returns \<open>kh_end\<close> and every lookup is as before.
\<close>

theorem kh_put_fails_cleanly:
  assumes "kh_wf hash h" and "unat (kh_size h) < 2 ^ 30" and "upper_bound h \<le> n_occupied h"
  shows "kh_put False hash h key = Some (n_buckets h, - 1, h)"
proof -
  define want where "want = (if push_bit 1 (kh_size h) < n_buckets h then n_buckets h - 1 else n_buckets h + 1)"
  from kh_put_room_size [OF assms(1,2) want_def] obtain k where
    "(if kroundup32 want < 4 then 4 else kroundup32 want) = 2 ^ k" "kh_size h < hash_upper (2 ^ k)" by blast
  then have "kh_resize False hash h want = Some (False, h)" by (simp only: kh_resize_def Let_def not_le [symmetric]) simp
  then show ?thesis using assms(3) by (simp only: kh_put_def kh_put_room_def want_def if_True option.case prod.case bool.case)
qed

theorem kh_put_fails_cleanly_witness:
  "kh_put False (\<lambda>k. k) (kh_init :: (u32, nat) khash) 5 = Some (n_buckets (kh_init :: (u32, nat) khash), - 1, kh_init)"
  by (rule kh_put_fails_cleanly) (simp_all add: kh_init_wf, simp add: kh_init_def)

section \<open>Clearing and deleting\<close>

lemma kh_clear_flags:
  assumes "n_buckets h = 2 ^ k" "k < 32" "x < 2 ^ k"
  shows "empty_at (kh_clear h) x \<and> \<not> live_at (kh_clear h) x"
proof -
  have "\<not> n_buckets h = 0"
  proof
    assume "n_buckets h = 0"
    with pow2_unat [OF assms(2)] assms(1) have "(2 :: nat) ^ k = 0" by (simp only: unat_0)
    then show False by simp
  qed
  moreover have "unat (of_nat x :: u32) div 16 < ac_fsize (n_buckets h)"
  proof (cases "n_buckets h < 16")
    case True
    then have "x < 16" using assms by (simp add: word_less_nat_alt pow2_unat)
    with True show ?thesis using unat_small [OF assms(2,3)] by (simp add: ac_fsize_def)
  next
    case False
    then have "16 \<le> (2 :: nat) ^ k" using assms by (simp add: word_less_nat_alt pow2_unat)
    then have "\<not> k < 4" using power_strict_increasing [of k 4 "2 :: nat"] by auto
    then have "(2 :: nat) ^ k = 2 ^ (k - 4) * 2 ^ 4" unfolding power_add [symmetric] by simp
    then have "(2 :: nat) ^ k = 2 ^ (k - 4) * 16" by simp
    then have "x div 16 < 2 ^ k div 16" using assms(3) by (simp add: less_mult_imp_div_less)
    with False show ?thesis
      using unat_small [OF assms(2,3)] assms(1,2) by (simp add: ac_fsize_def drop_bit_eq_div unat_div pow2_unat)
  qed
  ultimately have "kh_flags (kh_clear h) (unat (of_nat x :: u32) div 16) = 0xAAAAAAAA"
    by (simp add: kh_clear_def)
  from ac_filled [of "kh_flags (kh_clear h)" "of_nat x", OF this] show ?thesis by (simp add: empty_at_def live_at_def ac_bits(3))
qed

text \<open>Clearing empties the map. After \<open>kh_clear\<close> the table is well formed and every lookup fails.\<close>

lemma kh_clear_map:
  assumes "kh_wf hash h"
  shows "kh_wf hash (kh_clear h) \<and> kh_find hash (kh_clear h) = Map.empty \<and> kh_size (kh_clear h) = 0"
proof (cases "n_buckets h = 0")
  case True
  then show ?thesis using assms pow2_unat
    by (auto simp: kh_clear_def kh_wf_def kh_shape_def kh_find_def kh_get_def fun_eq_iff)
next
  case False
  then obtain k where shape: "kh_shape k hash h" using assms by (auto simp: kh_wf_def)
  then have k: "2 \<le> k" "k < 32" and n: "n_buckets h = 2 ^ k" by (simp_all add: kh_shape_def)
  note flags = kh_clear_flags [OF n k(2)]
  have same: "n_buckets (kh_clear h) = 2 ^ k" "upper_bound (kh_clear h) = hash_upper (2 ^ k)"
    "n_occupied (kh_clear h) = 0" "kh_size (kh_clear h) = 0"
    using shape False by (simp_all add: kh_clear_def kh_shape_def)
  have none: "{x. x < 2 ^ k \<and> \<not> empty_at (kh_clear h) x} = {}" "{x. x < 2 ^ k \<and> live_at (kh_clear h) x} = {}"
    using flags by blast+
  have shape': "kh_shape k hash (kh_clear h)"
    unfolding kh_shape_def same none using k flags by simp
  have "kh_find hash (kh_clear h) key = None" for key
    using kh_find_iff [OF shape', of key] flags by (metis option.exhaust)
  then show ?thesis using shape' same by (auto simp: kh_wf_def)
qed

text \<open>A lookup ends in every table.\<close>

lemma kh_get_ends:
  assumes "kh_wf hash h"
  shows "\<exists>x. kh_get hash h key = Some x"
proof (cases "n_buckets h = 0")
  case False
  then obtain k where "kh_shape k hash h" using assms by (auto simp: kh_wf_def)
  then show ?thesis using kh_get_present kh_get_absent by metis
qed (simp add: kh_get_def)

text \<open>
  C17 (deleting removes one key). \<open>kh_del\<close> of the bucket that \<open>kh_get\<close> returns for a key that is present
  removes this key from the map and no other, and the table stays well formed: the bucket is marked as
  deleted, not as empty, so the probes that pass it still reach what lies behind it.
\<close>

theorem kh_del_removes_key:
  assumes wf: "kh_wf hash h" and get: "kh_get hash h key = Some x" "x \<noteq> n_buckets h"
  shows "kh_wf hash (kh_del h x) \<and> kh_find hash (kh_del h x) = (kh_find hash h)(key := None)"
proof -
  have "n_buckets h \<noteq> 0" using get by (auto simp: kh_get_def)
  with wf obtain k where shape: "kh_shape k hash h" by (auto simp: kh_wf_def)
  then have k: "k < 32" and n: "n_buckets h = 2 ^ k" by (simp_all add: kh_shape_def)
  have "kh_find hash h key \<noteq> None" using get by (simp add: kh_find_def)
  then obtain y where y: "y < 2 ^ k" "live_at h y" "kh_keys h y = key"
    using kh_find_iff [OF shape, of key] by blast
  then have x: "x = of_nat y" using kh_get_present [OF shape y] get(1) by simp
  let ?h = "kh_del h x"
  have del: "?h = h\<lparr>kh_flags := ac_set_isdel_true x (kh_flags h), kh_size := kh_size h - 1\<rparr>"
    using y(2) get(2) by (simp add: kh_del_def live_at_def x)
  have flags: "kh_flags ?h = ac_set_isdel_true x (kh_flags h)" by (simp add: del)
  have empty: "empty_at ?h = empty_at h" by (simp add: del empty_at_def fun_eq_iff)
  have live: "live_at ?h z \<longleftrightarrow> z \<noteq> y \<and> live_at h z" if "z < 2 ^ k" for z
    using of_nat_eq [OF k y(1) that] unfolding live_at_def flags ac_bits(3) ac_set by (auto simp: x)
  have set: "{z. z < 2 ^ k \<and> live_at ?h z} = {z. z < 2 ^ k \<and> live_at h z} - {y}" using live by blast
  have "kh_size h \<noteq> 0"
  proof
    assume "kh_size h = 0"
    then have "{z. z < 2 ^ k \<and> live_at h z} = {}" using shape by (simp add: kh_shape_def)
    with y show False by blast
  qed
  then have size: "unat (kh_size h - 1) = card {z. z < 2 ^ k \<and> live_at ?h z}"
    unfolding set using shape y by (simp add: unat_minus_one kh_shape_def)
  have shape': "kh_shape k hash ?h"
    using shape size live unfolding kh_shape_def empty
    by (auto simp: del inj_on_def)
  have "kh_find hash ?h key' = Some v \<longleftrightarrow> ((kh_find hash h)(key := None)) key' = Some v" for key' v
  proof (cases "key' = key")
    case True
    have "z = y" if "z < 2 ^ k" "live_at h z" "kh_keys h z = key" for z
      by (rule inj_onD [of "kh_keys h" "{x. x < 2 ^ k \<and> live_at h x}"])
        (use shape y that in \<open>auto simp: kh_shape_def\<close>)
    with True live show ?thesis unfolding kh_find_iff [OF shape'] by (auto simp: del)
  next
    case False
    have keys: "kh_keys ?h = kh_keys h" "kh_vals ?h = kh_vals h" by (simp_all add: del)
    have "kh_find hash ?h key' = Some v \<longleftrightarrow> kh_find hash h key' = Some v"
      unfolding kh_find_iff [OF shape'] kh_find_iff [OF shape] keys
      by (rule iff_exI) (use False live y(3) in blast)
    with False show ?thesis by simp
  qed
  then have "kh_find hash ?h key' = ((kh_find hash h)(key := None)) key'" for key' by (rule option_eqI)
  then show ?thesis using shape' by (auto simp: kh_wf_def)
qed

section \<open>The interface of a map\<close>

text \<open>\<open>kh_put\<close> and \<open>kh_value(h, x) = v\<close>, as every caller combines them when there is memory.\<close>

definition kh_insert :: "('k \<Rightarrow> u32) \<Rightarrow> ('k, 'v) khash \<Rightarrow> 'k \<Rightarrow> 'v \<Rightarrow> ('k, 'v) khash option" where
  "kh_insert hash h key v =
     (case kh_put True hash h key of None \<Rightarrow> None | Some (x, _, h') \<Rightarrow> Some (kh_set_value x v h'))"

text \<open>
  What the indexer and the watch thread use of a table: \<open>empty\<close> tables find nothing, an insertion
  updates the map while it has fewer than \<open>room\<close> keys, and so does the removal of all keys.
\<close>

locale map_table =
  fixes find :: "'t \<Rightarrow> 'k \<Rightarrow> 'v option" and insert :: "'t \<Rightarrow> 'k \<Rightarrow> 'v \<Rightarrow> 't option"
    and clear :: "'t \<Rightarrow> 't" and ok :: "'t \<Rightarrow> bool" and room :: nat
  assumes clear_ok: "ok t \<Longrightarrow> ok (clear t)"
    and find_clear: "ok t \<Longrightarrow> find (clear t) = Map.empty"
    and finite_find: "ok t \<Longrightarrow> finite (dom (find t))"
    and insert_ok: "ok t \<Longrightarrow> card (dom (find t)) < room \<Longrightarrow>
      \<exists>t'. insert t key v = Some t' \<and> ok t' \<and> find t' = (find t)(key \<mapsto> v)"
begin

lemma insert_all_find:
  "ok t \<Longrightarrow> card (dom (find t)) + length kvs \<le> room \<Longrightarrow>
    \<exists>t'. fold (\<lambda>(key, v) t. Option.bind t (\<lambda>t. insert t key v)) kvs (Some t) = Some t' \<and> ok t' \<and>
      find t' = find t ++ map_of (rev kvs)"
proof (induction kvs arbitrary: t)
  case (Cons kv kvs)
  obtain key v where kv: "kv = (key, v)" by fastforce
  from insert_ok [OF Cons.prems(1), of key v] Cons.prems(2) obtain t1 where
    t1: "insert t key v = Some t1" "ok t1" "find t1 = (find t)(key \<mapsto> v)" by auto
  have "card (dom (find t1)) \<le> Suc (card (dom (find t)))"
    by (simp add: t1(3) finite_find [OF Cons.prems(1)] card_insert_if)
  with Cons.prems(2) have "card (dom (find t1)) + length kvs \<le> room" by simp
  from Cons.IH [OF t1(2) this] obtain t2 where
    t2: "fold (\<lambda>(key, v) t. Option.bind t (\<lambda>t. insert t key v)) kvs (Some t1) = Some t2" "ok t2"
      "find t2 = find t1 ++ map_of (rev kvs)" by blast
  then have "find t2 = find t ++ map_of (rev (kv # kvs))" by (simp add: kv t1(3) map_of_append)
  with t1(1) t2 show ?case by (simp add: kv)
qed simp

text \<open>A second fill after a reset leaves nothing of the first.\<close>

lemma refill_find:
  assumes "ok t" and "length kvs \<le> room"
  shows "\<exists>t'. fold (\<lambda>(key, v) t. Option.bind t (\<lambda>t. insert t key v)) kvs (Some (clear t)) = Some t' \<and>
    ok t' \<and> find t' = map_of (rev kvs)"
  using insert_all_find [OF clear_ok [OF assms(1)], of kvs] assms by (simp add: find_clear)

end

lemma kh_find_card:
  assumes "kh_wf hash h"
  shows "finite (dom (kh_find hash h))" "card (dom (kh_find hash h)) = unat (kh_size h)"
proof -
  note content = kh_wf_content [OF assms]
  have "dom (kh_find hash h) = kh_keys h ` kh_live h"
    using content(3) by (auto simp: dom_def entries_def image_iff)
  moreover have "finite (kh_live h)" by (simp add: kh_live_def)
  ultimately show "finite (dom (kh_find hash h))" "card (dom (kh_find hash h)) = unat (kh_size h)"
    using card_image [OF content(1)] content(2) by simp_all
qed

interpretation kh: map_table "kh_find hash" "kh_insert hash" kh_clear "kh_wf hash" "2 ^ 30"
  for hash :: "'k \<Rightarrow> u32"
proof unfold_locales
  fix t :: "('k, 'v) khash" and key :: 'k and v :: 'v
  assume ok: "kh_wf hash t"
  show "kh_wf hash (kh_clear t)" "kh_find hash (kh_clear t) = Map.empty" using kh_clear_map [OF ok] by simp_all
  show "finite (dom (kh_find hash t))" by (rule kh_find_card(1) [OF ok])
  assume "card (dom (kh_find hash t)) < 2 ^ 30"
  then have "unat (kh_size t) < 2 ^ 30" by (simp add: kh_find_card(2) [OF ok])
  from kh_put_map [OF ok this, of key v] show
    "\<exists>t'. kh_insert hash t key v = Some t' \<and> kh_wf hash t' \<and> kh_find hash t' = (kh_find hash t)(key \<mapsto> v)"
    by (auto simp: kh_insert_def)
qed

text \<open>
  C5 (the table is a map). A table that is cleared and filled with up to \<open>2 ^ 30\<close> insertions, across
  any number of rehashes, ends well formed, and a lookup finds for every key the value that was inserted
  last, and nothing for the others; \<open>kh_get\<close> ends for every key.
\<close>

theorem kh_table_is_a_map:
  assumes "kh_wf hash h" and "length kvs \<le> 2 ^ 30"
  shows "\<exists>h'. fold (\<lambda>(key, v) h. Option.bind h (\<lambda>h. kh_insert hash h key v)) kvs (Some (kh_clear h)) = Some h' \<and>
    kh_wf hash h' \<and> kh_find hash h' = map_of (rev kvs) \<and>
    (\<forall>key. \<exists>x. kh_get hash h' key = Some x \<and> (x = n_buckets h' \<longleftrightarrow> map_of (rev kvs) key = None))"
proof -
  from kh.refill_find [OF assms] obtain h' where h': "kh_wf hash h'" "kh_find hash h' = map_of (rev kvs)"
    "fold (\<lambda>(key, v) h. Option.bind h (\<lambda>h. kh_insert hash h key v)) kvs (Some (kh_clear h)) = Some h'" by blast
  have "\<exists>x. kh_get hash h' key = Some x \<and> (x = n_buckets h' \<longleftrightarrow> kh_find hash h' key = None)" for key
    using kh_get_ends [OF h'(1), of key] by (auto simp: kh_find_def)
  with h' show ?thesis by auto
qed

theorem kh_table_is_a_map_witness:
  "\<exists>h'. fold (\<lambda>(key, v) h. Option.bind h (\<lambda>h. kh_insert (\<lambda>k. k) h key v)) [(5, 7), (9, 1), (5 :: u32, 8)]
       (Some (kh_clear (kh_init :: (u32, nat) khash))) = Some h' \<and>
     kh_wf (\<lambda>k. k) h' \<and> kh_find (\<lambda>k. k) h' = [9 \<mapsto> 1, 5 \<mapsto> 8] \<and> kh_find (\<lambda>k. k) h' 5 = Some 8"
proof -
  have "length [(5, 7), (9, 1), (5 :: u32, 8 :: nat)] \<le> 2 ^ 30" by simp
  from kh_table_is_a_map [OF kh_init_wf(1) this, of "\<lambda>k. k"] obtain h' :: "(u32, nat) khash" where
    "fold (\<lambda>(key, v) h. Option.bind h (\<lambda>h. kh_insert (\<lambda>k. k) h key v)) [(5, 7), (9, 1), (5, 8)]
       (Some (kh_clear kh_init)) = Some h'"
    "kh_wf (\<lambda>k. k) h'" "kh_find (\<lambda>k. k) h' = map_of (rev [(5, 7), (9, 1), (5, 8)])" by blast
  then show ?thesis by (auto simp: fun_eq_iff)
qed

theorem kh_del_removes_key_witness:
  "\<exists>h x. kh_get (\<lambda>k. k) (h :: (u32, nat) khash) 5 = Some x \<and> kh_find (\<lambda>k. k) h 5 = Some 7 \<and>
     kh_wf (\<lambda>k. k) (kh_del h x) \<and> kh_find (\<lambda>k. k) (kh_del h x) = Map.empty"
proof -
  have "kh_wf (\<lambda>k. k) (kh_init :: (u32, nat) khash)" "unat (kh_size (kh_init :: (u32, nat) khash)) < 2 ^ 30"
    by (simp_all add: kh_init_wf)
  from kh_put_map [OF this, of 5 7] obtain h :: "(u32, nat) khash" where
    h: "kh_wf (\<lambda>k. k) h" "kh_find (\<lambda>k. k) h = [5 \<mapsto> 7]" by (auto simp: kh_init_wf)
  then have "kh_find (\<lambda>k. k) h 5 = Some 7" by simp
  then obtain x where x: "kh_get (\<lambda>k. k) h 5 = Some x" "x \<noteq> n_buckets h"
    unfolding kh_find_def by (cases "kh_get (\<lambda>k. k) h 5") (simp_all split: if_splits)
  from kh_del_removes_key [OF h(1) x] h x show ?thesis
    by (intro exI [of _ h] exI [of _ x]) simp
qed

end
