(* ===== verification/Xal_Pool.thy ===== *)
theory Xal_Pool
  imports Xal_Prelude
begin

text \<open>
  Pools of fixed-size elements (src/xal_pool.c). The memory of a pool is a map from element
  positions to elements; an element of zero bytes is \<^term>\<open>0\<close>. The calls into the kernel are
  the fields of a record: each returns 0 or the errno it leaves. Sizes and positions are
  64-bit words, as \<open>size_t\<close> is on the targets of the library; the position handed to a
  client is a 32-bit word.

  First the operations, then the invariant \<open>pool_wf\<close>, what every operation does on every
  branch, and the interface \<open>bump_arena\<close> that the clients of a pool rely on.
\<close>

section \<open>State and kernel calls\<close>

record 'e xal_pool =
  reserved :: u64
  allocated :: u64
  growby :: u64
  free :: u64
  element_size :: u64
  memory :: "nat \<Rightarrow> 'e"

record pool_os =
  os_mprotect :: "u64 \<Rightarrow> int"
  os_munmap :: "u64 \<Rightarrow> int"
  os_mmap :: "u64 \<Rightarrow> int"
  os_shm_open :: "cstr \<Rightarrow> int"
  os_ftruncate :: "u64 \<Rightarrow> int"

section \<open>Operations\<close>

definition xal_pool_unmap :: "pool_os \<Rightarrow> 'e xal_pool \<Rightarrow> fail + unit" where
  "xal_pool_unmap os pool =
     (if os_munmap os (reserved pool * element_size pool) \<noteq> 0 then Inl (Err (- 1)) else Inr ())"

text \<open>\<open>memset(&cursor[first * element_size], 0, n * element_size)\<close>, in elements.\<close>

definition zero_elements :: "nat \<Rightarrow> nat \<Rightarrow> (nat \<Rightarrow> 'e::zero) \<Rightarrow> nat \<Rightarrow> 'e" where
  "zero_elements first n m = (\<lambda>i. if first \<le> i \<and> i < first + n then 0 else m i)"

definition xal_pool_grow ::
  "pool_os \<Rightarrow> 'e::zero xal_pool \<Rightarrow> u64 \<Rightarrow> (unit, 'e xal_pool) outcome" where
  "xal_pool_grow os pool gb =
     (let growby_nbytes = gb * element_size pool;
          allocated_nbytes = growby_nbytes + allocated pool * element_size pool;
          errno = os_mprotect os allocated_nbytes
      in if errno \<noteq> 0 then (Inl (Err (- errno)), pool)
         else (Inr (),
               pool\<lparr>memory := zero_elements (unat (free pool)) (unat gb) (memory pool),
                    allocated := allocated pool + gb\<rparr>))"

text \<open>
  When \<open>mmap\<close> fails, the C field \<open>memory\<close> holds \<open>MAP_FAILED\<close>; no function reads through it
  then, and the model leaves its \<open>memory\<close> as it was.
\<close>

definition xal_pool_map ::
  "pool_os \<Rightarrow> 'e::zero xal_pool \<Rightarrow> u64 \<Rightarrow> u64 \<Rightarrow> u64 \<Rightarrow> cstr option
     \<Rightarrow> (unit, 'e xal_pool) outcome" where
  "xal_pool_map os pool res alloc esize shm_name =
     (if reserved pool \<noteq> 0 then (Inl (Err (- EINVAL)), pool)
      else
        let nbytes = res * esize;
            pool = pool\<lparr>reserved := res, element_size := esize, free := 0\<rparr>
        in case shm_name of
             Some name \<Rightarrow>
               if os_shm_open os name \<noteq> 0 then (Inl (Err (- os_shm_open os name)), pool)
               else if os_ftruncate os nbytes \<noteq> 0
                 then (Inl (Err (- os_ftruncate os nbytes)), pool)
               else if os_mmap os nbytes \<noteq> 0 then (Inl (Err (- os_mmap os nbytes)), pool)
               else (Inr (), pool\<lparr>memory := (\<lambda>_. 0), allocated := res, growby := res\<rparr>)
           | None \<Rightarrow>
               if res < alloc then (Inl (Err (- EINVAL)), pool)
               else
                 let pool = pool\<lparr>allocated := 0, growby := alloc\<rparr>
                 in if os_mmap os nbytes \<noteq> 0 then (Inl (Err (- os_mmap os nbytes)), pool)
                    else xal_pool_grow os (pool\<lparr>memory := (\<lambda>_. 0)\<rparr>) alloc)"

definition xal_pool_claim_inodes ::
  "pool_os \<Rightarrow> 'e::zero xal_pool \<Rightarrow> u64 \<Rightarrow> (u32, 'e xal_pool) outcome" where
  "xal_pool_claim_inodes os pool n =
     (if growby pool < n then (Inl (Err (- EINVAL)), pool)
      else
        and_then
          (if allocated pool \<le> free pool + n then xal_pool_grow os pool (growby pool)
           else (Inr (), pool))
          (\<lambda>_ pool.
             if UINT32_MAX < free pool + n then (Inl (Err (- EOVERFLOW)), pool)
             else (Inr (ucast (free pool)), pool\<lparr>free := free pool + n\<rparr>)))"

definition xal_pool_claim_extents ::
  "pool_os \<Rightarrow> 'e::zero xal_pool \<Rightarrow> u64 \<Rightarrow> (u32, 'e xal_pool) outcome" where
  "xal_pool_claim_extents os pool n =
     (if growby pool < n then (Inl (Err (- EINVAL)), pool)
      else
        and_then
          (if allocated pool \<le> free pool + n then xal_pool_grow os pool (growby pool)
           else (Inr (), pool))
          (\<lambda>_ pool. (Inr (ucast (free pool)), pool\<lparr>free := free pool + n\<rparr>)))"

definition xal_pool_clear ::
  "pool_os \<Rightarrow> 'e::zero xal_pool \<Rightarrow> (unit, 'e xal_pool) outcome" where
  "xal_pool_clear os pool =
     (let errno = os_mprotect os (reserved pool * element_size pool)
      in if errno \<noteq> 0 then (Inl (Err (- errno)), pool)
         else (Inr (),
               pool\<lparr>memory := zero_elements 0 (unat (reserved pool)) (memory pool),
                    free := 0, allocated := 0\<rparr>))"

section \<open>Invariant\<close>

text \<open>
  The kernel maps and protects whole pages, so the region ends at a page boundary and may have
  room for a few elements more than were reserved. \<open>mprotect_bounded\<close> is what the manual page
  of \<open>mprotect\<close> documents (ENOMEM for pages that are not mapped), for a region with no mapping
  right behind it.
\<close>

definition pool_bytes :: "'e xal_pool \<Rightarrow> nat" where
  "pool_bytes pool = (unat (reserved pool) * unat (element_size pool) + 4095) div 4096 * 4096"

definition pool_room :: "'e xal_pool \<Rightarrow> nat" where
  "pool_room pool = pool_bytes pool div unat (element_size pool)"

definition mprotect_bounded :: "pool_os \<Rightarrow> 'e xal_pool \<Rightarrow> bool" where
  "mprotect_bounded os pool \<longleftrightarrow> (\<forall>n. os_mprotect os n = 0 \<longrightarrow> unat n \<le> pool_bytes pool)"

text \<open>
  The invariant of a mapped pool: the counters are ordered, reserved elements that were never
  claimed are zero, and the sizes of the region cannot wrap.
\<close>

definition pool_wf :: "'e::zero xal_pool \<Rightarrow> bool" where
  "pool_wf pool \<longleftrightarrow>
     0 < unat (element_size pool) \<and> unat (element_size pool) < 2 ^ 16 \<and>
     unat (reserved pool) < 2 ^ 32 - 2 ^ 12 \<and>
     unat (growby pool) \<le> unat (reserved pool) \<and>
     unat (free pool) \<le> unat (allocated pool) \<and>
     unat (allocated pool) \<le> pool_room pool \<and>
     (\<forall>i. unat (free pool) \<le> i \<and> i < unat (reserved pool) \<longrightarrow> memory pool i = 0)"

lemma room_bounds:
  assumes "0 < unat (element_size pool)"
  shows "unat (reserved pool) \<le> pool_room pool" and "pool_room pool < unat (reserved pool) + 4096"
proof -
  let ?e = "unat (element_size pool)" and ?r = "unat (reserved pool)"
  have b: "?r * ?e \<le> pool_bytes pool" "pool_bytes pool < ?r * ?e + 4096"
  proof -
    have r: "(q + 4095) div 4096 * 4096 + (q + 4095) mod 4096 = q + 4095" for q :: nat
      by (rule div_mult_mod_eq)
    have m: "(q + 4095) mod 4096 < (4096 :: nat)" for q
      by simp
    have "q \<le> (q + 4095) div 4096 * 4096" "(q + 4095) div 4096 * 4096 < q + 4096" for q :: nat
      using r [of q] m [of q] by linarith+
    then show "?r * ?e \<le> pool_bytes pool" "pool_bytes pool < ?r * ?e + 4096"
      by (simp_all only: pool_bytes_def)
  qed
  then show "?r \<le> pool_room pool"
    using assms by (simp add: pool_room_def less_eq_div_iff_mult_less_eq)
  have "pool_room pool * ?e \<le> pool_bytes pool" by (simp add: pool_room_def)
  then have "pool_room pool * ?e < ?r * ?e + 4096 * ?e"
    using b(2) assms by (intro le_less_trans [OF _ less_le_trans [OF b(2)]]) auto
  then show "pool_room pool < ?r + 4096"
    by (metis add_mult_distrib mult_less_cancel2)
qed

lemma pool_wf_room: "pool_wf pool \<Longrightarrow> pool_room pool < 2 ^ 32"
  using room_bounds(2) [of pool] by (auto simp: pool_wf_def)

lemma pool_wf_reserved: "pool_wf pool \<Longrightarrow> unat (reserved pool) \<le> pool_room pool"
  using room_bounds(1) [of pool] by (auto simp: pool_wf_def)

named_theorems pool_defs

lemmas [pool_defs] =
  xal_pool_grow_def xal_pool_claim_inodes_def xal_pool_claim_extents_def xal_pool_clear_def
  Let_def

text \<open>The byte counts of a well-formed pool do not wrap.\<close>

lemma pool_bytes_no_wrap:
  assumes wf: "pool_wf pool" and "unat n \<le> pool_room pool" and "unat m \<le> pool_room pool"
  shows "unat (n * element_size pool + m * element_size pool)
           = (unat n + unat m) * unat (element_size pool)"
proof -
  let ?e = "unat (element_size pool)"
  have e: "?e < 2 ^ 16" using wf by (auto simp: pool_wf_def)
  have bound: "k * ?e < 2 ^ 48" if "k \<le> pool_room pool" for k
  proof -
    have "k < 2 ^ 32" using that pool_wf_room [OF wf] by simp
    then have "k * ?e < 2 ^ 32 * 2 ^ 16"
      using e by (intro mult_strict_mono) auto
    then show ?thesis by simp
  qed
  have n: "unat (n * element_size pool) = unat n * ?e"
    using bound [OF assms(2)] by (intro unat_mult_no_wrap) simp
  have m: "unat (m * element_size pool) = unat m * ?e"
    using bound [OF assms(3)] by (intro unat_mult_no_wrap) simp
  show ?thesis
    using bound [OF assms(2)] bound [OF assms(3)]
    by (subst unat_add_no_wrap) (simp_all add: n m add_mult_distrib)
qed

lemma pool_add_no_wrap:
  fixes a b :: u64
  assumes "pool_wf pool" and "unat a \<le> pool_room pool" and "unat b \<le> pool_room pool"
  shows "unat (a + b) = unat a + unat b"
  using assms(2,3) pool_wf_room [OF assms(1)] by (intro unat_add_no_wrap) simp

section \<open>Growing\<close>

lemma grow_error: "xal_pool_grow os pool gb = (Inl e, pool') \<Longrightarrow> pool' = pool"
  by (auto simp: pool_defs split: if_splits)

lemma grow_free:
  "xal_pool_grow os pool gb = (r, pool') \<Longrightarrow> free pool' = free pool"
  by (auto simp: pool_defs split: if_splits)

lemma grow_ok:
  assumes wf: "pool_wf pool" and os: "mprotect_bounded os pool"
    and gb: "unat gb \<le> pool_room pool"
    and run: "xal_pool_grow os pool gb = (Inr u, pool')"
  shows "pool_wf pool' \<and> mprotect_bounded os pool' \<and>
         unat (allocated pool') = unat (allocated pool) + unat gb \<and>
         growby pool' = growby pool \<and> reserved pool' = reserved pool \<and>
         (\<forall>i < unat (free pool). memory pool' i = memory pool i)"
proof -
  from run have mp: "os_mprotect os (gb * element_size pool + allocated pool * element_size pool) = 0"
    and pool': "pool' = pool\<lparr>memory := zero_elements (unat (free pool)) (unat gb) (memory pool),
                              allocated := allocated pool + gb\<rparr>"
    by (auto simp: pool_defs split: if_splits)
  have all: "unat (allocated pool) \<le> pool_room pool" and e: "0 < unat (element_size pool)"
    using wf by (auto simp: pool_wf_def)
  have "(unat gb + unat (allocated pool)) * unat (element_size pool) \<le> pool_bytes pool"
    using os mp pool_bytes_no_wrap [OF wf gb all] by (auto simp: mprotect_bounded_def)
  then have le: "unat gb + unat (allocated pool) \<le> pool_room pool"
    using e by (simp add: pool_room_def less_eq_div_iff_mult_less_eq)
  have add: "unat (allocated pool + gb) = unat (allocated pool) + unat gb"
    by (rule pool_add_no_wrap [OF wf all gb])
  show ?thesis
    using wf os le add
    by (auto simp: pool' pool_wf_def mprotect_bounded_def zero_elements_def pool_room_def pool_bytes_def)
qed

section \<open>Claiming\<close>

text \<open>The two claim functions are one operation but for the range check of the first.\<close>

lemma claim_inodes_eq_extents:
  assumes "xal_pool_claim_inodes os pool n = (Inr i, pool')"
  shows "xal_pool_claim_extents os pool n = (Inr i, pool')"
  using assms
  by (auto simp: pool_defs and_then_def split: if_splits prod.splits sum.splits)

lemma claim_same_size:
  "xal_pool_claim_extents os pool n = (r, pool') \<Longrightarrow>
   element_size pool' = element_size pool \<and> reserved pool' = reserved pool"
  by (auto simp: pool_defs and_then_def split: if_splits prod.splits sum.splits)

lemma claim_extents_ok:
  assumes wf: "pool_wf pool" and os: "mprotect_bounded os pool"
    and run: "xal_pool_claim_extents os pool n = (Inr i, pool')"
  shows "unat i = unat (free pool) \<and> unat (free pool') = unat (free pool) + unat n \<and>
         pool_wf pool' \<and> mprotect_bounded os pool' \<and>
         reserved pool' = reserved pool \<and> growby pool' = growby pool \<and>
         (\<forall>j < unat (free pool). memory pool' j = memory pool j)"
proof -
  from run have n: "\<not> growby pool < n" by (auto simp: pool_defs split: if_splits)
  then have ngb: "unat n \<le> unat (growby pool)"
    by (meson not_less word_le_nat_alt)
  have gr: "unat (growby pool) \<le> pool_room pool"
    and fr: "unat (free pool) \<le> unat (allocated pool)"
    and al: "unat (allocated pool) \<le> pool_room pool"
    using wf pool_wf_reserved [OF wf] by (auto simp: pool_wf_def)
  have nr: "unat n \<le> pool_room pool" using ngb gr by simp
  have frr: "unat (free pool) \<le> pool_room pool" using fr al by simp
  have sum: "unat (free pool + n) = unat (free pool) + unat n"
    by (rule pool_add_no_wrap [OF wf frr nr])
  obtain pool1 where
    p1: "(if allocated pool \<le> free pool + n then xal_pool_grow os pool (growby pool)
          else (Inr (), pool)) = (Inr (), pool1)"
    and i: "i = ucast (free pool1)" and pool': "pool' = pool1\<lparr>free := free pool1 + n\<rparr>"
    using run n
    by (auto simp: xal_pool_claim_extents_def and_then_def split: prod.splits sum.splits if_splits)
  have one: "pool_wf pool1 \<and> mprotect_bounded os pool1 \<and> free pool1 = free pool \<and>
      growby pool1 = growby pool \<and> reserved pool1 = reserved pool \<and>
      unat (free pool) + unat n \<le> unat (allocated pool1) \<and>
      (\<forall>j < unat (free pool). memory pool1 j = memory pool j)"
  proof (cases "allocated pool \<le> free pool + n")
    case True
    with p1 have g: "xal_pool_grow os pool (growby pool) = (Inr (), pool1)" by simp
    show ?thesis
      using grow_ok [OF wf os gr g] grow_free [OF g] fr ngb by auto
  next
    case False
    with p1 have "pool1 = pool" by simp
    with False wf os sum show ?thesis by (auto simp: word_le_nat_alt)
  qed
  have "unat (ucast (free pool) :: u32) = unat (free pool)"
    using frr pool_wf_room [OF wf] by (simp add: unat_ucast_mod)
  with one i pool' sum show ?thesis
    by (auto simp: pool_wf_def mprotect_bounded_def pool_room_def pool_bytes_def)
qed

lemmas claim_inodes_ok = claim_extents_ok [OF _ _ claim_inodes_eq_extents]

text \<open>What a successful claim hands out is inside the region and zero.\<close>

lemma claim_range:
  assumes wf: "pool_wf pool" and os: "mprotect_bounded os pool"
    and run: "xal_pool_claim_extents os pool n = (Inr i, pool')"
    and j: "unat i \<le> j" "j < unat i + unat n"
  shows "j < pool_room pool \<and> (j < unat (reserved pool) \<longrightarrow> memory pool' j = 0)"
proof -
  have n: "\<not> growby pool < n" using run by (auto simp: pool_defs split: if_splits)
  note ok = claim_extents_ok [OF wf os run]
  then have fr: "unat (free pool') \<le> pool_room pool"
    by (auto simp: pool_wf_def pool_room_def pool_bytes_def) (use ok claim_same_size [OF run] in \<open>auto simp: pool_wf_def pool_room_def pool_bytes_def\<close>)
  have "memory pool j = 0" if "j < unat (reserved pool)"
    using wf ok j that by (auto simp: pool_wf_def)
  moreover have "memory pool' j = memory pool j \<or> memory pool' j = 0"
    using run n by (auto simp: pool_defs and_then_def zero_elements_def
        split: if_splits prod.splits sum.splits)
  ultimately show ?thesis using fr ok j by auto
qed

text \<open>On an error, nothing was claimed, and the counters are those before or after a growth.\<close>

lemma claim_error_free:
  "xal_pool_claim_extents os pool n = (Inl e, pool') \<Longrightarrow> pool' = pool"
  by (auto simp: pool_defs and_then_def split: if_splits prod.splits sum.splits)

lemma claim_inodes_error_free:
  "xal_pool_claim_inodes os pool n = (Inl e, pool') \<Longrightarrow> free pool' = free pool"
  by (auto simp: pool_defs and_then_def split: if_splits prod.splits sum.splits)

section \<open>Mapping and clearing\<close>

lemma clear_ok:
  assumes "pool_wf pool" and "xal_pool_clear os pool = (Inr u, pool')"
  shows "pool_wf pool' \<and> free pool' = 0 \<and> reserved pool' = reserved pool \<and>
         growby pool' = growby pool \<and> (\<forall>i < unat (reserved pool). memory pool' i = 0)"
  using assms by (auto simp: pool_defs pool_wf_def zero_elements_def pool_room_def split: if_splits)

lemma clear_bounded:
  "xal_pool_clear os pool = (r, pool') \<Longrightarrow> mprotect_bounded os pool' = mprotect_bounded os pool"
  by (auto simp: pool_defs mprotect_bounded_def pool_bytes_def split: if_splits)

lemma map_ok:
  fixes pool :: "'e::zero xal_pool"
  assumes fresh: "reserved pool = 0"
    and size: "0 < unat esize" "unat esize < 2 ^ 16" "unat res < 2 ^ 32 - 2 ^ 12"
    and os: "\<And>n. os_mprotect os n = 0 \<Longrightarrow> unat n \<le> (unat res * unat esize + 4095) div 4096 * 4096"
    and run: "xal_pool_map os pool res alloc esize shm = (Inr u, pool')"
  shows "pool_wf pool' \<and> mprotect_bounded os pool' \<and> free pool' = 0 \<and> reserved pool' = res \<and>
         growby pool' = (if shm = None then alloc else res)"
proof (cases shm)
  case (Some name)
  then have pool': "pool' = pool\<lparr>reserved := res, element_size := esize, free := 0,
      memory := (\<lambda>_. 0), allocated := res, growby := res\<rparr>"
    using run fresh by (auto simp: xal_pool_map_def Let_def split: if_splits)
  have "unat (element_size pool') > 0" using size by (simp add: pool')
  from room_bounds(1) [OF this] show ?thesis
    using Some size os by (auto simp: pool_wf_def mprotect_bounded_def pool_bytes_def pool')
next
  case None
  define p1 where "p1 = pool\<lparr>reserved := res, element_size := esize, free := 0, allocated := 0,
                              growby := alloc, memory := (\<lambda>_. 0)\<rparr>"
  have alloc: "alloc \<le> res" and g: "xal_pool_grow os p1 alloc = (Inr u, pool')"
    using run fresh None by (auto simp: xal_pool_map_def Let_def p1_def split: if_splits)
  have le: "unat alloc \<le> unat res" using alloc by (simp add: word_le_nat_alt)
  have wf: "pool_wf p1" using size le by (simp add: p1_def pool_wf_def)
  have bd: "mprotect_bounded os p1" using os by (simp add: p1_def mprotect_bounded_def pool_bytes_def)
  have le1: "unat alloc \<le> pool_room p1"
    using le pool_wf_reserved [OF wf] by (simp add: p1_def)
  from grow_ok [OF wf bd le1 g] grow_free [OF g] None show ?thesis
    by (simp add: p1_def)
qed

section \<open>The interface of a pool\<close>

text \<open>
  What a client of a pool relies on: a claim hands out the elements from the current top, all
  zero, moves the top behind them and leaves the elements below alone. The indexing code
  claims in a loop and stores only the first position and the total count, so it relies on
  successive claims being adjacent: \<open>claim_seq_positions\<close>.
\<close>

fun claim_seq :: "('p \<Rightarrow> u64 \<Rightarrow> (u32, 'p) outcome) \<Rightarrow> u64 list \<Rightarrow> 'p \<Rightarrow> (u32 list, 'p) outcome" where
  "claim_seq claim [] p = (Inr [], p)"
| "claim_seq claim (n # ns) p =
     and_then (claim p n) (\<lambda>i p1.
     and_then (claim_seq claim ns p1) (\<lambda>is p2. (Inr (i # is), p2)))"

locale bump_arena =
  fixes claim :: "'p \<Rightarrow> u64 \<Rightarrow> (u32, 'p) outcome"
    and top_of :: "'p \<Rightarrow> nat"
    and cell :: "'p \<Rightarrow> nat \<Rightarrow> 'e::zero"
    and limit :: "'p \<Rightarrow> nat"
    and inv :: "'p \<Rightarrow> bool"
  assumes claim_inv: "inv p \<Longrightarrow> claim p n = (Inr i, p') \<Longrightarrow> inv p'"
    and claim_position: "inv p \<Longrightarrow> claim p n = (Inr i, p') \<Longrightarrow> unat i = top_of p"
    and claim_top: "inv p \<Longrightarrow> claim p n = (Inr i, p') \<Longrightarrow> top_of p' = top_of p + unat n"
    and claim_frame: "inv p \<Longrightarrow> claim p n = (Inr i, p') \<Longrightarrow> j < top_of p \<Longrightarrow> cell p' j = cell p j"
    and claim_zero: "inv p \<Longrightarrow> claim p n = (Inr i, p') \<Longrightarrow> top_of p \<le> j \<Longrightarrow> j < top_of p' \<Longrightarrow>
      j < limit p \<Longrightarrow> cell p' j = 0"
    and claim_limit: "inv p \<Longrightarrow> claim p n = (Inr i, p') \<Longrightarrow> limit p' = limit p"
begin

lemma claim_seq_inv: "inv p \<Longrightarrow> claim_seq claim ns p = (Inr is, p') \<Longrightarrow> inv p'"
  by (induction ns arbitrary: p "is") (auto elim!: and_then_InrE dest: claim_inv)

lemma claim_seq_top:
  "inv p \<Longrightarrow> claim_seq claim ns p = (Inr is, p') \<Longrightarrow>
   length is = length ns \<and> top_of p' = top_of p + sum_list (map unat ns)"
proof (induction ns arbitrary: p "is")
  case Nil
  then show ?case by simp
next
  case (Cons n ns)
  from Cons.prems(2) obtain i p1 "is1" where
    c: "claim p n = (Inr i, p1)" and r: "claim_seq claim ns p1 = (Inr is1, p')" and eq: "is = i # is1"
    by (auto elim!: and_then_InrE)
  have "inv p1" using c Cons.prems(1) by (rule claim_inv [rotated])
  from Cons.IH [OF this r] claim_top [OF Cons.prems(1) c] eq show ?case by simp
qed

lemma claim_seq_positions:
  "inv p \<Longrightarrow> claim_seq claim ns p = (Inr is, p') \<Longrightarrow> k < length ns \<Longrightarrow>
   unat (is ! k) = top_of p + sum_list (map unat (take k ns))"
proof (induction ns arbitrary: p "is" k)
  case Nil
  then show ?case by simp
next
  case (Cons n ns)
  from Cons.prems(2) obtain i p1 "is1" where
    c: "claim p n = (Inr i, p1)" and r: "claim_seq claim ns p1 = (Inr is1, p')" and eq: "is = i # is1"
    by (auto elim!: and_then_InrE)
  have i1: "inv p1" using c Cons.prems(1) by (rule claim_inv [rotated])
  show ?case
  proof (cases k)
    case 0
    with eq claim_position [OF Cons.prems(1) c] show ?thesis by simp
  next
    case (Suc k')
    with Cons.IH [OF i1 r, of k'] Cons.prems(3) eq claim_top [OF Cons.prems(1) c]
    show ?thesis by simp
  qed
qed

lemma claim_seq_frame:
  "inv p \<Longrightarrow> claim_seq claim ns p = (Inr is, p') \<Longrightarrow> j < top_of p \<Longrightarrow> cell p' j = cell p j"
proof (induction ns arbitrary: p "is")
  case Nil
  then show ?case by simp
next
  case (Cons n ns)
  from Cons.prems(2) obtain i p1 "is1" where
    c: "claim p n = (Inr i, p1)" and r: "claim_seq claim ns p1 = (Inr is1, p')"
    by (auto elim!: and_then_InrE)
  have i1: "inv p1" using c Cons.prems(1) by (rule claim_inv [rotated])
  have "cell p' j = cell p1 j"
    using Cons.IH [OF i1 r] Cons.prems(3) claim_top [OF Cons.prems(1) c] by simp
  with claim_frame [OF Cons.prems(1) c Cons.prems(3)] show ?case by simp
qed

lemma claim_seq_zero:
  "inv p \<Longrightarrow> claim_seq claim ns p = (Inr is, p') \<Longrightarrow> top_of p \<le> j \<Longrightarrow> j < top_of p' \<Longrightarrow>
   j < limit p \<Longrightarrow> cell p' j = 0"
proof (induction ns arbitrary: p "is")
  case Nil
  then show ?case by simp
next
  case (Cons n ns)
  from Cons.prems(2) obtain i p1 "is1" where
    c: "claim p n = (Inr i, p1)" and r: "claim_seq claim ns p1 = (Inr is1, p')"
    by (auto elim!: and_then_InrE)
  have i1: "inv p1" using c Cons.prems(1) by (rule claim_inv [rotated])
  show ?case
  proof (cases "j < top_of p1")
    case True
    with claim_seq_frame [OF i1 r True] claim_zero [OF Cons.prems(1) c Cons.prems(3) True Cons.prems(5)]
    show ?thesis by simp
  next
    case False
    with Cons.IH [OF i1 r] Cons.prems claim_limit [OF Cons.prems(1) c] show ?thesis by simp
  qed
qed

end

lemma claim_extents_cells:
  assumes "pool_wf pool" and "mprotect_bounded os pool"
    and "xal_pool_claim_extents os pool n = (Inr i, pool')"
    and "unat (free pool) \<le> j" and "j < unat (free pool')" and "j < unat (reserved pool)"
  shows "memory pool' j = 0"
  using claim_range [OF assms(1-3), of j] claim_extents_ok [OF assms(1-3)] assms(4-) by simp

interpretation extents_arena: bump_arena
  "xal_pool_claim_extents os" "\<lambda>p. unat (free p)" memory "\<lambda>p. unat (reserved p)"
  "\<lambda>p. pool_wf p \<and> mprotect_bounded os p" for os
  by unfold_locales (auto dest: claim_extents_ok intro: claim_extents_cells)

interpretation inodes_arena: bump_arena
  "xal_pool_claim_inodes os" "\<lambda>p. unat (free p)" memory "\<lambda>p. unat (reserved p)"
  "\<lambda>p. pool_wf p \<and> mprotect_bounded os p" for os
  by unfold_locales (auto dest: claim_inodes_ok intro: claim_extents_cells [OF _ _ claim_inodes_eq_extents])

text \<open>
  A claim from a pool whose region ends at its last reserved element: every new element is zero.
\<close>

lemma claim_inodes_fresh:
  assumes wf: "pool_wf pool" "mprotect_bounded os pool" "pool_room pool = unat (reserved pool)"
    and run: "xal_pool_claim_inodes os pool n = (Inr i, p)"
  shows "pool_wf p \<and> mprotect_bounded os p \<and> pool_room p = unat (reserved p) \<and>
    unat i = unat (free pool) \<and> unat (free p) = unat (free pool) + unat n \<and>
    (\<forall>j < unat (free pool). memory p j = memory pool j) \<and>
    (\<forall>j. unat (free pool) \<le> j \<and> j < unat (free p) \<longrightarrow> memory p j = 0)"
proof -
  note e = claim_inodes_eq_extents [OF run]
  note ok = claim_extents_ok [OF wf(1,2) e]
  have sz: "element_size p = element_size pool" "reserved p = reserved pool"
    using claim_same_size [OF e] by simp_all
  have room: "pool_room p = pool_room pool"
    by (simp add: pool_room_def pool_bytes_def sz)
  have "unat (free p) \<le> unat (reserved pool)"
    using ok wf(3) room by (simp add: pool_wf_def)
  then have "\<forall>j. unat (free pool) \<le> j \<and> j < unat (free p) \<longrightarrow> memory p j = 0"
    using claim_extents_cells [OF wf(1,2) e] by auto
  with ok room sz wf(3) show ?thesis by simp
qed

section \<open>Properties\<close>

text \<open>
  A concrete kernel that grants every mapping and protects up to 8192 bytes, and a pool of
  elements of eight bytes mapped on it.
\<close>

definition demo_os :: pool_os where
  "demo_os = \<lparr>os_mprotect = (\<lambda>n. if n \<le> 8192 then 0 else 12), os_munmap = (\<lambda>_. 0),
     os_mmap = (\<lambda>_. 0), os_shm_open = (\<lambda>_. 0), os_ftruncate = (\<lambda>_. 0)\<rparr>"

definition no_pool :: "nat xal_pool" where
  "no_pool = \<lparr>reserved = 0, allocated = 0, growby = 0, free = 0, element_size = 0, memory = (\<lambda>_. 0)\<rparr>"

definition demo_pool :: "nat xal_pool" where
  "demo_pool = \<lparr>reserved = 1000, allocated = 10, growby = 10, free = 8, element_size = 8,
     memory = (\<lambda>i. if i < 8 then i + 1 else 0)\<rparr>"

lemmas demo_pool_simps = demo_os_def no_pool_def demo_pool_def

lemma demo_pool_wf: "pool_wf demo_pool" "mprotect_bounded demo_os demo_pool"
  by (auto simp: demo_pool_simps pool_wf_def mprotect_bounded_def pool_room_def pool_bytes_def
      word_le_nat_alt split: if_splits)

text \<open>
  Note (mapping establishes the invariant). A successful \<open>xal_pool_map\<close> of a pool that
  was not mapped before gives a well-formed pool that is empty and all of whose reserved elements
  are zero; memory shared under a name is granted at once, anonymous memory in steps of
  \<open>allocated\<close> elements.
\<close>

theorem pool_map_establishes_invariant:
  fixes pool :: "'e::zero xal_pool"
  assumes "reserved pool = 0"
    and "0 < unat esize" and "unat esize < 2 ^ 16" and "unat res < 2 ^ 32 - 2 ^ 12"
    and "\<And>n. os_mprotect os n = 0 \<Longrightarrow> unat n \<le> (unat res * unat esize + 4095) div 4096 * 4096"
    and "xal_pool_map os pool res alloc esize shm = (Inr u, pool')"
  shows "pool_wf pool' \<and> mprotect_bounded os pool' \<and> free pool' = 0 \<and> reserved pool' = res \<and>
         growby pool' = (if shm = None then alloc else res)"
  by (rule map_ok [OF assms])

theorem pool_map_establishes_invariant_witness:
  "\<exists>pool'. xal_pool_map demo_os no_pool 1000 10 8 None = (Inr (), pool') \<and>
     pool_wf pool' \<and> growby pool' = 10"
proof -
  obtain pool' where run: "xal_pool_map demo_os no_pool 1000 10 8 None = (Inr (), pool')"
    by (simp add: xal_pool_map_def xal_pool_grow_def demo_pool_simps Let_def)
  then show ?thesis
    using pool_map_establishes_invariant [of no_pool 8 1000 demo_os 10 None "()" pool']
    by (auto simp: demo_pool_simps word_le_nat_alt split: if_splits)
qed

text \<open>
  C32 (successive claims are adjacent). A sequence of claims of inodes from a well-formed
  pool hands out ranges that follow one another without a gap, the first at the old top; the pool
  stays well-formed, the elements claimed before keep their contents and the new ones are zero.
  The indexing code stores one position and one count for what it claimed in many calls, and
  relies on this.
\<close>

theorem inode_claims_adjacent_and_zero:
  assumes "pool_wf pool" and "mprotect_bounded os pool"
    and "claim_seq (xal_pool_claim_inodes os) ns pool = (Inr is, pool')"
  shows "pool_wf pool' \<and> length is = length ns \<and>
    (\<forall>k < length ns. unat (is ! k) = unat (free pool) + sum_list (map unat (take k ns))) \<and>
    unat (free pool') = unat (free pool) + sum_list (map unat ns) \<and>
    (\<forall>j < unat (free pool). memory pool' j = memory pool j) \<and>
    (\<forall>j. unat (free pool) \<le> j \<and> j < unat (free pool') \<and> j < unat (reserved pool) \<longrightarrow>
       memory pool' j = 0)"
  using inodes_arena.claim_seq_inv [of pool os ns "is" pool']
    inodes_arena.claim_seq_top [of pool os ns "is" pool']
    inodes_arena.claim_seq_positions [of pool os ns "is" pool']
    inodes_arena.claim_seq_frame [of pool os ns "is" pool']
    inodes_arena.claim_seq_zero [of pool os ns "is" pool'] assms
  by auto

theorem inode_claims_adjacent_and_zero_witness:
  "\<exists>pool'. claim_seq (xal_pool_claim_inodes demo_os) [1, 3] demo_pool = (Inr [8, 9], pool') \<and>
    unat (free pool') = 12 \<and> memory pool' 7 = 8 \<and> memory pool' 11 = 0"
proof -
  obtain pool' where run:
    "claim_seq (xal_pool_claim_inodes demo_os) [1, 3] demo_pool = (Inr [8, 9], pool')"
    by (simp add: xal_pool_claim_inodes_def xal_pool_grow_def demo_pool_simps Let_def)
  from inode_claims_adjacent_and_zero [OF demo_pool_wf run] run show ?thesis
    by (auto simp: demo_pool_def)
qed

text \<open>
  The same for \<open>xal_pool_claim_extents\<close>.
\<close>

theorem extent_claims_adjacent_and_zero:
  assumes "pool_wf pool" and "mprotect_bounded os pool"
    and "claim_seq (xal_pool_claim_extents os) ns pool = (Inr is, pool')"
  shows "pool_wf pool' \<and> length is = length ns \<and>
    (\<forall>k < length ns. unat (is ! k) = unat (free pool) + sum_list (map unat (take k ns))) \<and>
    unat (free pool') = unat (free pool) + sum_list (map unat ns) \<and>
    (\<forall>j < unat (free pool). memory pool' j = memory pool j) \<and>
    (\<forall>j. unat (free pool) \<le> j \<and> j < unat (free pool') \<and> j < unat (reserved pool) \<longrightarrow>
       memory pool' j = 0)"
  using extents_arena.claim_seq_inv [of pool os ns "is" pool']
    extents_arena.claim_seq_top [of pool os ns "is" pool']
    extents_arena.claim_seq_positions [of pool os ns "is" pool']
    extents_arena.claim_seq_frame [of pool os ns "is" pool']
    extents_arena.claim_seq_zero [of pool os ns "is" pool'] assms
  by auto

theorem extent_claims_adjacent_and_zero_witness:
  "\<exists>pool'. claim_seq (xal_pool_claim_extents demo_os) [2, 2] demo_pool = (Inr [8, 10], pool') \<and>
    unat (free pool') = 12 \<and> memory pool' 7 = 8 \<and> memory pool' 11 = 0"
proof -
  obtain pool' where run:
    "claim_seq (xal_pool_claim_extents demo_os) [2, 2] demo_pool = (Inr [8, 10], pool')"
    by (simp add: xal_pool_claim_extents_def xal_pool_grow_def demo_pool_simps Let_def)
  from extent_claims_adjacent_and_zero [OF demo_pool_wf run] run show ?thesis
    by (auto simp: demo_pool_def)
qed

text \<open>
  Note (a claim is bounded by the growth step, not by the reserve). On a pool just
  mapped without a shared-memory name, a claim of more elements than were allocated fails with
  -EINVAL, however many elements are reserved and free, and leaves the pool as it was.
\<close>

theorem claim_above_growth_step_fails:
  fixes pool :: "'e::zero xal_pool"
  assumes "xal_pool_map os pool res alloc esize None = (Inr u, pool')" and "alloc < n"
  shows "xal_pool_claim_inodes os' pool' n = (Inl (Err (- EINVAL)), pool') \<and>
    xal_pool_claim_extents os' pool' n = (Inl (Err (- EINVAL)), pool')"
proof -
  have "growby pool' = alloc"
    using assms(1) by (auto simp: xal_pool_map_def xal_pool_grow_def Let_def split: if_splits)
  with assms(2) show ?thesis
    by (simp add: xal_pool_claim_inodes_def xal_pool_claim_extents_def)
qed

theorem claim_above_growth_step_fails_witness:
  "\<exists>pool'. xal_pool_map demo_os no_pool 1000 10 8 None = (Inr (), pool') \<and>
     xal_pool_claim_extents demo_os pool' 11 = (Inl (Err (- EINVAL)), pool')"
proof -
  obtain pool' where run: "xal_pool_map demo_os no_pool 1000 10 8 None = (Inr (), pool')"
    by (simp add: xal_pool_map_def xal_pool_grow_def demo_pool_simps Let_def)
  from claim_above_growth_step_fails [OF run, of 11 demo_os] run show ?thesis by auto
qed

text \<open>
  Note (clearing). After a successful \<open>xal_pool_clear\<close> the pool is well-formed and empty,
  all reserved elements are zero, and the reserve and the growth step are those of before, so
  the same pool can be filled again.
\<close>

theorem pool_clear_empties:
  assumes "pool_wf pool" and "xal_pool_clear os pool = (Inr u, pool')"
  shows "pool_wf pool' \<and> free pool' = 0 \<and> reserved pool' = reserved pool \<and>
         growby pool' = growby pool \<and> (\<forall>i < unat (reserved pool). memory pool' i = 0)"
  by (rule clear_ok [OF assms])

theorem pool_clear_empties_witness:
  "\<exists>pool'. xal_pool_clear demo_os demo_pool = (Inr (), pool') \<and> free pool' = 0 \<and> memory pool' 3 = 0"
proof -
  obtain pool' where run: "xal_pool_clear demo_os demo_pool = (Inr (), pool')"
    by (simp add: xal_pool_clear_def demo_pool_simps)
  from pool_clear_empties [OF demo_pool_wf(1) run] run show ?thesis by (auto simp: demo_pool_def)
qed

end
