(* ===== verification/Xal_Buffer.thy ===== *)
theory Xal_Buffer
  imports Xal_Prelude
begin

text \<open>
  Memory objects and big-endian fields. A C object (an array on the stack, an allocation) is
  a capacity and its bytes; reading or writing past the capacity is the outcome
  \<^term>\<open>Fault OutOfBounds\<close>. The functions \<open>be16\<close>, \<open>be32\<close> and \<open>be64\<close> stand for the pattern
  \<open>be16toh(*(uint16_t *)cursor)\<close> of the code, with the cursor given as an offset into the
  object. \<open>be_enc\<close> is the inverse: the bytes the file system writes for a number.
\<close>

section \<open>Objects\<close>

record cbuf =
  cap :: nat
  bytes :: "nat \<Rightarrow> u8"

definition buf_of :: "nat \<Rightarrow> u8 list \<Rightarrow> cbuf" where
  "buf_of n bs = \<lparr>cap = n, bytes = (\<lambda>i. if i < length bs then bs ! i else 0)\<rparr>"

definition rdn :: "cbuf \<Rightarrow> nat \<Rightarrow> nat \<Rightarrow> fail + u8 list" where
  "rdn b i n = (if i + n \<le> cap b then Inr (map (bytes b) [i..<i + n]) else Inl (Fault OutOfBounds))"

definition rd8 :: "cbuf \<Rightarrow> nat \<Rightarrow> fail + u8" where
  "rd8 b i = (if i < cap b then Inr (bytes b i) else Inl (Fault OutOfBounds))"

text \<open>\<open>memcpy(&b[i], bs, length bs)\<close>\<close>

definition wrn :: "cbuf \<Rightarrow> nat \<Rightarrow> u8 list \<Rightarrow> fail + cbuf" where
  "wrn b i bs =
     (if i + length bs \<le> cap b
      then Inr (b\<lparr>bytes := (\<lambda>j. if i \<le> j \<and> j < i + length bs then bs ! (j - i) else bytes b j)\<rparr>)
      else Inl (Fault OutOfBounds))"

lemma rdn_length: "rdn b i n = Inr bs \<Longrightarrow> length bs = n"
  by (auto simp: rdn_def split: if_splits)

lemma rdn_zero [simp]: "i \<le> cap b \<Longrightarrow> rdn b i 0 = Inr []"
  by (simp add: rdn_def)

lemma rdn_buf_of:
  assumes "i + n \<le> length bs" and "length bs \<le> c"
  shows "rdn (buf_of c bs) i n = Inr (take n (drop i bs))"
  using assms by (auto simp: rdn_def buf_of_def intro: nth_equalityI)

text \<open>Reading the middle part of a buffer laid out as three consecutive parts.\<close>

lemma rdn_mid:
  assumes "length pre = i" and "length mid = n" and "length (pre @ mid @ post) \<le> c"
  shows "rdn (buf_of c (pre @ mid @ post)) i n = Inr mid"
  using assms by (subst rdn_buf_of) auto

lemma rd8_mid:
  assumes "length pre = i" and "length (pre @ x # post) \<le> c"
  shows "rd8 (buf_of c (pre @ x # post)) i = Inr x"
  using assms by (auto simp: rd8_def buf_of_def nth_append)

lemma rdn_wrn_same:
  assumes "wrn b i bs = Inr b'"
  shows "rdn b' i (length bs) = Inr bs"
  using assms by (auto simp: wrn_def rdn_def intro: nth_equalityI split: if_splits)

lemma rdn_wrn_other:
  assumes "wrn b i bs = Inr b'" and "j + n \<le> i \<or> i + length bs \<le> j"
  shows "rdn b' j n = rdn b j n"
  using assms by (auto simp: wrn_def rdn_def split: if_splits)

lemma rd8_wrn_other:
  assumes "wrn b i bs = Inr b'" and "j < i \<or> i + length bs \<le> j"
  shows "rd8 b' j = rd8 b j"
  using assms by (auto simp: wrn_def rd8_def split: if_splits)

section \<open>Big-endian numbers\<close>

definition be_nat :: "u8 list \<Rightarrow> nat" where
  "be_nat bs = foldl (\<lambda>a b. a * 256 + unat b) 0 bs"

definition be_word :: "u8 list \<Rightarrow> 'a::len word" where
  "be_word bs = foldl (\<lambda>a b. a * 256 + ucast b) 0 bs"

primrec be_enc :: "nat \<Rightarrow> 'a::len word \<Rightarrow> u8 list" where
  "be_enc 0 w = []"
| "be_enc (Suc n) w = be_enc n (drop_bit 8 w) @ [ucast w]"

lemma be_enc_length [simp]: "length (be_enc n w) = n"
  by (induction n arbitrary: w) auto

lemma be_nat_snoc: "be_nat (bs @ [b]) = be_nat bs * 256 + unat b"
  by (simp add: be_nat_def)

lemma be_word_snoc: "be_word (bs @ [b]) = be_word bs * 256 + ucast b"
  by (simp add: be_word_def)

lemma be_word_of_nat: "(be_word bs :: 'a::len word) = of_nat (be_nat bs)"
proof (induction bs rule: rev_induct)
  case Nil
  then show ?case by (simp add: be_word_def be_nat_def)
next
  case (snoc b bs)
  then show ?case
    by (simp add: be_word_snoc be_nat_snoc)
qed

lemma be_nat_bound: "be_nat bs < 256 ^ length bs"
proof (induction bs rule: rev_induct)
  case Nil
  then show ?case by (simp add: be_nat_def)
next
  case (snoc b bs)
  have "unat b < 256" using unsigned_less [of b] by simp
  with snoc show ?case by (simp add: be_nat_snoc)
qed

lemma be_nat_be_enc: "be_nat (be_enc n w) = unat (w :: 'a::len word) mod 256 ^ n"
proof (induction n arbitrary: w)
  case 0
  then show ?case by (simp add: be_nat_def)
next
  case (Suc n)
  have low: "unat (ucast w :: u8) = unat w mod 256"
    by (simp add: unat_ucast_mod)
  have "unat w mod 256 ^ Suc n = unat w div 256 mod 256 ^ n * 256 + unat w mod 256"
    by (simp add: mod_mult2_eq)
  then show ?case
    by (simp add: be_nat_snoc Suc.IH low unat_drop_bit)
qed

lemma be_word_be_enc:
  assumes "unat w < 256 ^ n"
  shows "(be_word (be_enc n w) :: 'a::len word) = w"
  using assms by (simp add: be_word_of_nat be_nat_be_enc)

section \<open>Fields of an object\<close>

definition be16 :: "cbuf \<Rightarrow> nat \<Rightarrow> fail + u16" where
  "be16 b i = sbind (rdn b i 2) (\<lambda>bs. Inr (be_word bs))"

definition be32 :: "cbuf \<Rightarrow> nat \<Rightarrow> fail + u32" where
  "be32 b i = sbind (rdn b i 4) (\<lambda>bs. Inr (be_word bs))"

definition be64 :: "cbuf \<Rightarrow> nat \<Rightarrow> fail + u64" where
  "be64 b i = sbind (rdn b i 8) (\<lambda>bs. Inr (be_word bs))"

lemma u16_fits: "unat (w :: u16) < 256 ^ 2"
  using unsigned_less [of w] by simp

lemma u32_fits: "unat (w :: u32) < 256 ^ 4"
  using unsigned_less [of w] by simp

lemma u64_fits: "unat (w :: u64) < 256 ^ 8"
  using unsigned_less [of w] by simp

lemma be16_enc: "rdn b i 2 = Inr (be_enc 2 w) \<Longrightarrow> be16 b i = Inr w"
  by (simp add: be16_def be_word_be_enc [OF u16_fits])

lemma be32_enc: "rdn b i 4 = Inr (be_enc 4 w) \<Longrightarrow> be32 b i = Inr w"
  by (simp add: be32_def be_word_be_enc [OF u32_fits])

lemma be64_enc: "rdn b i 8 = Inr (be_enc 8 w) \<Longrightarrow> be64 b i = Inr w"
  by (simp add: be64_def be_word_be_enc [OF u64_fits])

lemmas be_defs = be16_def be32_def be64_def

end
