(* ===== verification/Xal_Types.thy ===== *)
theory Xal_Types
  imports Xal_Pool Xal_Buffer
begin

text \<open>
  The data model (include/libxal.h, include/xal.h, include/xal_be_xfs.h,
  include/xal_be_fiemap.h, include/xal_be_fiemap_inotify.h). A pointer to an inode of the
  pool is its position; the union of \<open>struct xal_dentries\<close> and \<open>struct xal_extents\<close>, which
  have the same layout, is one pair (\<open>c_idx\<close>, \<open>c_count\<close>) read under either name. The two
  backend structs share the storage \<open>be[64]\<close> of \<open>struct xal\<close>; the code reads the fields of
  one after checking \<open>be_type\<close>, so the model keeps both sets of fields side by side.
\<close>

section \<open>Enumerations and constants\<close>

datatype xal_backend = XAL_BACKEND_UNSET | XAL_BACKEND_XFS | XAL_BACKEND_FIEMAP | XAL_BACKEND_OTHER

datatype xal_watchmode =
  XAL_WATCHMODE_NONE | XAL_WATCHMODE_DIRTY_DETECTION | XAL_WATCHMODE_EXTENT_UPDATE

datatype xal_file_lookupmode = XAL_FILE_LOOKUPMODE_TRAVERSE | XAL_FILE_LOOKUPMODE_HASHMAP

datatype xal_extent_unit = XAL_EXTENT_UNIT_BYTES | XAL_EXTENT_UNIT_LBA

abbreviation XAL_POOL_IDX_NONE :: u32 where
  "XAL_POOL_IDX_NONE \<equiv> 4294967295"

abbreviation XAL_ODF_DIR3_FT_REG_FILE :: u8 where
  "XAL_ODF_DIR3_FT_REG_FILE \<equiv> 1"

abbreviation XAL_ODF_DIR3_FT_DIR :: u8 where
  "XAL_ODF_DIR3_FT_DIR \<equiv> 2"

abbreviation XAL_PATH_MAXLEN :: nat where
  "XAL_PATH_MAXLEN \<equiv> 255"

abbreviation XAL_INODE_NAME_MAXLEN :: nat where
  "XAL_INODE_NAME_MAXLEN \<equiv> 255"

section \<open>Structures\<close>

record xal_sb =
  blocksize :: u32
  sectsize :: u16
  inodesize :: u16
  inopblock :: u16
  inopblog :: u8
  icount :: u64
  nallocated :: u64
  rootino :: u64
  agblocks :: u32
  agblklog :: u8
  agcount :: u32
  dirblocksize :: u32
  lba_blksze :: u32

record xal_extent =
  start_offset :: u64
  start_block :: u64
  nblocks :: u64
  flag :: u8

record xal_extent_converted =
  cv_start_offset :: u64
  cv_start_block :: u64
  cv_size :: u64
  cv_unit :: xal_extent_unit

record xal_content =
  c_idx :: u32
  c_count :: u32

record xal_inode =
  ino :: u64
  isize :: u64
  content :: xal_content
  ftype :: u8
  namelen :: u8
  name :: "u8 list"
  parent_idx :: u32

record xal_ag =
  seqno :: u32
  ag_offset :: u64
  agf_length :: u32
  agi_count :: u32
  agi_root :: u32
  agi_level :: u32

record xal_inotify =
  watch_mode :: xal_watchmode
  inotify_fd :: int
  inode_map :: "int \<Rightarrow> nat option"
  watch_thread :: nat
  inotify_flag :: u32
  watch_cb :: bool

record xal =
  inodes :: "xal_inode xal_pool"
  extents :: "xal_extent xal_pool"
  root_idx :: u32
  sb :: xal_sb
  be_type :: xal_backend
  io_buf :: cbuf
  dinodes :: "cbuf option"
  dinodes_map :: "u64 \<Rightarrow> nat option"
  ags :: "xal_ag list"
  mountpoint :: cstr
  inotify :: "xal_inotify option"
  path_inode_map :: "(cstr \<Rightarrow> nat option) option"
  dirty :: bool
  dirty_shm :: bool
  seq_lock :: u32
  shared_view :: bool

record xal_opts =
  opt_be :: xal_backend
  opt_watch_mode :: xal_watchmode
  opt_file_lookupmode :: xal_file_lookupmode
  opt_shm_name :: "cstr option"

section \<open>Zeroed memory\<close>

text \<open>\<open>calloc\<close> and \<open>memset(.., 0, ..)\<close> give the element whose fields are all zero.\<close>

instantiation unit :: zero
begin

definition zero_unit :: unit where
  "zero_unit = ()"

instance ..

end

instantiation xal_content_ext :: (zero) zero
begin

definition zero_xal_content_ext :: "'a xal_content_ext" where
  "zero_xal_content_ext = \<lparr>c_idx = 0, c_count = 0, \<dots> = 0\<rparr>"

instance ..

end

instantiation xal_inode_ext :: (zero) zero
begin

definition zero_xal_inode_ext :: "'a xal_inode_ext" where
  "zero_xal_inode_ext =
     \<lparr>ino = 0, isize = 0, content = 0, ftype = 0, namelen = 0, name = [], parent_idx = 0, \<dots> = 0\<rparr>"

instance ..

end

instantiation xal_extent_ext :: (zero) zero
begin

definition zero_xal_extent_ext :: "'a xal_extent_ext" where
  "zero_xal_extent_ext = \<lparr>start_offset = 0, start_block = 0, nblocks = 0, flag = 0, \<dots> = 0\<rparr>"

instance ..

end

lemma zero_inode_fields [simp]:
  "ino (0 :: xal_inode) = 0" "isize (0 :: xal_inode) = 0" "content (0 :: xal_inode) = 0"
  "ftype (0 :: xal_inode) = 0" "namelen (0 :: xal_inode) = 0" "name (0 :: xal_inode) = []"
  "parent_idx (0 :: xal_inode) = 0"
  by (simp_all add: zero_xal_inode_ext_def)

lemma zero_content_fields [simp]:
  "c_idx (0 :: xal_content) = 0" "c_count (0 :: xal_content) = 0"
  by (simp_all add: zero_xal_content_ext_def)

definition pool_null :: "'e::zero xal_pool" where
  "pool_null = \<lparr>reserved = 0, allocated = 0, growby = 0, free = 0, element_size = 0, memory = (\<lambda>_. 0)\<rparr>"

definition sb_null :: xal_sb where
  "sb_null = \<lparr>blocksize = 0, sectsize = 0, inodesize = 0, inopblock = 0, inopblog = 0, icount = 0,
     nallocated = 0, rootino = 0, agblocks = 0, agblklog = 0, agcount = 0, dirblocksize = 0,
     lba_blksze = 0\<rparr>"

text \<open>\<open>calloc(1, sizeof(struct xal))\<close>\<close>

definition xal_null :: xal where
  "xal_null = \<lparr>inodes = pool_null, extents = pool_null, root_idx = 0, sb = sb_null,
     be_type = XAL_BACKEND_UNSET, io_buf = buf_of 0 [], dinodes = None, dinodes_map = (\<lambda>_. None), ags = [],
     mountpoint = [], inotify = None, path_inode_map = None, dirty = False, dirty_shm = False, seq_lock = 0,
     shared_view = False\<rparr>"

section \<open>Access to the inode pool\<close>

text \<open>\<open>*xal_inode_at(xal, i)\<close> and \<open>*xal_extent_at(xal, i)\<close>\<close>

definition xal_inode_at :: "xal \<Rightarrow> nat \<Rightarrow> xal_inode" where
  "xal_inode_at x i = memory (inodes x) i"

definition xal_extent_at :: "xal \<Rightarrow> nat \<Rightarrow> xal_extent" where
  "xal_extent_at x i = memory (extents x) i"

text \<open>The position behind a pointer, as the 32-bit index stored in inodes.\<close>

definition xal_inode_idx :: "xal \<Rightarrow> nat \<Rightarrow> u32" where
  "xal_inode_idx x i = of_nat i"

text \<open>Assigning through an inode pointer.\<close>

definition put_inode :: "nat \<Rightarrow> xal_inode \<Rightarrow> xal \<Rightarrow> xal" where
  "put_inode i v x = x\<lparr>inodes := (inodes x)\<lparr>memory := (memory (inodes x))(i := v)\<rparr>\<rparr>"

definition mod_inode :: "nat \<Rightarrow> (xal_inode \<Rightarrow> xal_inode) \<Rightarrow> xal \<Rightarrow> xal" where
  "mod_inode i f x = put_inode i (f (xal_inode_at x i)) x"

definition put_extent :: "nat \<Rightarrow> xal_extent \<Rightarrow> xal \<Rightarrow> xal" where
  "put_extent i v x = x\<lparr>extents := (extents x)\<lparr>memory := (memory (extents x))(i := v)\<rparr>\<rparr>"

text \<open>The two readings of the union \<open>xal_inode_content\<close>, as positions and counts.\<close>

definition dentries_idx :: "xal_inode \<Rightarrow> nat" where
  "dentries_idx n = unat (c_idx (content n))"

definition dentries_count :: "xal_inode \<Rightarrow> nat" where
  "dentries_count n = unat (c_count (content n))"

definition extents_idx :: "xal_inode \<Rightarrow> nat" where
  "extents_idx n = unat (c_idx (content n))"

definition extents_count :: "xal_inode \<Rightarrow> nat" where
  "extents_count n = unat (c_count (content n))"

lemmas content_defs =
  dentries_idx_def dentries_count_def extents_idx_def extents_count_def

definition xal_inode_is_dir :: "xal_inode \<Rightarrow> bool" where
  "xal_inode_is_dir n \<longleftrightarrow> ftype n = XAL_ODF_DIR3_FT_DIR"

definition xal_inode_is_file :: "xal_inode \<Rightarrow> bool" where
  "xal_inode_is_file n \<longleftrightarrow> ftype n = XAL_ODF_DIR3_FT_REG_FILE"

lemma put_inode_at [simp]:
  "xal_inode_at (put_inode i v x) j = (if j = i then v else xal_inode_at x j)"
  by (simp add: xal_inode_at_def put_inode_def)

lemma put_inode_frame [simp]:
  "extents (put_inode i v x) = extents x" "sb (put_inode i v x) = sb x"
  "free (inodes (put_inode i v x)) = free (inodes x)"
  "root_idx (put_inode i v x) = root_idx x" "dirty (put_inode i v x) = dirty x"
  "be_type (put_inode i v x) = be_type x" "seq_lock (put_inode i v x) = seq_lock x"
  by (simp_all add: put_inode_def)

end
