(* ===== verification/Xal_Geometry.thy ===== *)
theory Xal_Geometry
  imports Xal_Types
begin

text \<open>
  Addresses (src/xal.c and the first part of src/xal_be_xfs.c): inode numbers and file-system
  block numbers are packed bit fields (allocation group, block, inode in block), decoded with
  the shift widths of the superblock, and turned into byte offsets on the device. After the
  definitions: decoding inverts packing, the two ways of computing the offset of a block agree,
  distinct blocks and distinct inodes occupy disjoint byte ranges, and the conversions of an
  extent to bytes and to logical blocks are consistent.
\<close>

section \<open>Definitions\<close>

text \<open>
  \<open>(1 << agblklog) - 1\<close> is computed in \<open>int\<close> and then converted to 64 bits. For a shift of 31
  the C expression overflows; the model takes the two's complement result.
\<close>

definition agblk_mask_int :: "u8 \<Rightarrow> u64" where
  "agblk_mask_int n = scast (push_bit (unat n) 1 - 1 :: u32)"

definition xal_fsbno_offset :: "xal \<Rightarrow> u64 \<Rightarrow> u64" where
  "xal_fsbno_offset x fsbno =
     (case be_type x of
        XAL_BACKEND_FIEMAP \<Rightarrow> fsbno * ucast (blocksize (sb x))
      | XAL_BACKEND_XFS \<Rightarrow>
          (let ag = drop_bit (unat (agblklog (sb x))) fsbno;
               bno = fsbno AND agblk_mask_int (agblklog (sb x))
           in (ag * ucast (agblocks (sb x)) + bno) * ucast (blocksize (sb x)))
      | _ \<Rightarrow> - 22)"

definition ino_abs_to_rel :: "xal \<Rightarrow> u64 \<Rightarrow> u32" where
  "ino_abs_to_rel x inoabs =
     ucast (inoabs AND (push_bit (unat (agblklog (sb x)) + unat (inopblog (sb x))) 1 - 1))"

definition xal_ino_decode_relative :: "xal \<Rightarrow> u32 \<Rightarrow> u64 \<times> u32" where
  "xal_ino_decode_relative x i =
     (ucast (drop_bit (unat (inopblog (sb x))) i) AND (push_bit (unat (agblklog (sb x))) 1 - 1),
      ucast ((ucast i :: u64) AND (push_bit (unat (inopblog (sb x))) 1 - 1)))"

definition xal_ino_decode_absolute :: "xal \<Rightarrow> u64 \<Rightarrow> u32 \<times> u64 \<times> u32" where
  "xal_ino_decode_absolute x i =
     (ucast (drop_bit (unat (inopblog (sb x)) + unat (agblklog (sb x))) i),
      xal_ino_decode_relative x (ucast i))"

definition xal_agbno_absolute_offset :: "xal \<Rightarrow> u32 \<Rightarrow> u64 \<Rightarrow> u64" where
  "xal_agbno_absolute_offset x agno agbno =
     (ucast agno * ucast (agblocks (sb x)) + agbno) * ucast (blocksize (sb x))"

definition xal_ino_decode_absolute_offset :: "xal \<Rightarrow> u64 \<Rightarrow> u64" where
  "xal_ino_decode_absolute_offset x i =
     (case xal_ino_decode_absolute x i of (agno, agbno, agbino) \<Rightarrow>
        (ucast agno * ucast (agblocks (sb x)) + agbno) * ucast (blocksize (sb x))
          + ucast agbino * ucast (inodesize (sb x)))"

definition xal_extent_in_bytes :: "xal \<Rightarrow> xal_extent option \<Rightarrow> fail + xal_extent_converted" where
  "xal_extent_in_bytes x extent =
     (case extent of
        None \<Rightarrow> Inl (Err (- EINVAL))
      | Some e \<Rightarrow>
          Inr \<lparr>cv_start_offset = start_offset e * ucast (blocksize (sb x)),
               cv_start_block = xal_fsbno_offset x (start_block e),
               cv_size = nblocks e * ucast (blocksize (sb x)),
               cv_unit = XAL_EXTENT_UNIT_BYTES\<rparr>)"

definition xal_extent_in_lba :: "xal \<Rightarrow> xal_extent option \<Rightarrow> fail + xal_extent_converted" where
  "xal_extent_in_lba x extent =
     (let lba = ucast (lba_blksze (sb x)) :: u64
      in case extent of
        None \<Rightarrow> Inl (Err (- EINVAL))
      | Some e \<Rightarrow>
          if lba = 0 then Inl (Fault DivideByZero)
          else Inr \<lparr>cv_start_offset = start_offset e * ucast (blocksize (sb x)) div lba,
                    cv_start_block = xal_fsbno_offset x (start_block e) div lba,
                    cv_size = nblocks e * ucast (blocksize (sb x)) div lba,
                    cv_unit = XAL_EXTENT_UNIT_LBA\<rparr>)"

text \<open>The 128-bit extent record of the file system (two big-endian words).\<close>

definition decode_xfs_extent :: "u64 \<Rightarrow> u64 \<Rightarrow> xal_extent" where
  "decode_xfs_extent l0 l1 =
     \<lparr>start_offset = drop_bit 10 (push_bit 1 l0),
      start_block = push_bit 43 (l0 AND 0x1FF) OR drop_bit 21 l1,
      nblocks = l1 AND 0x1FFFFF,
      flag = ucast (drop_bit 63 l1)\<rparr>"

section \<open>Masks\<close>

lemma exp_minus_1_mask [simp]: "(2 ^ n - 1 :: 'a::len word) = mask n"
  by (simp add: mask_eq_exp_minus_1)

lemma agblk_mask_int_eq: "unat n < 32 \<Longrightarrow> agblk_mask_int n = mask (unat n)"
  by (rule bit_word_eqI) (auto simp: agblk_mask_int_def bit_simps min_def)

lemma low_9_bits: "(0x1FF :: u64) = mask 9"
  by (simp add: mask_eq_exp_minus_1)

lemma low_21_bits: "(0x1FFFFF :: u64) = mask 21"
  by (simp add: mask_eq_exp_minus_1)

section \<open>Extent records\<close>

text \<open>What the file system stores: flag, file offset, start block and block count.\<close>

definition enc_extent_l0 :: "bool \<Rightarrow> u64 \<Rightarrow> u64 \<Rightarrow> u64" where
  "enc_extent_l0 fl off blk =
     push_bit 63 (of_bool fl) OR push_bit 9 off OR drop_bit 43 blk"

definition enc_extent_l1 :: "u64 \<Rightarrow> u64 \<Rightarrow> u64" where
  "enc_extent_l1 blk cnt = push_bit 21 blk OR cnt"

lemma bit_enc_l0:
  "bit (enc_extent_l0 fl off blk) n \<longleftrightarrow>
     n < 64 \<and> (fl \<and> n = 63 \<or> 9 \<le> n \<and> bit off (n - 9) \<or> bit blk (43 + n))"
  unfolding enc_extent_l0_def shift_bits by (auto dest: bit_imp_le_length)

lemma bit_enc_l1:
  "bit (enc_extent_l1 blk cnt) n \<longleftrightarrow> n < 64 \<and> (21 \<le> n \<and> bit blk (n - 21) \<or> bit cnt n)"
  unfolding enc_extent_l1_def shift_bits by (auto dest: bit_imp_le_length)

lemma bit_decode_start_offset:
  "bit (start_offset (decode_xfs_extent l0 l1)) n \<longleftrightarrow> n < 54 \<and> bit l0 (n + 9)"
  unfolding decode_xfs_extent_def xal_extent.simps shift_bits by (auto simp: add.commute)

lemma bit_decode_start_block:
  "bit (start_block (decode_xfs_extent l0 l1)) n \<longleftrightarrow>
     43 \<le> n \<and> n < 52 \<and> bit l0 (n - 43) \<or> bit l1 (21 + n)"
  unfolding decode_xfs_extent_def xal_extent.simps low_9_bits shift_bits by auto

lemma bit_decode_nblocks:
  "bit (nblocks (decode_xfs_extent l0 l1)) n \<longleftrightarrow> n < 21 \<and> bit l1 n"
  unfolding decode_xfs_extent_def xal_extent.simps low_21_bits shift_bits by auto

lemma decode_start_offset:
  assumes "off < 2 ^ 54" and "blk < 2 ^ 52"
  shows "start_offset (decode_xfs_extent (enc_extent_l0 fl off blk) l1) = off"
  by (rule bit_word_eqI)
    (auto simp: bit_decode_start_offset bit_enc_l0 dest: bit_below [OF assms(1)] bit_below [OF assms(2)])

lemma decode_start_block:
  assumes "blk < 2 ^ 52" and "cnt < 2 ^ 21"
  shows "start_block (decode_xfs_extent (enc_extent_l0 fl off blk) (enc_extent_l1 blk cnt)) = blk"
  by (rule bit_word_eqI)
    (auto simp: bit_decode_start_block bit_enc_l0 bit_enc_l1
      dest: bit_below [OF assms(1)] bit_below [OF assms(2)])

lemma decode_nblocks:
  assumes "cnt < 2 ^ 21"
  shows "nblocks (decode_xfs_extent l0 (enc_extent_l1 blk cnt)) = cnt"
  by (rule bit_word_eqI)
    (auto simp: bit_decode_nblocks bit_enc_l1 dest: bit_below [OF assms(1)])

text \<open>
  The decoded flag is bit 63 of the second word, which is the highest bit but nine of the
  start block; the flag of the record (bit 63 of the first word) is not read.
\<close>

lemma bit_decode_flag:
  "bit (flag (decode_xfs_extent l0 l1)) n \<longleftrightarrow> n = 0 \<and> bit l1 63"
  unfolding decode_xfs_extent_def xal_extent.simps bit_ucast_iff shift_bits
  by (cases "n = 0") (auto dest: bit_imp_le_length)

lemma decode_flag:
  assumes "cnt < 2 ^ 21"
  shows "flag (decode_xfs_extent l0 (enc_extent_l1 blk cnt)) = of_bool (bit blk 42)"
  by (rule bit_word_eqI)
    (auto simp: bit_decode_flag bit_enc_l1 bit_of_bool_iff dest: bit_below [OF assms(1)])

section \<open>Inode numbers\<close>

text \<open>Packing the parts of an inode number, the inverse of the decoding.\<close>

definition pack_ino :: "xal \<Rightarrow> u32 \<Rightarrow> u64 \<Rightarrow> u32 \<Rightarrow> u64" where
  "pack_ino x agno agbno agbino =
     push_bit (unat (inopblog (sb x)) + unat (agblklog (sb x))) (ucast agno) OR
     push_bit (unat (inopblog (sb x))) agbno OR ucast agbino"

definition ino_shift :: "xal \<Rightarrow> nat" where
  "ino_shift x = unat (inopblog (sb x)) + unat (agblklog (sb x))"

lemma bit_pack_ino:
  "bit (pack_ino x agno agbno agbino) n \<longleftrightarrow>
     n < 64 \<and> (ino_shift x \<le> n \<and> bit agno (n - ino_shift x) \<or>
       unat (inopblog (sb x)) \<le> n \<and> bit agbno (n - unat (inopblog (sb x))) \<or> bit agbino n)"
  unfolding pack_ino_def bit_ucast_iff shift_bits ino_shift_def
  by (auto dest: bit_imp_le_length)

lemma bit_decode_rel_agbno:
  "bit (fst (xal_ino_decode_relative x i)) n \<longleftrightarrow>
     n < unat (agblklog (sb x)) \<and> n < 64 \<and> bit i (unat (inopblog (sb x)) + n)"
  by (simp add: xal_ino_decode_relative_def)
    (auto simp: bit_simps dest: bit_imp_le_length)

lemma bit_decode_rel_agbino:
  "bit (snd (xal_ino_decode_relative x i)) n \<longleftrightarrow> n < unat (inopblog (sb x)) \<and> bit i n"
  by (simp add: xal_ino_decode_relative_def)
    (auto simp: bit_simps dest: bit_imp_le_length)

lemma bit_decode_abs_agno:
  "bit (fst (xal_ino_decode_absolute x i)) n \<longleftrightarrow> n < 32 \<and> bit i (ino_shift x + n)"
  by (simp add: xal_ino_decode_absolute_def ino_shift_def)
    (auto simp: bit_simps dest: bit_imp_le_length)

lemma decode_pack_ino:
  assumes shift: "ino_shift x \<le> 32"
    and bno: "agbno < 2 ^ unat (agblklog (sb x))"
    and bino: "(ucast agbino :: u64) < 2 ^ unat (inopblog (sb x))"
  shows "xal_ino_decode_absolute x (pack_ino x agno agbno agbino) = (agno, agbno, agbino)"
proof -
  have lo: "bit agbino n \<Longrightarrow> n < unat (inopblog (sb x))" for n
    using bit_below [OF bino, of n] by (simp add: bit_simps) (use bit_imp_le_length in force)
  note hi = bit_below [OF bno]
  let ?i = "pack_ino x agno agbno agbino"
  have "fst (xal_ino_decode_absolute x ?i) = agno"
    using shift by (intro bit_word_eqI)
      (auto simp: bit_decode_abs_agno bit_pack_ino ino_shift_def dest: lo hi)
  moreover have "fst (snd (xal_ino_decode_absolute x ?i)) = agbno"
    using shift by (intro bit_word_eqI)
      (auto simp: xal_ino_decode_absolute_def bit_decode_rel_agbno bit_simps bit_pack_ino
        ino_shift_def dest: lo hi)
  moreover have "snd (snd (xal_ino_decode_absolute x ?i)) = agbino"
    using shift by (intro bit_word_eqI)
      (auto simp: xal_ino_decode_absolute_def bit_decode_rel_agbino bit_simps bit_pack_ino
        ino_shift_def dest: lo hi)
  ultimately show ?thesis by (simp add: prod_eq_iff)
qed

lemma pack_decode_ino:
  assumes shift: "ino_shift x \<le> 32" and dec: "xal_ino_decode_absolute x i = (agno, agbno, agbino)"
    and top: "drop_bit (ino_shift x) i < 2 ^ 32"
  shows "pack_ino x agno agbno agbino = i"
proof -
  have b1: "bit agno n \<longleftrightarrow> n < 32 \<and> bit i (ino_shift x + n)" for n
    using dec bit_decode_abs_agno [of x i n] by simp
  have b2: "bit agbno n \<longleftrightarrow> n < unat (agblklog (sb x)) \<and> n < 64 \<and> bit (ucast i :: u32) (unat (inopblog (sb x)) + n)" for n
    using dec bit_decode_rel_agbno [of x "ucast i" n] by (simp add: xal_ino_decode_absolute_def)
  have b3: "bit agbino n \<longleftrightarrow> n < unat (inopblog (sb x)) \<and> bit (ucast i :: u32) n" for n
    using dec bit_decode_rel_agbino [of x "ucast i" n] by (simp add: xal_ino_decode_absolute_def)
  have b4: "bit i (ino_shift x + n) \<Longrightarrow> n < 32" for n
    using bit_below [OF top, of n] by (simp add: bit_drop_bit_eq)
  show ?thesis
  proof (rule bit_word_eqI)
    fix n
    assume n: "n < LENGTH(64)"
    consider "ino_shift x \<le> n" | "n < ino_shift x" "unat (inopblog (sb x)) \<le> n"
      | "n < unat (inopblog (sb x))" "n < ino_shift x"
      by (fastforce simp: ino_shift_def)
    then show "bit (pack_ino x agno agbno agbino) n = bit i n"
    proof cases
      case 1
      with n shift b4 [of "n - ino_shift x"] show ?thesis
        by (auto simp: bit_pack_ino b1 b2 b3 ino_shift_def)
    next
      case 2
      with n shift show ?thesis
        by (auto simp: bit_pack_ino b1 b2 b3 bit_simps ino_shift_def)
    next
      case 3
      with n shift show ?thesis
        by (auto simp: bit_pack_ino b1 b2 b3 bit_simps ino_shift_def)
    qed
  qed
qed

section \<open>Byte offsets\<close>

text \<open>The block number of a file-system block, from its allocation group and block.\<close>

definition pack_fsbno :: "xal \<Rightarrow> u32 \<Rightarrow> u64 \<Rightarrow> u64" where
  "pack_fsbno x agno agbno = push_bit (unat (agblklog (sb x))) (ucast agno) OR agbno"

lemma bit_pack_fsbno:
  "bit (pack_fsbno x agno agbno) n \<longleftrightarrow>
     n < 64 \<and> (unat (agblklog (sb x)) \<le> n \<and> bit agno (n - unat (agblklog (sb x))) \<or> bit agbno n)"
  unfolding pack_fsbno_def bit_ucast_iff shift_bits
  by (auto dest: bit_imp_le_length)

lemma fsbno_offset_pack:
  assumes be: "be_type x = XAL_BACKEND_XFS" and log: "unat (agblklog (sb x)) < 32"
    and bno: "agbno < 2 ^ unat (agblklog (sb x))"
  shows "xal_fsbno_offset x (pack_fsbno x agno agbno) = xal_agbno_absolute_offset x agno agbno"
proof -
  let ?L = "unat (agblklog (sb x))"
  have "drop_bit ?L (pack_fsbno x agno agbno) = ucast agno"
    using log by (intro bit_word_eqI)
      (auto simp: bit_drop_bit_eq bit_pack_fsbno bit_ucast_iff dest: bit_below [OF bno] bit_imp_le_length)
  moreover have "pack_fsbno x agno agbno AND mask ?L = agbno"
    using log by (intro bit_word_eqI)
      (auto simp: bit_and_iff bit_mask_iff bit_pack_fsbno dest: bit_below [OF bno] bit_imp_le_length)
  ultimately show ?thesis
    by (simp add: xal_fsbno_offset_def be agblk_mask_int_eq [OF log] Let_def xal_agbno_absolute_offset_def)
qed

text \<open>
  A superblock whose device fits 64-bit byte offsets, and the addresses that lie on it. The
  offset of an address is then the arithmetic one, with no wrap-around.
\<close>

definition sb_fits :: "xal_sb \<Rightarrow> bool" where
  "sb_fits s \<longleftrightarrow>
     unat (agcount s) * unat (agblocks s) * unat (blocksize s) < 2 ^ 64 \<and>
     unat (inopblock s) * unat (inodesize s) \<le> unat (blocksize s)"

definition on_device :: "xal_sb \<Rightarrow> u32 \<Rightarrow> u64 \<Rightarrow> bool" where
  "on_device s agno agbno \<longleftrightarrow> agno < agcount s \<and> unat agbno < unat (agblocks s)"

definition block_number :: "xal_sb \<Rightarrow> u32 \<Rightarrow> u64 \<Rightarrow> nat" where
  "block_number s agno agbno = unat agno * unat (agblocks s) + unat agbno"

lemma block_number_bound:
  assumes "on_device s agno agbno"
  shows "block_number s agno agbno < unat (agcount s) * unat (agblocks s)"
proof -
  have "Suc (unat agno) * unat (agblocks s) \<le> unat (agcount s) * unat (agblocks s)"
    using assms by (intro mult_le_mono1) (simp add: on_device_def word_less_nat_alt Suc_le_eq)
  then show ?thesis
    using assms by (simp add: block_number_def on_device_def)
qed

lemma block_number_inj:
  assumes "on_device s a b" and "on_device s a' b'" and "block_number s a b = block_number s a' b'"
  shows "a = a' \<and> b = b'"
proof -
  have ab: "unat b < unat (agblocks s)" "unat b' < unat (agblocks s)"
    using assms(1,2) by (auto simp: on_device_def)
  have "unat a = block_number s a b div unat (agblocks s)"
    using ab by (simp add: block_number_def)
  moreover have "unat a' = block_number s a' b' div unat (agblocks s)"
    using ab by (simp add: block_number_def)
  ultimately have "unat a = unat a'" using assms(3) by simp
  with assms(3) show ?thesis by (simp add: block_number_def word_eq_iff_unsigned [where ?'a = nat])
qed

lemma agbno_offset_nat:
  assumes fits: "sb_fits (sb x)" and dev: "on_device (sb x) agno agbno"
  shows "unat (xal_agbno_absolute_offset x agno agbno)
           = block_number (sb x) agno agbno * unat (blocksize (sb x))"
proof -
  let ?s = "sb x"
  have lt: "block_number ?s agno agbno < unat (agcount ?s) * unat (agblocks ?s)"
    by (rule block_number_bound [OF dev])
  then have le: "block_number ?s agno agbno * unat (blocksize ?s)
      \<le> unat (agcount ?s) * unat (agblocks ?s) * unat (blocksize ?s)"
    by simp
  with fits have small: "block_number ?s agno agbno * unat (blocksize ?s) < 2 ^ 64"
    by (intro le_less_trans [OF le]) (simp add: sb_fits_def)
  show ?thesis
  proof (cases "unat (blocksize ?s) = 0")
    case True
    then show ?thesis by (simp add: xal_agbno_absolute_offset_def unat_word_ariths unat_ucast_up_eq)
  next
    case False
    with small have b64: "block_number ?s agno agbno < 2 ^ 64"
      by (metis One_nat_def Suc_leI le_less_trans mult.right_neutral mult_le_mono2 neq0_conv)
    then show ?thesis
      using small
      by (simp add: xal_agbno_absolute_offset_def unat_word_ariths unat_ucast_up_eq block_number_def)
  qed
qed

lemma disjoint_blocks:
  fixes m n k :: nat
  assumes "m \<noteq> n"
  shows "m * k + k \<le> n * k \<or> n * k + k \<le> m * k"
proof (cases "m < n")
  case True
  then have "Suc m * k \<le> n * k" by (intro mult_le_mono1) simp
  then show ?thesis by simp
next
  case False
  with assms have "Suc n * k \<le> m * k" by (intro mult_le_mono1) simp
  then show ?thesis by simp
qed

lemma ino_offset_nat:
  assumes fits: "sb_fits (sb x)" and dec: "xal_ino_decode_absolute x i = (agno, agbno, agbino)"
    and dev: "on_device (sb x) agno agbno" and slot: "unat agbino < unat (inopblock (sb x))"
  shows "unat (xal_ino_decode_absolute_offset x i)
           = block_number (sb x) agno agbno * unat (blocksize (sb x))
             + unat agbino * unat (inodesize (sb x))"
proof -
  let ?s = "sb x"
  let ?off = "block_number ?s agno agbno * unat (blocksize ?s)"
  have "unat agbino * unat (inodesize ?s) + unat (inodesize ?s) = Suc (unat agbino) * unat (inodesize ?s)"
    by simp
  also have "\<dots> \<le> unat (inopblock ?s) * unat (inodesize ?s)"
    using slot by (intro mult_le_mono1) simp
  also have "\<dots> \<le> unat (blocksize ?s)" using fits by (simp add: sb_fits_def)
  finally have in_blk: "unat agbino * unat (inodesize ?s) + unat (inodesize ?s) \<le> unat (blocksize ?s)" .
  have "Suc (block_number ?s agno agbno) * unat (blocksize ?s)
      \<le> unat (agcount ?s) * unat (agblocks ?s) * unat (blocksize ?s)"
    using block_number_bound [OF dev] by (intro mult_le_mono1) simp
  then have end64: "?off + unat (blocksize ?s) < 2 ^ 64"
    using fits by (simp add: sb_fits_def)
  have "unat (ucast agbino * ucast (inodesize ?s) :: u64) = unat agbino * unat (inodesize ?s)"
    using in_blk end64 by (subst unat_mult_no_wrap) (simp_all add: unat_ucast_up_eq)
  moreover have "xal_ino_decode_absolute_offset x i
      = xal_agbno_absolute_offset x agno agbno + ucast agbino * ucast (inodesize ?s)"
    by (simp add: xal_ino_decode_absolute_offset_def dec xal_agbno_absolute_offset_def)
  moreover have "unat (xal_agbno_absolute_offset x agno agbno)
      + unat (ucast agbino * ucast (inodesize ?s) :: u64) < 2 ^ LENGTH(64)"
    using in_blk end64 calculation(1) agbno_offset_nat [OF fits dev] by simp
  ultimately show ?thesis
    using agbno_offset_nat [OF fits dev] by (simp only: unat_add_no_wrap)
qed

section \<open>Conversions\<close>

lemma word_div_mult_dvd:
  fixes w l :: u64
  assumes "unat l dvd unat w"
  shows "w div l * l = w"
proof -
  have "unat w div unat l * unat l = unat w" using assms by simp
  then have "unat (w div l) * unat l = unat w" by (simp only: unat_div)
  moreover have "unat w < 2 ^ LENGTH(64)" by (rule unsigned_less)
  ultimately have "unat (w div l * l) = unat w"
    by (metis unat_mult_no_wrap)
  then show ?thesis by (simp add: word_eq_iff_unsigned [where ?'a = nat])
qed

lemma dvd_mult_word:
  fixes v b :: u64
  assumes "2 ^ d dvd unat b" and "d \<le> 64"
  shows "2 ^ d dvd unat (v * b)"
proof -
  have "unat (v * b) = unat v * unat b mod 2 ^ 64" by (simp add: unat_word_ariths)
  moreover have "(2 :: nat) ^ d dvd 2 ^ 64" using assms(2) by (rule le_imp_power_dvd)
  ultimately show ?thesis using assms(1) by (simp add: dvd_mod)
qed

lemma fsbno_offset_multiple:
  assumes "be_type x = XAL_BACKEND_XFS \<or> be_type x = XAL_BACKEND_FIEMAP"
  shows "\<exists>v. xal_fsbno_offset x fsbno = v * ucast (blocksize (sb x))"
  using assms by (auto simp: xal_fsbno_offset_def Let_def)

section \<open>Properties\<close>

text \<open>
  A concrete superblock for the witnesses: 4096-byte blocks, 512-byte inodes, two allocation
  groups of 1000 blocks, 512-byte logical blocks.
\<close>

definition demo_sb :: xal_sb where
  "demo_sb = sb_null\<lparr>blocksize := 4096, sectsize := 512, inodesize := 512, inopblock := 8,
     inopblog := 3, agblocks := 1000, agblklog := 10, agcount := 2, dirblocksize := 4096,
     lba_blksze := 512\<rparr>"

definition demo_xfs :: xal where
  "demo_xfs = xal_null\<lparr>be_type := XAL_BACKEND_XFS, sb := demo_sb\<rparr>"

lemma demo_simps:
  "sb demo_xfs = demo_sb" "be_type demo_xfs = XAL_BACKEND_XFS"
  "blocksize demo_sb = 4096" "inodesize demo_sb = 512" "inopblock demo_sb = 8"
  "inopblog demo_sb = 3" "agblocks demo_sb = 1000" "agblklog demo_sb = 10"
  "agcount demo_sb = 2" "dirblocksize demo_sb = 4096" "lba_blksze demo_sb = 512"
  "sectsize demo_sb = 512"
  by (simp_all add: demo_xfs_def demo_sb_def)

text \<open>
  C33 (extent records decode to what was stored). The start offset, start block and block count
  that decode_xfs_extent extracts from the two words of an on-disk extent record are the ones
  the file system packed there, for every value that fits its field (54, 52 and 21 bits),
  whatever the flag.
\<close>

theorem decode_xfs_extent_inverts_packing:
  assumes "off < 2 ^ 54" and "blk < 2 ^ 52" and "cnt < 2 ^ 21"
  shows "decode_xfs_extent (enc_extent_l0 fl off blk) (enc_extent_l1 blk cnt)
           = \<lparr>start_offset = off, start_block = blk, nblocks = cnt, flag = of_bool (bit blk 42)\<rparr>"
  using assms
  by (intro xal_extent.equality)
    (simp_all add: decode_start_offset decode_start_block decode_nblocks decode_flag)

theorem decode_xfs_extent_inverts_packing_witness:
  "decode_xfs_extent (enc_extent_l0 True 7 (2 ^ 42 + 5)) (enc_extent_l1 (2 ^ 42 + 5) 3)
     = \<lparr>start_offset = 7, start_block = 2 ^ 42 + 5, nblocks = 3, flag = 1\<rparr>"
proof -
  have "bit (2 ^ 42 + 5 :: u64) 42" by simp
  then show ?thesis
    using decode_xfs_extent_inverts_packing [of 7 "2 ^ 42 + 5" 3 True] by simp
qed

text \<open>
  Note (the flag of an extent record is lost). Bit 63 of the first word, where the record keeps
  its flag, does not influence what decode_xfs_extent returns: the same record with and
  without the flag decodes to the same extent, so an unwritten extent is not distinguishable
  from a written one.
\<close>

theorem decode_xfs_extent_ignores_flag:
  "decode_xfs_extent (enc_extent_l0 True off blk) l1
     = decode_xfs_extent (enc_extent_l0 False off blk) l1"
proof (rule xal_extent.equality)
  show "start_offset (decode_xfs_extent (enc_extent_l0 True off blk) l1)
      = start_offset (decode_xfs_extent (enc_extent_l0 False off blk) l1)"
    by (rule bit_word_eqI) (auto simp: bit_decode_start_offset bit_enc_l0)
  show "start_block (decode_xfs_extent (enc_extent_l0 True off blk) l1)
      = start_block (decode_xfs_extent (enc_extent_l0 False off blk) l1)"
    by (rule bit_word_eqI) (auto simp: bit_decode_start_block bit_enc_l0)
qed (simp_all add: decode_xfs_extent_def)

text \<open>
  C34 (inode numbers decode to their parts). For every superblock whose block and inode bits
  fit 32 bits together, xal_ino_decode_absolute returns exactly the allocation group, block
  and slot that an inode number was packed from.
\<close>

theorem ino_decode_inverts_packing:
  assumes "ino_shift x \<le> 32" and "agbno < 2 ^ unat (agblklog (sb x))"
    and "(ucast agbino :: u64) < 2 ^ unat (inopblog (sb x))"
  shows "xal_ino_decode_absolute x (pack_ino x agno agbno agbino) = (agno, agbno, agbino)"
  using assms by (rule decode_pack_ino)

theorem ino_decode_inverts_packing_witness:
  "xal_ino_decode_absolute demo_xfs (pack_ino demo_xfs 1 700 5) = (1, 700, 5)"
  by (rule ino_decode_inverts_packing) (simp_all add: ino_shift_def demo_simps)

text \<open>
  An inode number is valid when it decodes to a block and a slot inside the device; then its
  byte range stays inside that block.
\<close>

definition valid_ino :: "xal \<Rightarrow> u64 \<Rightarrow> bool" where
  "valid_ino x i \<longleftrightarrow>
     (case xal_ino_decode_absolute x i of (agno, agbno, agbino) \<Rightarrow>
        on_device (sb x) agno agbno \<and> unat agbino < unat (inopblock (sb x)) \<and>
        drop_bit (ino_shift x) i < 2 ^ 32)"

lemma ino_range_in_block:
  assumes fits: "sb_fits (sb x)" and dec: "xal_ino_decode_absolute x i = (a, b, k)"
    and dev: "on_device (sb x) a b" and slot: "unat k < unat (inopblock (sb x))"
  shows "unat (xal_ino_decode_absolute_offset x i) + unat (inodesize (sb x))
           \<le> block_number (sb x) a b * unat (blocksize (sb x)) + unat (blocksize (sb x))"
proof -
  have "Suc (unat k) * unat (inodesize (sb x)) \<le> unat (inopblock (sb x)) * unat (inodesize (sb x))"
    using slot by (intro mult_le_mono1) simp
  then show ?thesis
    using fits ino_offset_nat [OF fits dec dev slot] by (simp add: sb_fits_def)
qed

text \<open>
  C39 (inodes do not overlap on the device). Two different inode numbers that decode to blocks
  and slots inside the device get byte offsets whose inode-sized ranges are disjoint, and each
  range ends inside the device: no wrap-around of the 64-bit arithmetic maps two inodes, or an
  inode and the outside, to the same bytes.
\<close>

theorem inode_ranges_disjoint:
  assumes "sb_fits (sb x)" and "ino_shift x \<le> 32"
    and "valid_ino x i" and "valid_ino x j" and "i \<noteq> j"
  shows "unat (xal_ino_decode_absolute_offset x i) + unat (inodesize (sb x))
           \<le> unat (xal_ino_decode_absolute_offset x j) \<or>
         unat (xal_ino_decode_absolute_offset x j) + unat (inodesize (sb x))
           \<le> unat (xal_ino_decode_absolute_offset x i)"
proof -
  obtain a b k where di: "xal_ino_decode_absolute x i = (a, b, k)" by (metis prod_cases3)
  obtain a' b' k' where dj: "xal_ino_decode_absolute x j = (a', b', k')" by (metis prod_cases3)
  let ?bs = "unat (blocksize (sb x))"
  have vi: "on_device (sb x) a b" "unat k < unat (inopblock (sb x))" "drop_bit (ino_shift x) i < 2 ^ 32"
    using assms(3) di by (auto simp: valid_ino_def)
  have vj: "on_device (sb x) a' b'" "unat k' < unat (inopblock (sb x))" "drop_bit (ino_shift x) j < 2 ^ 32"
    using assms(4) dj by (auto simp: valid_ino_def)
  have oi: "unat (xal_ino_decode_absolute_offset x i)
      = block_number (sb x) a b * ?bs + unat k * unat (inodesize (sb x))"
    by (rule ino_offset_nat [OF assms(1) di vi(1,2)])
  have oj: "unat (xal_ino_decode_absolute_offset x j)
      = block_number (sb x) a' b' * ?bs + unat k' * unat (inodesize (sb x))"
    by (rule ino_offset_nat [OF assms(1) dj vj(1,2)])
  show ?thesis
  proof (cases "block_number (sb x) a b = block_number (sb x) a' b'")
    case True
    then have "a = a' \<and> b = b'" using vi(1) vj(1) by (rule block_number_inj [rotated 2])
    then have "k \<noteq> k'"
      using pack_decode_ino [OF assms(2) di vi(3)] pack_decode_ino [OF assms(2) dj vj(3)] assms(5)
      by auto
    then have "unat k \<noteq> unat k'" by (simp add: word_eq_iff_unsigned [where ?'a = nat])
    from disjoint_blocks [OF this, of "unat (inodesize (sb x))"] True oi oj show ?thesis by auto
  next
    case False
    from disjoint_blocks [OF this, of ?bs] oi oj
      ino_range_in_block [OF assms(1) di vi(1,2)] ino_range_in_block [OF assms(1) dj vj(1,2)]
    show ?thesis by linarith
  qed
qed

theorem inode_ranges_disjoint_witness:
  "unat (xal_ino_decode_absolute_offset demo_xfs 8197) + 512
     \<le> unat (xal_ino_decode_absolute_offset demo_xfs 8198) \<or>
   unat (xal_ino_decode_absolute_offset demo_xfs 8198) + 512
     \<le> unat (xal_ino_decode_absolute_offset demo_xfs 8197)"
proof -
  have fits: "sb_fits (sb demo_xfs)" by (simp add: sb_fits_def demo_simps)
  have v: "valid_ino demo_xfs 8197" "valid_ino demo_xfs 8198"
    by (simp_all add: valid_ino_def xal_ino_decode_absolute_def xal_ino_decode_relative_def
        on_device_def ino_shift_def demo_simps mask_eq_exp_minus_1)
  have s: "ino_shift demo_xfs \<le> 32" by (simp add: ino_shift_def demo_simps)
  from inode_ranges_disjoint [OF fits s v] show ?thesis by (simp add: demo_simps)
qed

text \<open>
  C38 (both ways to address a block agree). For the XFS backend, the byte offset computed from a
  file-system block number by xal_fsbno_offset is the one xal_agbno_absolute_offset computes
  from the allocation group and the block inside it; and for addresses on the device it is the
  position of the block times the block size, with no wrap-around.
\<close>

theorem fsbno_offset_is_block_position:
  assumes "be_type x = XAL_BACKEND_XFS" and "unat (agblklog (sb x)) < 32"
    and "agbno < 2 ^ unat (agblklog (sb x))"
    and "sb_fits (sb x)" and "on_device (sb x) agno agbno"
  shows "xal_fsbno_offset x (pack_fsbno x agno agbno) = xal_agbno_absolute_offset x agno agbno \<and>
         unat (xal_fsbno_offset x (pack_fsbno x agno agbno))
           = block_number (sb x) agno agbno * unat (blocksize (sb x))"
  using fsbno_offset_pack [OF assms(1-3)] agbno_offset_nat [OF assms(4,5)] by simp

theorem fsbno_offset_is_block_position_witness:
  "xal_fsbno_offset demo_xfs (pack_fsbno demo_xfs 1 7) = xal_agbno_absolute_offset demo_xfs 1 7 \<and>
   unat (xal_fsbno_offset demo_xfs (pack_fsbno demo_xfs 1 7)) = 1007 * 4096"
proof -
  have pos: "block_number (sb demo_xfs) 1 7 * unat (blocksize (sb demo_xfs)) = 1007 * 4096"
    by (simp add: block_number_def demo_simps)
  have log: "unat (agblklog (sb demo_xfs)) < 32" and bno: "7 < (2 :: u64) ^ unat (agblklog (sb demo_xfs))"
    and fits: "sb_fits (sb demo_xfs)" and dev: "on_device (sb demo_xfs) 1 7"
    by (simp_all add: sb_fits_def on_device_def demo_simps)
  show ?thesis
    using fsbno_offset_is_block_position [OF demo_simps(2) log bno fits dev] unfolding pos .
qed

text \<open>
  Note (logical blocks and bytes describe the same extent). When the logical block size is a
  power of two that divides the file-system block size, xal_extent_in_lba and
  xal_extent_in_bytes both succeed and each field of the first, times the logical block size,
  is the field of the second: the division loses nothing, even where the byte values wrap.
\<close>

theorem extent_lba_times_size_is_bytes:
  assumes "be_type x = XAL_BACKEND_XFS \<or> be_type x = XAL_BACKEND_FIEMAP"
    and "unat (lba_blksze (sb x)) = 2 ^ d" and "2 ^ d dvd unat (blocksize (sb x))"
  shows "\<exists>l b. xal_extent_in_lba x (Some e) = Inr l \<and> xal_extent_in_bytes x (Some e) = Inr b \<and>
           cv_start_offset l * ucast (lba_blksze (sb x)) = cv_start_offset b \<and>
           cv_start_block l * ucast (lba_blksze (sb x)) = cv_start_block b \<and>
           cv_size l * ucast (lba_blksze (sb x)) = cv_size b"
proof -
  let ?lba = "ucast (lba_blksze (sb x)) :: u64"
  have lba: "unat ?lba = 2 ^ d" using assms(2) by (simp add: unat_ucast_up_eq)
  then have nz: "?lba \<noteq> 0" by (metis power_not_zero unsigned_0 zero_neq_numeral)
  have "unat (lba_blksze (sb x)) < 2 ^ LENGTH(32)" by (rule unsigned_less)
  then have "(2 :: nat) ^ d < 2 ^ 32" using assms(2) by simp
  then have d: "d \<le> 64" using power_less_imp_less_exp [of "2 :: nat" d 32] by simp
  have bs: "2 ^ d dvd unat (ucast (blocksize (sb x)) :: u64)"
    using assms(3) by (simp add: unat_ucast_up_eq)
  have exact: "v * ucast (blocksize (sb x)) div ?lba * ?lba = v * ucast (blocksize (sb x))" for v
    using dvd_mult_word [OF bs d, of v] by (intro word_div_mult_dvd) (simp only: lba)
  obtain v where v: "xal_fsbno_offset x (start_block e) = v * ucast (blocksize (sb x))"
    using fsbno_offset_multiple [OF assms(1)] by blast
  show ?thesis
    using nz exact by (simp add: xal_extent_in_lba_def xal_extent_in_bytes_def Let_def v)
qed

theorem extent_lba_times_size_is_bytes_witness:
  "\<exists>l b. xal_extent_in_lba demo_xfs (Some (decode_xfs_extent 512 (2 ^ 21 * 9 + 4))) = Inr l \<and>
     xal_extent_in_bytes demo_xfs (Some (decode_xfs_extent 512 (2 ^ 21 * 9 + 4))) = Inr b \<and>
     cv_start_offset l * ucast (lba_blksze (sb demo_xfs)) = cv_start_offset b \<and>
     cv_start_block l * ucast (lba_blksze (sb demo_xfs)) = cv_start_block b \<and>
     cv_size l * ucast (lba_blksze (sb demo_xfs)) = cv_size b"
  by (rule extent_lba_times_size_is_bytes [where d = 9]) (simp_all add: demo_simps)

end
