(* ===== verification/Xal_Core.thy ===== *)
theory Xal_Core
  imports Xal_Geometry
begin

text \<open>
  The backend-independent part of src/xal.c: views on shared pools, closing, the accessors, the
  recursive walk over the inode tree and the printing of paths. The tree lives in the inode
  pool: a directory names the range of positions of its children, every inode the position of
  its parent. \<open>tree_wf\<close> says when such a pool is a tree; the walk then terminates, visits every
  inode of the subtree once, parents first, and stops at the first error of the callback.
\<close>

section \<open>Views on shared pools, closing, accessors\<close>

text \<open>
  The caller passes the mapped memory and the dirty flag; the two flags say whether the
  allocations of the function succeed.
\<close>

definition xal_from_pools ::
  "bool \<Rightarrow> bool \<Rightarrow> xal_sb \<Rightarrow> cstr option \<Rightarrow> (nat \<Rightarrow> xal_inode) \<Rightarrow> (nat \<Rightarrow> xal_extent)
     \<Rightarrow> bool option \<Rightarrow> fail + xal" where
  "xal_from_pools calloc_ok strdup_ok s mnt inodes_mem extents_mem dirty_ptr =
     (if \<not> calloc_ok then Inl (Err (- ENOMEM))
      else case dirty_ptr of
        None \<Rightarrow> Inl (Err (- EINVAL))
      | Some dirty_now \<Rightarrow>
          let x = xal_null\<lparr>sb := s, root_idx := 0, shared_view := True, dirty := dirty_now,
                           dirty_shm := True\<rparr>;
              attach = (\<lambda>x. x\<lparr>inodes := (inodes x)\<lparr>memory := inodes_mem, element_size := 312\<rparr>,
                              extents := (extents x)\<lparr>memory := extents_mem, element_size := 25\<rparr>\<rparr>)
          in case mnt of
               None \<Rightarrow> Inr (attach x)
             | Some m \<Rightarrow>
                 if strdup_ok then Inr (attach (x\<lparr>be_type := XAL_BACKEND_FIEMAP, mountpoint := m\<rparr>))
                 else Inl (Err (- ENOMEM)))"

text \<open>What \<open>xal_close\<close> releases, in order.\<close>

datatype release = UnmapInodes | UnmapExtents | UnmapDirty | BackendClose | FreeXal

definition xal_close :: "xal option \<Rightarrow> release list" where
  "xal_close xo =
     (case xo of
        None \<Rightarrow> []
      | Some x \<Rightarrow>
          let be_close = (if be_type x = XAL_BACKEND_UNSET then [] else [BackendClose])
          in if shared_view x then be_close @ [FreeXal]
             else [UnmapInodes, UnmapExtents] @ (if dirty_shm x then [UnmapDirty] else [])
                  @ be_close @ [FreeXal])"

definition xal_get_root :: "xal \<Rightarrow> nat" where
  "xal_get_root x = unat (root_idx x)"

definition xal_is_dirty :: "xal \<Rightarrow> bool" where
  "xal_is_dirty x = dirty x"

definition xal_get_seq_lock :: "xal \<Rightarrow> int" where
  "xal_get_seq_lock x = sint (seq_lock x)"

definition xal_get_sb :: "xal \<Rightarrow> xal_sb" where
  "xal_get_sb x = sb x"

definition xal_get_sb_blocksize :: "xal \<Rightarrow> u32" where
  "xal_get_sb_blocksize x = blocksize (sb x)"

text \<open>\<open>xal_index\<close> calls the indexing function of the backend, which the caller passes here.\<close>

definition xal_index :: "(xal \<Rightarrow> (unit, xal) outcome) \<Rightarrow> xal \<Rightarrow> (unit, xal) outcome" where
  "xal_index be_index x = (if shared_view x then (Inl (Err (- EINVAL)), x) else be_index x)"

section \<open>Walking\<close>

text \<open>
  A callback gets the xal, the inode, its own data and the depth, and returns an error number
  and the new data. The dirty flag is shared with the watch thread or another process, so each
  \<open>atomic_load(xal->dirty)\<close> may read something else: \<open>loads k\<close> is what the \<open>k\<close>-th load of the
  walk reads, and the walk threads the number of loads done. \<open>walk_visit\<close> is the part of
  \<open>_walk\<close> above its \<open>switch\<close>.
\<close>

type_synonym 'c walk_cb = "xal \<Rightarrow> nat \<Rightarrow> 'c \<Rightarrow> nat \<Rightarrow> int \<times> 'c"

definition cb_step :: "'c walk_cb \<Rightarrow> xal \<Rightarrow> nat \<times> nat \<Rightarrow> 'c \<Rightarrow> (unit, 'c) outcome" where
  "cb_step f x v c =
     (case f x (fst v) c (snd v) of (err, c') \<Rightarrow>
        (if err \<noteq> 0 then Inl (Err err) else Inr (), c'))"

definition walk_visit ::
  "(nat \<Rightarrow> bool) \<Rightarrow> xal \<Rightarrow> 'c walk_cb option \<Rightarrow> nat \<times> nat \<Rightarrow> 'c \<times> nat \<Rightarrow> (unit, 'c \<times> nat) outcome" where
  "walk_visit loads x cb_func v s =
     (case s of (c, n) \<Rightarrow>
        if loads n then (Inl (Err (- ESTALE)), (c, Suc n))
        else case cb_func of
               None \<Rightarrow> (Inr (), (c, Suc n))
             | Some f \<Rightarrow> (case cb_step f x v c of (r, c') \<Rightarrow> (r, (c', Suc n))))"

fun walk ::
  "nat \<Rightarrow> (nat \<Rightarrow> bool) \<Rightarrow> xal \<Rightarrow> nat \<Rightarrow> 'c walk_cb option \<Rightarrow> nat \<Rightarrow> 'c \<times> nat
     \<Rightarrow> (unit, 'c \<times> nat) outcome" where
  "walk 0 loads x i cb_func depth s = (Inl (Fault OutOfFuel), s)"
| "walk (Suc fuel) loads x i cb_func depth s =
     and_then (walk_visit loads x cb_func (i, depth) s)
       (\<lambda>_ s.
          let inode = xal_inode_at x i
          in if ftype inode = XAL_ODF_DIR3_FT_DIR then
               for_each (\<lambda>k s. walk fuel loads x (dentries_idx inode + k) cb_func (depth + 1) s)
                 [0..<dentries_count inode] s
             else if ftype inode = XAL_ODF_DIR3_FT_REG_FILE then (Inr (), s)
             else (Inl (Err (- EINVAL)), s))"

definition xal_walk ::
  "nat \<Rightarrow> (nat \<Rightarrow> bool) \<Rightarrow> xal \<Rightarrow> nat \<Rightarrow> 'c walk_cb option \<Rightarrow> 'c \<Rightarrow> (unit, 'c) outcome" where
  "xal_walk fuel loads x i cb_func c =
     (case walk fuel loads x i cb_func 0 (c, 0) of (r, (c', n)) \<Rightarrow> (r, c'))"

section \<open>Paths\<close>

text \<open>The bytes that \<open>xal_inode_path_pp\<close> prints; the C function returns their number.\<close>

fun xal_inode_path_pp :: "nat \<Rightarrow> xal \<Rightarrow> nat \<Rightarrow> fail + u8 list" where
  "xal_inode_path_pp 0 x i = Inl (Fault OutOfFuel)"
| "xal_inode_path_pp (Suc fuel) x i =
     (let inode = xal_inode_at x i
      in if parent_idx inode = XAL_POOL_IDX_NONE then Inr []
         else sbind (xal_inode_path_pp fuel x (unat (parent_idx inode)))
                (\<lambda>out. Inr (out @ [47] @ cstr_of (take (unat (namelen inode)) (name inode)))))"

section \<open>Inode trees\<close>

definition parent_of :: "(nat \<Rightarrow> xal_inode) \<Rightarrow> nat \<Rightarrow> nat" where
  "parent_of m j = unat (parent_idx (m j))"

text \<open>
  Below position \<open>n\<close>, every inode is a file or a directory, the children of a directory are
  inside and behind it, and know it as their parent.
\<close>

definition dir_wf :: "(nat \<Rightarrow> xal_inode) \<Rightarrow> nat \<Rightarrow> nat \<Rightarrow> bool" where
  "dir_wf m n i \<longleftrightarrow>
     dentries_idx (m i) + dentries_count (m i) \<le> n \<and>
     (\<forall>k < dentries_count (m i).
        i < dentries_idx (m i) + k \<and> parent_of m (dentries_idx (m i) + k) = i)"

definition tree_wf :: "(nat \<Rightarrow> xal_inode) \<Rightarrow> nat \<Rightarrow> bool" where
  "tree_wf m n \<longleftrightarrow>
     (\<forall>i < n. xal_inode_is_dir (m i) \<and> dir_wf m n i \<or> xal_inode_is_file (m i))"

text \<open>The inodes of a subtree with their depths, in the order of the walk.\<close>

fun preorder :: "nat \<Rightarrow> (nat \<Rightarrow> xal_inode) \<Rightarrow> nat \<Rightarrow> nat \<Rightarrow> (nat \<times> nat) list" where
  "preorder 0 m i d = []"
| "preorder (Suc fuel) m i d =
     (i, d) # (if xal_inode_is_dir (m i)
               then concat (map (\<lambda>k. preorder fuel m (dentries_idx (m i) + k) (d + 1))
                      [0..<dentries_count (m i)])
               else [])"

definition subtree :: "nat \<Rightarrow> (nat \<Rightarrow> xal_inode) \<Rightarrow> nat \<Rightarrow> nat list" where
  "subtree fuel m i = map fst (preorder fuel m i 0)"

lemma preorder_fst: "map fst (preorder fuel m i d) = subtree fuel m i"
proof (induction fuel arbitrary: i d)
  case 0
  then show ?case by (simp add: subtree_def)
next
  case (Suc fuel)
  have "(\<lambda>k. map fst (preorder fuel m (dentries_idx (m i) + k) (d + 1)))
      = (\<lambda>k. map fst (preorder fuel m (dentries_idx (m i) + k) 1))"
    using Suc.IH by (metis (no_types))
  then show ?case by (simp add: subtree_def map_concat comp_def)
qed

lemma subtree_Suc:
  "subtree (Suc fuel) m i =
     i # (if xal_inode_is_dir (m i)
          then concat (map (\<lambda>k. subtree fuel m (dentries_idx (m i) + k)) [0..<dentries_count (m i)])
          else [])"
  by (simp add: subtree_def [of "Suc fuel"] map_concat comp_def preorder_fst)

lemma subtree_0 [simp]: "subtree 0 m i = []"
  by (simp add: subtree_def)

lemma tree_child:
  assumes "tree_wf m n" and "i < n" and "xal_inode_is_dir (m i)" and "k < dentries_count (m i)"
  shows "i < dentries_idx (m i) + k" and "dentries_idx (m i) + k < n"
    and "parent_of m (dentries_idx (m i) + k) = i"
  using assms by (auto simp: tree_wf_def dir_wf_def xal_inode_is_dir_def xal_inode_is_file_def)

lemma subtree_bounds:
  assumes "tree_wf m n" and "i < n" and "j \<in> set (subtree fuel m i)"
  shows "i \<le> j \<and> j < n"
  using assms(2,3)
proof (induction fuel arbitrary: i)
  case 0
  then show ?case by simp
next
  case (Suc fuel)
  show ?case
  proof (cases "j = i")
    case True
    with Suc.prems show ?thesis by simp
  next
    case False
    with Suc.prems obtain k where d: "xal_inode_is_dir (m i)" and k: "k < dentries_count (m i)"
      and j: "j \<in> set (subtree fuel m (dentries_idx (m i) + k))"
      by (auto simp: subtree_Suc split: if_splits)
    note c = tree_child [OF assms(1) Suc.prems(1) d k]
    from Suc.IH [OF c(2) j] c(1) show ?thesis by simp
  qed
qed

lemma subtree_parent:
  assumes "tree_wf m n" and "i < n" and "j \<in> set (subtree fuel m i)" and "j \<noteq> i"
  shows "parent_of m j \<in> set (subtree fuel m i) \<and> parent_of m j < j"
  using assms(2-)
proof (induction fuel arbitrary: i)
  case 0
  then show ?case by simp
next
  case (Suc fuel)
  from Suc.prems obtain k where d: "xal_inode_is_dir (m i)" and k: "k < dentries_count (m i)"
    and j: "j \<in> set (subtree fuel m (dentries_idx (m i) + k))"
    by (auto simp: subtree_Suc split: if_splits)
  note c = tree_child [OF assms(1) Suc.prems(1) d k]
  show ?case
  proof (cases "j = dentries_idx (m i) + k")
    case True
    with c show ?thesis by (simp add: subtree_Suc)
  next
    case False
    from Suc.IH [OF c(2) j False] d k show ?thesis by (auto simp: subtree_Suc)
  qed
qed

text \<open>The subtrees of two children of one directory have no inode in common.\<close>

lemma sibling_subtrees_disjoint:
  assumes wf: "tree_wf m n" and "a < n" and "b < n" and "a \<noteq> b"
    and "parent_of m a = i" and "parent_of m b = i" and "i < a" and "i < b"
  shows "j \<notin> set (subtree f m a) \<inter> set (subtree f m b)"
proof (induction j rule: less_induct)
  case (less j)
  show ?case
  proof
    assume j: "j \<in> set (subtree f m a) \<inter> set (subtree f m b)"
    show False
    proof (cases "j = a \<or> j = b")
      case True
      then show ?thesis
      proof
        assume "j = a"
        with j assms(4) have "parent_of m a \<in> set (subtree f m b)"
          using subtree_parent [OF wf assms(3), of a f] by simp
        then have "b \<le> parent_of m a" using subtree_bounds [OF wf assms(3)] by blast
        with assms(5,8) show False by simp
      next
        assume "j = b"
        with j assms(4) have "parent_of m b \<in> set (subtree f m a)"
          using subtree_parent [OF wf assms(2), of b f] by simp
        then have "a \<le> parent_of m b" using subtree_bounds [OF wf assms(2)] by blast
        with assms(6,7) show False by simp
      qed
    next
      case False
      with j subtree_parent [OF wf assms(2), of j f] subtree_parent [OF wf assms(3), of j f]
      show ?thesis using less [of "parent_of m j"] by auto
    qed
  qed
qed

lemma distinct_concat_map_upt:
  assumes "\<And>k. k < c \<Longrightarrow> distinct (f k)"
    and "\<And>k l. k < c \<Longrightarrow> l < c \<Longrightarrow> k \<noteq> l \<Longrightarrow> set (f k) \<inter> set (f l) = {}"
  shows "distinct (concat (map f [0..<c]))"
  using assms
proof (induction c)
  case 0
  then show ?case by simp
next
  case (Suc c)
  have "distinct (concat (map f [0..<c]))" using Suc.prems by (intro Suc.IH) auto
  moreover have "set (concat (map f [0..<c])) \<inter> set (f c) = {}"
  proof -
    have "set (f k) \<inter> set (f c) = {}" if "k < c" for k
      using Suc.prems(2) [of k c] that by simp
    then show ?thesis by (auto simp: disjoint_iff)
  qed
  ultimately show ?case using Suc.prems(1) by simp
qed

lemma subtree_distinct:
  assumes wf: "tree_wf m n" and "i < n"
  shows "distinct (subtree fuel m i)"
  using assms(2)
proof (induction fuel arbitrary: i)
  case 0
  then show ?case by simp
next
  case (Suc fuel)
  show ?case
  proof (cases "xal_inode_is_dir (m i)")
    case False
    then show ?thesis by (simp add: subtree_Suc)
  next
    case True
    let ?c = "\<lambda>k. dentries_idx (m i) + k"
    note child = tree_child [OF wf Suc.prems True]
    have "distinct (concat (map (\<lambda>k. subtree fuel m (?c k)) [0..<dentries_count (m i)]))"
    proof (rule distinct_concat_map_upt)
      show "distinct (subtree fuel m (?c k))" if "k < dentries_count (m i)" for k
        using child(2) [OF that] by (rule Suc.IH)
      show "set (subtree fuel m (?c k)) \<inter> set (subtree fuel m (?c l)) = {}"
        if "k < dentries_count (m i)" "l < dentries_count (m i)" "k \<noteq> l" for k l
        using sibling_subtrees_disjoint [OF wf child(2) [OF that(1)] child(2) [OF that(2)] _
            child(3) [OF that(1)] child(3) [OF that(2)] child(1) [OF that(1)] child(1) [OF that(2)]]
          that(3) by auto
    qed
    moreover have "i \<notin> set (subtree fuel m (?c k))" if "k < dentries_count (m i)" for k
      using subtree_bounds [OF wf child(2) [OF that], of i fuel] child(1) [OF that] by auto
    ultimately show ?thesis using True by (simp add: subtree_Suc)
  qed
qed

section \<open>The walk visits the subtree\<close>

lemma walk_is_preorder:
  assumes wf: "tree_wf (memory (inodes x)) n" and "i < n" and "n - i \<le> fuel"
  shows "walk fuel loads x i cb d s =
    for_each (walk_visit loads x cb) (preorder fuel (memory (inodes x)) i d) s"
  using assms(2,3)
proof (induction fuel arbitrary: i d s)
  case 0
  then show ?case by simp
next
  case (Suc fuel)
  let ?m = "memory (inodes x)"
  have kids: "for_each (\<lambda>k. walk fuel loads x (dentries_idx (?m i) + k) cb (d + 1)) [0..<dentries_count (?m i)] t
      = for_each (\<lambda>k. for_each (walk_visit loads x cb) (preorder fuel ?m (dentries_idx (?m i) + k) (d + 1)))
          [0..<dentries_count (?m i)] t" if "xal_inode_is_dir (?m i)" for t
  proof (rule for_each_eqI)
    fix k u assume "k \<in> set [0..<dentries_count (?m i)]"
    then have c: "i < dentries_idx (?m i) + k" "dentries_idx (?m i) + k < n"
      using tree_child [OF wf Suc.prems(1) that, of k] by auto
    then show "walk fuel loads x (dentries_idx (?m i) + k) cb (d + 1) u
        = for_each (walk_visit loads x cb) (preorder fuel ?m (dentries_idx (?m i) + k) (d + 1)) u"
      using Suc.prems(2) by (intro Suc.IH) auto
  qed
  have t: "xal_inode_is_dir (?m i) \<or> xal_inode_is_file (?m i)"
    using wf Suc.prems(1) by (auto simp: tree_wf_def)
  then show ?case
    using kids
    by (auto simp: xal_inode_at_def Let_def xal_inode_is_dir_def xal_inode_is_file_def
        for_each_concat for_each_map intro!: and_then_cong)
qed

lemma preorder_two_fuels:
  assumes wf: "tree_wf m n" and "i < n" and "n - i \<le> f" and "n - i \<le> g"
  shows "preorder f m i d = preorder g m i d"
  using assms(2-)
proof (induction f arbitrary: g i d)
  case 0
  then show ?case by simp
next
  case (Suc f)
  then obtain g' where g: "g = Suc g'" by (cases g) auto
  have "preorder f m (dentries_idx (m i) + k) e = preorder g' m (dentries_idx (m i) + k) e"
    if "xal_inode_is_dir (m i)" "k < dentries_count (m i)" for k e
    using tree_child [OF wf Suc.prems(1) that] Suc.prems(2,3) g by (intro Suc.IH) auto
  then show ?case by (auto simp: g intro!: arg_cong [where f = concat] map_cong)
qed

lemma preorder_fuel:
  assumes "tree_wf m n" and "i < n" and "n - i \<le> fuel"
  shows "preorder fuel m i d = preorder (n - i) m i d"
  by (rule preorder_two_fuels [OF assms]) simp

text \<open>The order of the walk, with the bound of the pool as its fuel, and what it must cover.\<close>

definition tree_order :: "(nat \<Rightarrow> xal_inode) \<Rightarrow> nat \<Rightarrow> nat \<Rightarrow> (nat \<times> nat) list" where
  "tree_order m n i = preorder (n - i) m i 0"

inductive descendant :: "(nat \<Rightarrow> xal_inode) \<Rightarrow> nat \<Rightarrow> nat \<Rightarrow> bool" for m where
  self: "descendant m i i"
| child: "xal_inode_is_dir (m i) \<Longrightarrow> k < dentries_count (m i) \<Longrightarrow>
     descendant m (dentries_idx (m i) + k) j \<Longrightarrow> descendant m i j"

lemma descendant_in_subtree:
  assumes "descendant m i j" and "tree_wf m n" and "i < n" and "n - i \<le> fuel"
  shows "j \<in> set (subtree fuel m i)"
  using assms(1,3,4)
proof (induction arbitrary: fuel)
  case (self i)
  then show ?case by (cases fuel) (auto simp: subtree_Suc)
next
  case (child i k j)
  then obtain f where f: "fuel = Suc f" by (cases fuel) auto
  note c = tree_child [OF assms(2) child.prems(1) child.hyps(1,2)]
  have "j \<in> set (subtree f m (dentries_idx (m i) + k))"
    using c child.prems f by (intro child.IH) auto
  with child.hyps f show ?case by (auto simp: subtree_Suc)
qed

lemma subtree_descendant: "j \<in> set (subtree fuel m i) \<Longrightarrow> descendant m i j"
  by (induction fuel arbitrary: i)
    (auto simp: subtree_Suc split: if_splits intro: descendant.intros)

lemma tree_order_set:
  assumes "tree_wf m n" and "i < n"
  shows "set (map fst (tree_order m n i)) = {j. descendant m i j}"
  using descendant_in_subtree [OF _ assms, of _ "n - i"] subtree_descendant [of _ "n - i" m i]
  by (auto simp: tree_order_def preorder_fst)

lemma xal_walk_tree_order:
  assumes "tree_wf (memory (inodes x)) n" and "i < n" and "n - i \<le> fuel"
  shows "xal_walk fuel loads x i cb c =
    (case for_each (walk_visit loads x cb) (tree_order (memory (inodes x)) n i) (c, 0)
       of (r, (c', k)) \<Rightarrow> (r, c'))"
  by (simp add: xal_walk_def walk_is_preorder [OF assms] preorder_fuel [OF assms] tree_order_def)

lemma walk_visit_InrD:
  assumes "walk_visit loads x (Some f) v (c, k) = (Inr u, (c', k'))"
  shows "\<not> loads k \<and> k' = Suc k \<and> cb_step f x v c = (Inr (), c')"
  using assms by (auto simp: walk_visit_def split: if_splits prod.splits)

lemma walk_visit_all:
  assumes "for_each (walk_visit loads x (Some f)) vs (c, k) = (Inr u, (c', k'))"
  shows "(\<forall>j < length vs. \<not> loads (k + j)) \<and> k' = k + length vs \<and>
    for_each (cb_step f x) vs c = (Inr (), c')"
  using assms
proof (induction vs arbitrary: c k)
  case (Cons v vs)
  then obtain c1 k1 where v: "walk_visit loads x (Some f) v (c, k) = (Inr (), (c1, k1))"
    and rest: "for_each (walk_visit loads x (Some f)) vs (c1, k1) = (Inr u, (c', k'))"
    by (auto elim!: and_then_InrE)
  from Cons.IH [OF rest] walk_visit_InrD [OF v] show ?case by (auto simp: less_Suc_eq_0_disj)
qed auto

section \<open>Properties\<close>

text \<open>A small tree: the root with a directory \<open>a\<close> and a file \<open>b\<close>, and a file \<open>c\<close> in \<open>a\<close>.\<close>

definition demo_inode :: "u8 \<Rightarrow> u32 \<Rightarrow> u32 \<Rightarrow> string \<Rightarrow> u32 \<Rightarrow> xal_inode" where
  "demo_inode t idx cnt s p =
     \<lparr>ino = 0, isize = 0, content = \<lparr>c_idx = idx, c_count = cnt\<rparr>, ftype = t,
      namelen = of_nat (length s), name = bytes_of s, parent_idx = p\<rparr>"

definition demo_mem :: "nat \<Rightarrow> xal_inode" where
  "demo_mem = (\<lambda>_. 0)(
     0 := demo_inode 2 1 2 [] XAL_POOL_IDX_NONE,
     1 := demo_inode 2 3 1 ''a'' 0,
     2 := demo_inode 1 0 0 ''b'' 0,
     3 := demo_inode 1 0 0 ''c'' 1)"

definition demo_tree :: xal where
  "demo_tree = xal_null\<lparr>inodes := pool_null\<lparr>memory := demo_mem, free := 4\<rparr>\<rparr>"

lemmas demo_tree_simps =
  demo_tree_def demo_mem_def demo_inode_def xal_null_def pool_null_def content_defs
  xal_inode_is_dir_def xal_inode_is_file_def parent_of_def

lemma demo_tree_wf: "tree_wf (memory (inodes demo_tree)) 4"
  by code_simp

text \<open>
  C31 (the walk is a complete traversal). On an inode pool that is a tree below position
  \<open>n\<close>, a walk from any inode returns (the fuel bounds the depth of the recursion by the number
  of inodes behind the start), and it is the loop that visits the descendants of the start
  inode, each exactly once, in the order of \<open>tree_order\<close>; it stops at the first load of a set
  dirty flag and at the first error of the callback.
\<close>

theorem walk_visits_descendants_once:
  assumes "tree_wf (memory (inodes x)) n" and "i < n" and "n - i \<le> fuel"
  shows "xal_walk fuel loads x i cb c =
      (case for_each (walk_visit loads x cb) (tree_order (memory (inodes x)) n i) (c, 0)
         of (r, (c', k)) \<Rightarrow> (r, c')) \<and>
    distinct (map fst (tree_order (memory (inodes x)) n i)) \<and>
    set (map fst (tree_order (memory (inodes x)) n i)) = {j. descendant (memory (inodes x)) i j}"
  using xal_walk_tree_order [OF assms] tree_order_set [OF assms(1,2)]
    subtree_distinct [OF assms(1,2), of "n - i"]
  by (simp only: tree_order_def preorder_fst simp_thms)

theorem walk_visits_descendants_once_witness:
  "xal_walk 4 (\<lambda>_. False) demo_tree 0 (Some (\<lambda>x i vs d. (0, vs @ [(i, d)]))) [] =
     (Inr (), [(0, 0), (1, 1), (3, 2), (2, 1)])"
proof -
  have "tree_order (memory (inodes demo_tree)) 4 0 = [(0, 0), (1, 1), (3, 2), (2, 1)]"
    by code_simp
  then show ?thesis
    using walk_visits_descendants_once [OF demo_tree_wf, of 0 4 "\<lambda>_. False"
        "Some (\<lambda>x i vs d. (0, vs @ [(i, d)]))" "[]"]
    by (simp add: walk_visit_def cb_step_def)
qed

text \<open>
  Note (a successful walk saw a clean tree). When the walk of a tree reports success, every
  load of the dirty flag, one before each visit, read it unset, and the callback ran on all
  descendants in order, none of its calls failing. So a flag raised before the last visit
  never goes unnoticed.
\<close>

theorem walk_success_means_clean:
  assumes "tree_wf (memory (inodes x)) n" and "i < n" and "n - i \<le> fuel"
    and "xal_walk fuel loads x i (Some f) c = (Inr (), c')"
  shows "(\<forall>j < length (tree_order (memory (inodes x)) n i). \<not> loads j) \<and>
    for_each (cb_step f x) (tree_order (memory (inodes x)) n i) c = (Inr (), c')"
  using assms(4) unfolding xal_walk_tree_order [OF assms(1-3)]
  by (auto dest: walk_visit_all split: prod.splits)

theorem walk_success_means_clean_witness:
  "for_each (cb_step (\<lambda>x i vs d. (0, vs @ [i])) demo_tree) (tree_order (memory (inodes demo_tree)) 4 1) []
     = (Inr (), [1, 3])"
proof -
  have "xal_walk 3 (\<lambda>_. False) demo_tree 1 (Some (\<lambda>x i vs d. (0, vs @ [i]))) [] = (Inr (), [1, 3])"
    by code_simp
  then show ?thesis
    using walk_success_means_clean [OF demo_tree_wf, of 1 3 "\<lambda>_. False"] by simp
qed

text \<open>
  Note (a shared view does not own its pools). A xal made by \<open>xal_from_pools\<close> cannot be
  indexed, starts with the root at position 0, and closing it frees the struct after the close
  function of the backend and never unmaps the pools or the dirty flag of the caller.
\<close>

theorem shared_view_keeps_pools:
  assumes "xal_from_pools c_ok s_ok s mnt im em dirty_ptr = Inr x"
  shows "xal_index be_index x = (Inl (Err (- EINVAL)), x) \<and> xal_get_root x = 0 \<and>
    memory (inodes x) = im \<and> memory (extents x) = em \<and>
    xal_close (Some x) = (if mnt = None then [FreeXal] else [BackendClose, FreeXal])"
  using assms
  by (auto simp: xal_from_pools_def xal_index_def xal_close_def xal_get_root_def xal_null_def Let_def
      split: if_splits option.splits)

theorem shared_view_keeps_pools_witness:
  "\<exists>x. xal_from_pools True True sb_null (Some [47]) demo_mem (\<lambda>_. 0) (Some False) = Inr x \<and>
    xal_close (Some x) = [BackendClose, FreeXal]"
  using shared_view_keeps_pools [of True True sb_null "Some [47]" demo_mem "\<lambda>_. 0" "Some False"]
  by (simp add: xal_from_pools_def)

text \<open>
  Note (a view without a mountpoint has no backend). The mountpoint of \<open>xal_from_pools\<close> is
  optional, but without it no backend is set, so the block number of any extent is translated
  to the error code -EINVAL as a 64-bit offset, while \<open>xal_extent_in_bytes\<close> reports success.
\<close>

theorem view_without_mountpoint_misreports_blocks:
  assumes "xal_from_pools c_ok s_ok s None im em dirty_ptr = Inr x"
  shows "\<exists>cv. xal_extent_in_bytes x (Some e) = Inr cv \<and> cv_start_block cv = - 22"
  using assms
  by (auto simp: xal_from_pools_def xal_extent_in_bytes_def xal_fsbno_offset_def xal_null_def Let_def
      split: if_splits option.splits)

theorem view_without_mountpoint_misreports_blocks_witness:
  "\<exists>x cv. xal_from_pools True True sb_null None demo_mem (\<lambda>_. 0) (Some False) = Inr x \<and>
    xal_extent_in_bytes x (Some \<lparr>start_offset = 0, start_block = 7, nblocks = 1, flag = 0\<rparr>) = Inr cv \<and>
    cv_start_block cv = - 22"
  using view_without_mountpoint_misreports_blocks
    [of True True sb_null demo_mem "\<lambda>_. 0" "Some False"]
  by (simp add: xal_from_pools_def)

end
