(* ===== verification/Xal_Fs.thy ===== *)
theory Xal_Fs
  imports Xal_Core
begin

text \<open>
  The mounted file system as the FIEMAP backend sees it, and the watch descriptors
  (src/xal_be_fiemap_inotify.c: init, clear_inode_map, add_watcher). The kernel and the C library
  are parameters: \<open>fs_env\<close> holds what \<open>stat\<close>, \<open>opendir\<close> with its \<open>readdir\<close> calls, \<open>open\<close>, the two
  \<open>FS_IOC_FIEMAP\<close> calls, \<open>inotify_init1\<close> and \<open>inotify_add_watch\<close> return for a path (\<open>Inl\<close> the errno
  they leave), which allocations succeed, and the memory calls of the pools. One \<open>fs_env\<close> is the
  file system during one operation of the library.
\<close>

section \<open>The kernel\<close>

record file_stat =
  st_mode :: u32
  st_ino :: u64
  st_size :: u64
  st_blksize :: u64

definition S_ISDIR :: "u32 \<Rightarrow> bool" where
  "S_ISDIR m \<longleftrightarrow> m AND 0xF000 = 0x4000"

definition S_ISREG :: "u32 \<Rightarrow> bool" where
  "S_ISREG m \<longleftrightarrow> m AND 0xF000 = 0x8000"

text \<open>A directory entry: its name, and whether \<open>d_type\<close> is \<open>DT_DIR\<close>.\<close>

record dirent =
  d_name :: cstr
  d_is_dir :: bool

record fiemap_extent =
  fe_logical :: u64
  fe_physical :: u64
  fe_length :: u64
  fe_flags :: u32

text \<open>The calls that allocate memory, the last two with the number of bytes or the name.\<close>

datatype alloc_site =
  AllocXal | AllocMountpoint | AllocInotify | AllocWdMap | AllocPathMap | AllocFiemap |
  AllocFiemapExtents u64 | AllocEntries nat | AllocName cstr

record fs_env =
  fs_stat :: "cstr \<Rightarrow> int + file_stat"
  fs_opendir :: "cstr \<Rightarrow> int + dirent list"
  fs_open :: "cstr \<Rightarrow> int"
  fs_fiemap_count :: "cstr \<Rightarrow> int + u32"
  fs_fiemap_extents :: "cstr \<Rightarrow> u32 \<Rightarrow> int + (u32 \<times> fiemap_extent list)"
  fs_inotify_init :: "int + int"
  fs_add_watch :: "cstr \<Rightarrow> int + int"
  fs_alloc_ok :: "alloc_site \<Rightarrow> bool"
  fs_realloc_moves :: "u64 \<Rightarrow> bool"
  fs_kh_put_ok :: "cstr \<Rightarrow> bool"
  fs_kh_put_wd_ok :: "int \<Rightarrow> bool"
  fs_inodes_os :: pool_os
  fs_extents_os :: pool_os

section \<open>Strings in inodes\<close>

text \<open>\<open>strcpy\<close> into an array whose bytes past the end of the list are zero.\<close>

definition strcpy_into :: "cstr \<Rightarrow> u8 list \<Rightarrow> u8 list" where
  "strcpy_into s old =
     (if length old \<le> Suc (length s) then s else s @ 0 # drop (Suc (length s)) old)"

lemma strcpy_into_empty [simp]: "strcpy_into s [] = s"
  by (simp add: strcpy_into_def)

lemma cstr_of_strcpy_into: "is_cstr s \<Longrightarrow> cstr_of (strcpy_into s old) = s"
proof -
  assume s: "is_cstr s"
  have "takeWhile (\<lambda>b. b \<noteq> 0) (s @ 0 # t) = s" for t
    by (subst takeWhile_append2) (use s in \<open>auto simp: is_cstr_def\<close>)
  with cstr_of_id [OF s] show ?thesis by (simp add: strcpy_into_def cstr_of_def)
qed

section \<open>Watch descriptors\<close>

definition xal_be_fiemap_inotify_init ::
  "fs_env \<Rightarrow> xal_inotify \<Rightarrow> xal_watchmode \<Rightarrow> (unit, xal_inotify) outcome" where
  "xal_be_fiemap_inotify_init env i mode =
     (let i = i\<lparr>watch_mode := mode\<rparr>
      in if mode = XAL_WATCHMODE_NONE then (Inr (), i)
         else case fs_inotify_init env of
                Inl e \<Rightarrow> (Inl (Err (- e)), i\<lparr>inotify_fd := - 1\<rparr>)
              | Inr fd \<Rightarrow>
                  if fs_alloc_ok env AllocWdMap
                  then (Inr (), i\<lparr>inotify_fd := fd, inode_map := (\<lambda>_. None)\<rparr>)
                  else (Inl (Err (- EINVAL)), i\<lparr>inotify_fd := fd\<rparr>))"

definition xal_be_fiemap_inotify_clear_inode_map :: "xal_inotify \<Rightarrow> xal_inotify" where
  "xal_be_fiemap_inotify_clear_inode_map i = i\<lparr>inode_map := (\<lambda>_. None)\<rparr>"

text \<open>The directory is passed with its position and its content.\<close>

definition xal_be_fiemap_inotify_add_watcher ::
  "fs_env \<Rightarrow> cstr \<Rightarrow> nat \<Rightarrow> xal_inode \<Rightarrow> xal_inotify \<Rightarrow> (unit, xal_inotify) outcome" where
  "xal_be_fiemap_inotify_add_watcher env path self inode i =
     (if \<not> xal_inode_is_dir inode then (Inl (Err (- EINVAL)), i)
      else if watch_mode i = XAL_WATCHMODE_NONE then (Inr (), i)
      else case fs_add_watch env path of
             Inl e \<Rightarrow> (Inl (Err (- e)), i)
           | Inr wd \<Rightarrow>
               if fs_kh_put_wd_ok env wd then (Inr (), i\<lparr>inode_map := (inode_map i)(wd \<mapsto> self)\<rparr>)
               else (Inl (Err (- EIO)), i))"

lemma add_watcher_InrD:
  assumes "xal_be_fiemap_inotify_add_watcher env path self inode i = (Inr u, i')"
  shows "xal_inode_is_dir inode \<and> watch_mode i' = watch_mode i \<and>
    (inode_map i' = inode_map i \<or>
     (\<exists>wd. fs_add_watch env path = Inr wd \<and> inode_map i' = (inode_map i)(wd \<mapsto> self)))"
  using assms by (auto simp: xal_be_fiemap_inotify_add_watcher_def split: if_splits sum.splits)

end
