(* ===== verification/Xal_Fiemap.thy ===== *)
theory Xal_Fiemap
  imports Xal_Fs
begin

text \<open>
  Opening and indexing with the FIEMAP backend (src/xal_be_fiemap.c). The tree is read from the
  mounted file system: the entries of a directory are collected, sorted by name and given a
  contiguous range of the inode pool; each inode is named by its full path. The extents of a file
  come from two \<open>FS_IOC_FIEMAP\<close> calls, the first for their number, the second for the extents. The
  recursion between inodes and directories carries fuel; theory Xal_Fiemap_Index shows that 257
  is always enough, because a path of more than 255 bytes does not fit the name of an inode.
\<close>

section \<open>Counting the entries of a mount\<close>

definition is_directory_member :: "cstr \<Rightarrow> bool" where
  "is_directory_member nm \<longleftrightarrow> nm \<noteq> [46] \<and> nm \<noteq> [46, 46]"

text \<open>A negative \<open>int\<close> is an error code to the caller, whatever it came from.\<close>

definition int_result :: "u32 \<Rightarrow> fail + u32" where
  "int_result w = (if sint w < 0 then Inl (Err (sint w)) else Inr w)"

fun count_entries :: "(cstr \<Rightarrow> fail + u32) \<Rightarrow> cstr \<Rightarrow> dirent list \<Rightarrow> u32 \<Rightarrow> fail + u32" where
  "count_entries below path [] count = int_result count"
| "count_entries below path (d # ds) count =
     (if \<not> is_directory_member (d_name d) then count_entries below path ds count
      else if d_is_dir d then
        (case below (path @ [47] @ d_name d) of
           Inl (Err _) \<Rightarrow> Inl (Err (- 1))
         | Inl (Fault f) \<Rightarrow> Inl (Fault f)
         | Inr children \<Rightarrow> count_entries below path ds (count + 1 + children))
      else count_entries below path ds (count + 1))"

definition stat_error :: "int \<Rightarrow> fail" where
  "stat_error e = (if e = ENOENT then Err (- EAGAIN) else Err (- e))"

fun retrieve_total_entries :: "nat \<Rightarrow> fs_env \<Rightarrow> cstr \<Rightarrow> fail + u32" where
  "retrieve_total_entries 0 env path = Inl (Fault OutOfFuel)"
| "retrieve_total_entries (Suc fuel) env path =
     (case fs_stat env path of
        Inl e \<Rightarrow> Inl (stat_error e)
      | Inr st \<Rightarrow>
          if \<not> S_ISDIR (st_mode st) then Inr 0
          else case fs_opendir env path of
                 Inl e \<Rightarrow> Inl (Err (- e))
               | Inr ds \<Rightarrow> count_entries (retrieve_total_entries fuel env) path ds 0)"

section \<open>Opening\<close>

definition inotify_null :: xal_inotify where
  "inotify_null = \<lparr>watch_mode = XAL_WATCHMODE_NONE, inotify_fd = 0, inode_map = (\<lambda>_. None),
     watch_thread = 0, inotify_flag = 0, watch_cb = False\<rparr>"

definition open_watch :: "fs_env \<Rightarrow> xal_opts \<Rightarrow> xal \<Rightarrow> (unit, xal) outcome" where
  "open_watch env opts x =
     (if opt_watch_mode opts = XAL_WATCHMODE_NONE then (Inr (), x)
      else if \<not> fs_alloc_ok env AllocInotify then (Inl (Err (- ENOMEM)), x)
      else case xal_be_fiemap_inotify_init env inotify_null (opt_watch_mode opts) of
             (r, i) \<Rightarrow> (r, x\<lparr>inotify := Some i\<rparr>))"

text \<open>The names of the two shared memory objects, from the name in the options.\<close>

definition shm_part :: "xal_opts \<Rightarrow> string \<Rightarrow> cstr option" where
  "shm_part opts suffix = (case opt_shm_name opts of None \<Rightarrow> None | Some nm \<Rightarrow> Some (nm @ bytes_of suffix))"

definition shm_name_too_long :: "xal_opts \<Rightarrow> bool" where
  "shm_name_too_long opts =
     (case opt_shm_name opts of None \<Rightarrow> False | Some nm \<Rightarrow> XAL_PATH_MAXLEN < length nm)"

definition open_pools :: "fs_env \<Rightarrow> xal_opts \<Rightarrow> u32 \<Rightarrow> xal \<Rightarrow> (unit, xal) outcome" where
  "open_pools env opts n x =
     (case xal_pool_map (fs_inodes_os env) (inodes x) 40000000 (scast n) 312 (shm_part opts ''_inodes'') of
        (Inl e, p) \<Rightarrow> (Inl e, x\<lparr>inodes := p\<rparr>)
      | (Inr _, p) \<Rightarrow>
          (case xal_pool_map (fs_extents_os env) (extents x) 40000000 (scast n) 25
                  (shm_part opts ''_extents'') of
             (r, q) \<Rightarrow> (r, x\<lparr>inodes := p, extents := q\<rparr>)))"

definition open_state :: "cstr \<Rightarrow> xal" where
  "open_state mnt = xal_null\<lparr>root_idx := XAL_POOL_IDX_NONE, be_type := XAL_BACKEND_FIEMAP, mountpoint := mnt\<rparr>"

definition xal_be_fiemap_open :: "nat \<Rightarrow> fs_env \<Rightarrow> cstr option \<Rightarrow> xal_opts \<Rightarrow> fail + xal" where
  "xal_be_fiemap_open fuel env mnt opts =
     (case mnt of
        None \<Rightarrow> Inl (Err (- EINVAL))
      | Some path \<Rightarrow>
          if \<not> fs_alloc_ok env AllocXal then Inl (Err (- ENOMEM))
          else if \<not> fs_alloc_ok env AllocMountpoint then Inl (Err (- ENOMEM))
          else fst (and_then (open_watch env opts (open_state path)) (\<lambda>_ x.
            and_then (lift_s (retrieve_total_entries fuel env path) x) (\<lambda>n x.
            and_then (lift_s (case fs_stat env path of Inl e \<Rightarrow> Inl (Err (- e)) | Inr st \<Rightarrow> Inr st) x) (\<lambda>st x.
              let x = x\<lparr>sb := (sb x)\<lparr>blocksize := ucast (st_blksize st), rootino := st_ino st\<rparr>\<rparr>
              in if shm_name_too_long opts
                 then (Inl (Err (- EINVAL)), x)
                 else and_then (open_pools env opts n x) (\<lambda>_ x.
                   if opt_file_lookupmode opts = XAL_FILE_LOOKUPMODE_HASHMAP then
                     if fs_alloc_ok env AllocPathMap
                     then (Inr (x\<lparr>path_inode_map := Some (\<lambda>_. None)\<rparr>), x)
                     else (Inl (Err (- EINVAL)), x)
                   else (Inr x, x)))))))"

section \<open>Entries of a directory\<close>

text \<open>
  The names are copied into an array that starts with room for 64 pointers and doubles; the two
  counters are the capacity and the names so far. An allocation of \<open>2 ^ 63\<close> bytes or more fails
  (the manual page of \<open>malloc\<close>: more than \<open>PTRDIFF_MAX\<close>).
\<close>

fun collect_names :: "fs_env \<Rightarrow> dirent list \<Rightarrow> nat \<Rightarrow> cstr list \<Rightarrow> fail + cstr list" where
  "collect_names env [] capacity names = Inr names"
| "collect_names env (d # ds) capacity names =
     (if \<not> is_directory_member (d_name d) then collect_names env ds capacity names
      else
        let full = (length names = capacity);
            capacity' = (if full then (if capacity \<noteq> 0 then capacity * 2 else 64) else capacity)
        in if full \<and> (2 ^ 63 \<le> capacity' * 8 \<or> \<not> fs_alloc_ok env (AllocEntries (capacity' * 8))) then Inl (Err (- ENOMEM))
           else if \<not> fs_alloc_ok env (AllocName (d_name d)) then Inl (Err (- ENOMEM))
           else collect_names env ds capacity' (names @ [d_name d]))"

text \<open>
  \<open>qsort\<close> with \<open>compare_dirent\<close>. Names that compare equal are equal, so the result does not
  depend on the algorithm of the C library.
\<close>

definition compare_dirent :: "cstr \<Rightarrow> cstr \<Rightarrow> int" where
  "compare_dirent a b = strcmp a b"

fun insert_name :: "cstr \<Rightarrow> cstr list \<Rightarrow> cstr list" where
  "insert_name a [] = [a]"
| "insert_name a (b # bs) = (if compare_dirent a b \<le> 0 then a # b # bs else b # insert_name a bs)"

definition sort_names :: "cstr list \<Rightarrow> cstr list" where
  "sort_names names = foldr insert_name names []"

section \<open>Claiming and the map of paths\<close>

definition fs_claim_inodes :: "fs_env \<Rightarrow> u64 \<Rightarrow> xal \<Rightarrow> (u32, xal) outcome" where
  "fs_claim_inodes env n x =
     (case xal_pool_claim_inodes (fs_inodes_os env) (inodes x) n of (r, p) \<Rightarrow> (r, x\<lparr>inodes := p\<rparr>))"

definition fs_claim_extents :: "fs_env \<Rightarrow> u64 \<Rightarrow> xal \<Rightarrow> (u32, xal) outcome" where
  "fs_claim_extents env n x =
     (case xal_pool_claim_extents (fs_extents_os env) (extents x) n of (r, p) \<Rightarrow> (r, x\<lparr>extents := p\<rparr>))"

text \<open>
  \<open>kh_put\<close> of an inode under its name. The key of an entry is the pointer to the name in the pool,
  so a lookup compares with the name that is there at the time of the lookup.
\<close>

definition put_path_inode :: "fs_env \<Rightarrow> nat \<Rightarrow> xal \<Rightarrow> (unit, xal) outcome" where
  "put_path_inode env self x =
     (case path_inode_map x of
        None \<Rightarrow> (Inr (), x)
      | Some m \<Rightarrow>
          let key = cstr_of (name (xal_inode_at x self))
          in if fs_kh_put_ok env key then (Inr (), x\<lparr>path_inode_map := Some (m(key \<mapsto> self))\<rparr>)
             else (Inl (Err (- EIO)), x))"

definition get_path_inode :: "xal \<Rightarrow> (cstr \<Rightarrow> nat option) \<Rightarrow> cstr \<Rightarrow> nat option" where
  "get_path_inode x m path =
     (case m path of
        None \<Rightarrow> None
      | Some j \<Rightarrow> if cstr_of (name (xal_inode_at x j)) = path then Some j else None)"

section \<open>Directories\<close>

definition watch_directory :: "fs_env \<Rightarrow> cstr \<Rightarrow> nat \<Rightarrow> xal \<Rightarrow> (unit, xal) outcome" where
  "watch_directory env path self x =
     (case inotify x of
        None \<Rightarrow> (Inr (), x)
      | Some i \<Rightarrow>
          (case xal_be_fiemap_inotify_add_watcher env path self (xal_inode_at x self) i of
             (r, i) \<Rightarrow> (r, x\<lparr>inotify := Some i\<rparr>)))"

definition mod_content :: "nat \<Rightarrow> (xal_content \<Rightarrow> xal_content) \<Rightarrow> xal \<Rightarrow> xal" where
  "mod_content i f x = mod_inode i (\<lambda>n. n\<lparr>content := f (content n)\<rparr>) x"

text \<open>One pass of the loop over the sorted names.\<close>

definition name_dentry :: "nat \<Rightarrow> cstr \<Rightarrow> nat \<Rightarrow> xal \<Rightarrow> xal" where
  "name_dentry self dentry_path slot x =
     mod_content self (\<lambda>c. c\<lparr>c_count := c_count c + 1\<rparr>)
       (mod_inode slot (\<lambda>dentry. dentry\<lparr>name := strcpy_into dentry_path (name dentry),
          namelen := of_nat (length dentry_path), parent_idx := xal_inode_idx x self\<rparr>) x)"

definition process_dentry ::
  "(cstr \<Rightarrow> nat \<Rightarrow> xal \<Rightarrow> (unit, xal) outcome) \<Rightarrow> cstr \<Rightarrow> nat \<Rightarrow> cstr \<Rightarrow> xal \<Rightarrow> (unit, xal) outcome" where
  "process_dentry pi path self entry_name x =
     (let c = content (xal_inode_at x self);
          slot = unat (c_idx c + c_count c);
          dentry_path = path @ [47] @ entry_name
      in if XAL_INODE_NAME_MAXLEN < length dentry_path then (Inl (Fault OutOfBounds), x)
         else pi dentry_path slot (name_dentry self dentry_path slot x))"

definition xal_be_fiemap_process_inode_dir ::
  "fs_env \<Rightarrow> (cstr \<Rightarrow> nat \<Rightarrow> xal \<Rightarrow> (unit, xal) outcome) \<Rightarrow> cstr \<Rightarrow> nat \<Rightarrow> xal \<Rightarrow> (unit, xal) outcome" where
  "xal_be_fiemap_process_inode_dir env pi path self x =
     (if \<not> xal_inode_is_dir (xal_inode_at x self) then (Inl (Err (- EINVAL)), x)
      else
        and_then (watch_directory env path self x) (\<lambda>_ x.
        case fs_opendir env path of
          Inl e \<Rightarrow> (Inl (Err (- e)), x)
        | Inr ds \<Rightarrow>
            and_then (lift_s (collect_names env ds 0 []) x) (\<lambda>names x.
            let entries = sort_names names
            in and_then (fs_claim_inodes env (of_nat (length entries)) x) (\<lambda>idx x.
               and_then (for_each (process_dentry pi path self) entries
                           (mod_content self (\<lambda>_. \<lparr>c_idx = idx, c_count = 0\<rparr>) x)) (\<lambda>_ x.
               put_path_inode env self x)))))"

section \<open>Files\<close>

definition no_extent :: fiemap_extent where
  "no_extent = \<lparr>fe_logical = 0, fe_physical = 0, fe_length = 0, fe_flags = 0\<rparr>"

text \<open>
  \<open>extents_size\<close> is an \<open>int\<close>. The kernel writes the extents of the second call into the array,
  which was allocated for that many bytes and zeroed. When the second call fails, the caller frees
  the pointer it had before the reallocation.
\<close>

definition read_fiemap :: "fs_env \<Rightarrow> cstr \<Rightarrow> fail + (u32 \<times> fiemap_extent list)" where
  "read_fiemap env path =
     (case fs_fiemap_count env path of
        Inl e \<Rightarrow> Inl (Err (- e))
      | Inr n \<Rightarrow>
          let extents_size = ucast (56 * (ucast n :: u64)) :: u32;
              total = 32 + scast extents_size :: u64;
              capacity = unat extents_size div 56
          in if \<not> fs_alloc_ok env (AllocFiemapExtents total) then Inl (Err (- ENOMEM))
             else if sint extents_size < 0 then Inl (Fault OutOfBounds)
             else case fs_fiemap_extents env path n of
                    Inl e \<Rightarrow> if fs_realloc_moves env total then Inl (Fault UseAfterFree) else Inl (Err (- e))
                  | Inr (mapped, es) \<Rightarrow>
                      if capacity < length es then Inl (Fault OutOfBounds)
                      else Inr (mapped, es @ replicate (capacity - length es) no_extent))"

definition fiemap_to_extent :: "u32 \<Rightarrow> fiemap_extent \<Rightarrow> xal_extent" where
  "fiemap_to_extent bs e =
     \<lparr>start_offset = fe_logical e div ucast bs, start_block = fe_physical e div ucast bs,
      nblocks = fe_length e div ucast bs, flag = ucast (fe_flags e)\<rparr>"

definition nth_fiemap_extent :: "fiemap_extent list \<Rightarrow> nat \<Rightarrow> xal \<Rightarrow> fail + xal_extent" where
  "nth_fiemap_extent es i x =
     (if length es \<le> i then Inl (Fault OutOfBounds)
      else if blocksize (sb x) = 0 then Inl (Fault DivideByZero)
      else Inr (fiemap_to_extent (blocksize (sb x)) (es ! i)))"

definition store_fiemap :: "fs_env \<Rightarrow> u32 \<Rightarrow> fiemap_extent list \<Rightarrow> nat \<Rightarrow> xal \<Rightarrow> (unit, xal) outcome" where
  "store_fiemap env mapped es self x =
     (if mapped = 0 then (Inr (), x)
      else
        and_then (fs_claim_extents env (ucast mapped) x) (\<lambda>idx x.
          for_each (\<lambda>i x. and_then (lift_s (nth_fiemap_extent es i x) x) (\<lambda>e x.
              (Inr (), put_extent (unat idx + i) e x))) [0..<unat mapped]
            (mod_content self (\<lambda>_. \<lparr>c_idx = idx, c_count = mapped\<rparr>) x)))"

definition xal_be_fiemap_process_inode_file ::
  "fs_env \<Rightarrow> cstr \<Rightarrow> nat \<Rightarrow> xal \<Rightarrow> (unit, xal) outcome" where
  "xal_be_fiemap_process_inode_file env path self x =
     (if \<not> xal_inode_is_file (xal_inode_at x self) then (Inl (Err (- EINVAL)), x)
      else if fs_open env path \<noteq> 0 then (Inl (Err (- fs_open env path)), x)
      else if \<not> fs_alloc_ok env AllocFiemap then (Inr (), x)
      else
        and_then (lift_s (read_fiemap env path) x) (\<lambda>fiemap x.
        and_then (store_fiemap env (fst fiemap) (snd fiemap) self x) (\<lambda>_ x.
          put_path_inode env self x)))"

section \<open>Inodes and the index\<close>

definition fiemap_ftype :: "xal_inode \<Rightarrow> u32 \<Rightarrow> fail + u8" where
  "fiemap_ftype self mode =
     (if ftype self \<noteq> 0 then Inr (ftype self)
      else if S_ISDIR mode then Inr XAL_ODF_DIR3_FT_DIR
      else if S_ISREG mode then Inr XAL_ODF_DIR3_FT_REG_FILE
      else Inl (Err (- EINVAL)))"

fun process_ino_fiemap :: "nat \<Rightarrow> fs_env \<Rightarrow> cstr \<Rightarrow> nat \<Rightarrow> xal \<Rightarrow> (unit, xal) outcome" where
  "process_ino_fiemap 0 env path self x = (Inl (Fault OutOfFuel), x)"
| "process_ino_fiemap (Suc fuel) env path self x =
     (case fs_stat env path of
        Inl e \<Rightarrow> (Inl (stat_error e), x)
      | Inr st \<Rightarrow>
          and_then (lift_s (fiemap_ftype (xal_inode_at x self) (st_mode st)) x) (\<lambda>t x.
          let x = mod_inode self (\<lambda>n. n\<lparr>ftype := t, ino := st_ino st, isize := st_size st\<rparr>) x
          in if t = XAL_ODF_DIR3_FT_DIR then
               xal_be_fiemap_process_inode_dir env (process_ino_fiemap fuel env) path self x
             else if t = XAL_ODF_DIR3_FT_REG_FILE then xal_be_fiemap_process_inode_file env path self x
             else (Inl (Err (- ENOSYS)), x)))"

definition fiemap_root :: "xal \<Rightarrow> nat \<Rightarrow> xal \<Rightarrow> xal" where
  "fiemap_root x0 root x =
     mod_inode root (\<lambda>n. n\<lparr>ino := rootino (sb x0), ftype := XAL_ODF_DIR3_FT_DIR, namelen := 0,
       parent_idx := XAL_POOL_IDX_NONE, content := (content n)\<lparr>c_count := 0\<rparr>\<rparr>) x"

text \<open>The part between the two increments of \<open>seq_lock\<close>; the results of clearing are not read.\<close>

definition fiemap_index_locked :: "nat \<Rightarrow> fs_env \<Rightarrow> xal \<Rightarrow> (unit, xal) outcome" where
  "fiemap_index_locked fuel env x =
     (let x = x\<lparr>inodes := snd (xal_pool_clear (fs_inodes_os env) (inodes x)),
                extents := snd (xal_pool_clear (fs_extents_os env) (extents x)),
                inotify := map_option xal_be_fiemap_inotify_clear_inode_map (inotify x)\<rparr>
      in and_then (fs_claim_inodes env 1 x) (\<lambda>root x.
         and_then (process_ino_fiemap fuel env (mountpoint x) (unat root)
                     (fiemap_root x (unat root) (x\<lparr>root_idx := root\<rparr>))) (\<lambda>_ x.
           (Inr (), x\<lparr>dirty := False\<rparr>))))"

definition xal_be_fiemap_index :: "nat \<Rightarrow> fs_env \<Rightarrow> xal \<Rightarrow> (unit, xal) outcome" where
  "xal_be_fiemap_index fuel env x =
     (if mountpoint x = [] then (Inl (Err (- EINVAL)), x)
      else case fiemap_index_locked fuel env (x\<lparr>seq_lock := seq_lock x + 1\<rparr>) of
             (r, x) \<Rightarrow> (r, x\<lparr>seq_lock := seq_lock x + 1\<rparr>))"

end
