(* ===== verification/Xal_Tree.thy ===== *)
theory Xal_Tree
  imports Xal_Core
begin

text \<open>
  How an index becomes a tree. Both backends build the tree by recursion: processing an inode
  claims a range of positions for its children, fills them in, and processes the children in turn.
  \<open>builds\<close> is the contract of one call; the locale \<open>tree_builder\<close> states it for a step function
  and proves once that the loop over the children extends it to the directory, and that a step at
  the root of an empty pool gives a well-formed tree with no inode left out.
\<close>

section \<open>The pools of a xal\<close>

abbreviation imem :: "xal \<Rightarrow> nat \<Rightarrow> xal_inode" where
  "imem x \<equiv> memory (inodes x)"

abbreviation itop :: "xal \<Rightarrow> nat" where
  "itop x \<equiv> unat (free (inodes x))"

abbreviation etop :: "xal \<Rightarrow> nat" where
  "etop x \<equiv> unat (free (extents x))"

lemma content_same [simp]:
  "n\<lparr>content := \<lparr>c_idx = c_idx (content n), c_count = c_count (content n)\<rparr>\<rparr> = (n :: xal_inode)"
  by simp

lemma imem_put_inode [simp]: "imem (put_inode i v x) = (imem x)(i := v)"
  by (simp add: put_inode_def)

lemma imem_mod_inode [simp]: "imem (mod_inode i f x) = (imem x)(i := f (imem x i))"
  by (simp add: mod_inode_def xal_inode_at_def)

lemma not_dir_and_file: "xal_inode_is_dir n \<Longrightarrow> \<not> xal_inode_is_file n"
  by (simp add: xal_inode_is_dir_def xal_inode_is_file_def)

definition no_content :: "xal_inode \<Rightarrow> bool" where
  "no_content n \<longleftrightarrow> c_count (content n) = 0"

text \<open>The loop that decodes \<open>n\<close> extents into the claimed range from \<open>base\<close> on.\<close>

definition with_extents :: "(nat \<Rightarrow> xal_extent) \<Rightarrow> xal \<Rightarrow> xal" where
  "with_extents m x = x\<lparr>extents := (extents x)\<lparr>memory := m\<rparr>\<rparr>"

lemma put_extents_loop:
  assumes loop: "for_each (\<lambda>rec x. and_then (lift_s (src rec x) x) (\<lambda>e x.
      (Inr (), put_extent (base + rec) e x))) [0..<n] y = (Inr u, x')"
    and src: "\<And>rec m. src rec (with_extents m y) = src rec y"
  shows "\<exists>m. x' = with_extents m y \<and>
    (\<forall>j. j < base \<or> base + n \<le> j \<longrightarrow> m j = memory (extents y) j) \<and>
    (\<forall>rec < n. src rec y = Inr (m (base + rec)))"
proof (rule for_each_upt_invariant [where P = "\<lambda>k s. \<exists>m. s = with_extents m y \<and>
    (\<forall>j. j < base \<or> base + k \<le> j \<longrightarrow> m j = memory (extents y) j) \<and>
    (\<forall>rec < k. src rec y = Inr (m (base + rec)))", OF loop])
  show "\<exists>m. y = with_extents m y \<and> (\<forall>j. j < base \<or> base + 0 \<le> j \<longrightarrow> m j = memory (extents y) j) \<and>
      (\<forall>rec < 0. src rec y = Inr (m (base + rec)))"
    by (rule exI [of _ "memory (extents y)"]) (simp add: with_extents_def)
next
  fix k t t'
  assume "\<exists>m. t = with_extents m y \<and>
    (\<forall>j. j < base \<or> base + k \<le> j \<longrightarrow> m j = memory (extents y) j) \<and>
    (\<forall>rec < k. src rec y = Inr (m (base + rec)))"
    and run: "and_then (lift_s (src k t) t) (\<lambda>e x. (Inr (), put_extent (base + k) e x)) = (Inr (), t')"
  then obtain m where t: "t = with_extents m y"
    and m: "\<And>j. j < base \<or> base + k \<le> j \<Longrightarrow> m j = memory (extents y) j"
      "\<And>rec. rec < k \<Longrightarrow> src rec y = Inr (m (base + rec))" by blast
  from run src [of k m] obtain e where e: "src k y = Inr e" and t': "t' = put_extent (base + k) e t"
    by (auto simp: t elim!: and_then_InrE)
  show "\<exists>m. t' = with_extents m y \<and>
    (\<forall>j. j < base \<or> base + Suc k \<le> j \<longrightarrow> m j = memory (extents y) j) \<and>
    (\<forall>rec < Suc k. src rec y = Inr (m (base + rec)))"
    by (rule exI [of _ "m(base + k := e)"])
      (use m e in \<open>auto simp: t' t with_extents_def put_extent_def less_Suc_eq\<close>)
qed simp

section \<open>Contract\<close>

text \<open>
  Position \<open>i\<close> holds a file, or a directory whose children lie in \<open>lo..<n\<close>, behind it, and know it.
\<close>

definition node_ok :: "(nat \<Rightarrow> xal_inode) \<Rightarrow> nat \<Rightarrow> nat \<Rightarrow> nat \<Rightarrow> bool" where
  "node_ok m lo n i \<longleftrightarrow>
     xal_inode_is_dir (m i) \<and> dir_wf m n i \<and> (\<forall>k < dentries_count (m i). lo \<le> dentries_idx (m i) + k) \<or>
     xal_inode_is_file (m i)"

definition child_of :: "(nat \<Rightarrow> xal_inode) \<Rightarrow> nat \<Rightarrow> nat \<Rightarrow> bool" where
  "child_of m p j \<longleftrightarrow>
     xal_inode_is_dir (m p) \<and> (\<exists>k < dentries_count (m p). j = dentries_idx (m p) + k)"

text \<open>The name and parent of an inode are kept, and its type once it is known.\<close>

definition same_name :: "xal_inode \<Rightarrow> xal_inode \<Rightarrow> bool" where
  "same_name a b \<longleftrightarrow>
     parent_idx a = parent_idx b \<and> name a = name b \<and> namelen a = namelen b \<and>
     (ftype b \<noteq> 0 \<longrightarrow> ftype a = ftype b)"

lemma same_name_simps [simp]:
  "same_name a a" "same_name (a\<lparr>content := c\<rparr>) b = same_name a b"
  by (simp_all add: same_name_def)

lemma same_name_trans: "same_name a b \<Longrightarrow> same_name b c \<Longrightarrow> same_name a c"
  by (auto simp: same_name_def)

text \<open>
  What a call for position \<open>self\<close> has done to the inode memory \<open>m\<close> with \<open>n\<close> inodes claimed: the
  other inodes are untouched, the name and parent of \<open>self\<close> are kept, \<open>self\<close> and all new inodes
  are in order, and every new inode is a child of \<open>self\<close> or of another new inode before it.
\<close>

definition builds :: "(nat \<Rightarrow> xal_inode) \<Rightarrow> nat \<Rightarrow> (nat \<Rightarrow> xal_inode) \<Rightarrow> nat \<Rightarrow> nat \<Rightarrow> bool" where
  "builds m n m' n' self \<longleftrightarrow>
     n \<le> n' \<and> (\<forall>j < n. j \<noteq> self \<longrightarrow> m' j = m j) \<and>
     same_name (m' self) (m self) \<and>
     node_ok m' n n' self \<and> (\<forall>j. n \<le> j \<and> j < n' \<longrightarrow> node_ok m' n n' j) \<and>
     (\<forall>j. n \<le> j \<and> j < n' \<longrightarrow> (\<exists>p. (p = self \<or> n \<le> p) \<and> p < j \<and> child_of m' p j))"

lemma tree_wf_node_ok: "tree_wf m n \<longleftrightarrow> (\<forall>i < n. node_ok m 0 n i)"
  by (auto simp: tree_wf_def node_ok_def)

lemma node_ok_mono:
  assumes ok: "node_ok m lo n i" and "n \<le> n'" and "lo' \<le> lo" and same: "m' i = m i"
    and par: "\<And>j. lo \<le> j \<Longrightarrow> j < n \<Longrightarrow> parent_idx (m' j) = parent_idx (m j)"
  shows "node_ok m' lo' n' i"
proof (cases "xal_inode_is_file (m i)")
  case True
  then show ?thesis by (simp add: node_ok_def same)
next
  case False
  then have d: "xal_inode_is_dir (m i)" "dir_wf m n i"
    and lo: "\<And>k. k < dentries_count (m i) \<Longrightarrow> lo \<le> dentries_idx (m i) + k"
    using ok by (auto simp: node_ok_def)
  have "parent_of m' (dentries_idx (m i) + k) = i" if k: "k < dentries_count (m i)" for k
    using d(2) k par [OF lo [OF k]] by (simp add: dir_wf_def parent_of_def)
  with d lo assms(2,3) have "xal_inode_is_dir (m' i) \<and> dir_wf m' n' i \<and>
      (\<forall>k < dentries_count (m' i). lo' \<le> dentries_idx (m' i) + k)"
    by (auto simp: same dir_wf_def intro: le_trans)
  then show ?thesis by (simp add: node_ok_def)
qed

lemma child_of_same: "child_of m p j \<Longrightarrow> m' p = m p \<Longrightarrow> child_of m' p j"
  by (simp add: child_of_def)

text \<open>Building at the root of an empty pool makes a tree, with every inode below the root.\<close>

lemma builds_root_tree:
  assumes b: "builds m 1 m' n' 0" and "1 \<le> n'"
  shows "tree_wf m' n' \<and> {j. descendant m' 0 j} = {0..<n'}"
proof
  show wf: "tree_wf m' n'"
    unfolding tree_wf_node_ok
  proof (intro allI impI)
    fix i assume "i < n'"
    then have "node_ok m' 1 n' i" using b by (cases "i = 0") (auto simp: builds_def)
    then show "node_ok m' 0 n' i" by (rule node_ok_mono) auto
  qed
  have "descendant m' 0 j" if "j < n'" for j
    using that
  proof (induction j rule: less_induct)
    case (less j)
    show ?case
    proof (cases "j = 0")
      case True
      then show ?thesis by (simp add: descendant.self)
    next
      case False
      then have "1 \<le> j \<and> j < n'" using less.prems by simp
      with b obtain p where p: "p < j" "child_of m' p j"
        unfolding builds_def by blast
      with less have "descendant m' 0 p" by simp
      then show ?thesis
        using p(2) by (induction rule: descendant.induct)
          (auto simp: child_of_def intro: descendant.intros)
    qed
  qed
  moreover have "j < n'" if "descendant m' 0 j" for j
    using descendant_in_subtree [OF that wf, of n'] subtree_bounds [OF wf, of 0 j n'] assms(2) by auto
  ultimately show "{j. descendant m' 0 j} = {0..<n'}" by auto
qed

text \<open>A file takes no inodes.\<close>

lemma file_builds:
  assumes "itop x' = itop x" and "\<And>j. j \<noteq> self \<Longrightarrow> imem x' j = imem x j"
    and "same_name (imem x' self) (imem x self)" and "xal_inode_is_file (imem x' self)"
  shows "builds (imem x) (itop x) (imem x') (itop x') self"
  using assms by (auto simp: builds_def node_ok_def)

lemma builds_from:
  assumes "builds m n m' n' self" and "\<And>j. j \<noteq> self \<Longrightarrow> m j = m0 j" and "same_name (m self) (m0 self)"
  shows "builds m0 n m' n' self"
  using assms by (auto simp: builds_def intro: same_name_trans)

section \<open>Interface\<close>

text \<open>
  The step function of a backend with its state; \<open>mem\<close> and \<open>top\<close> read the inode pool, \<open>ready\<close>
  is what a step expects of its argument and of the inode it is called for, and \<open>inv\<close> is the
  invariant of the state.
\<close>

locale tree_builder =
  fixes step :: "'a \<Rightarrow> nat \<Rightarrow> 's \<Rightarrow> (unit, 's) outcome"
    and mem :: "'s \<Rightarrow> nat \<Rightarrow> xal_inode"
    and top_of :: "'s \<Rightarrow> nat"
    and ready :: "'a \<Rightarrow> nat \<Rightarrow> 's \<Rightarrow> bool"
    and inv :: "'s \<Rightarrow> bool"
  assumes step_inv: "inv s \<Longrightarrow> self < top_of s \<Longrightarrow> ready a self s \<Longrightarrow>
      step a self s = (Inr (), s') \<Longrightarrow> inv s'"
    and step_builds: "inv s \<Longrightarrow> self < top_of s \<Longrightarrow> ready a self s \<Longrightarrow>
      step a self s = (Inr (), s') \<Longrightarrow> builds (mem s) (top_of s) (mem s') (top_of s') self"
begin

text \<open>
  The state of the loop over the children of a directory, after \<open>i\<close> of \<open>c\<close> children, which are
  at the positions from \<open>f\<close> on; \<open>mk i\<close> is the directory itself at that time.
\<close>

definition children_done ::
  "nat \<Rightarrow> nat \<Rightarrow> nat \<Rightarrow> (nat \<Rightarrow> xal_inode) \<Rightarrow> 's \<Rightarrow> nat \<Rightarrow> 's \<Rightarrow> bool" where
  "children_done self f c mk s0 i s \<longleftrightarrow>
     inv s \<and> f + c \<le> top_of s \<and> self < f \<and> mem s self = mk i \<and>
     (\<forall>j < f. j \<noteq> self \<longrightarrow> mem s j = mem s0 j) \<and>
     (\<forall>k < c. i \<le> k \<longrightarrow> mem s (f + k) = mem s0 (f + k)) \<and>
     (\<forall>k < i. parent_of (mem s) (f + k) = self \<and> node_ok (mem s) (f + c) (top_of s) (f + k)) \<and>
     (\<forall>j. f + c \<le> j \<and> j < top_of s \<longrightarrow> node_ok (mem s) (f + c) (top_of s) j) \<and>
     (\<forall>j. f + c \<le> j \<and> j < top_of s \<longrightarrow>
        (\<exists>p. f \<le> p \<and> (p < f + i \<or> f + c \<le> p) \<and> p < j \<and> child_of (mem s) p j))"

lemma children_step:
  assumes d: "children_done self f c mk s0 i s" and i: "i < c"
    and pre: "inv t" "top_of t = top_of s" "\<And>j. j \<noteq> f + i \<Longrightarrow> j \<noteq> self \<Longrightarrow> mem t j = mem s j"
      "mem t self = mk (Suc i)" "parent_of (mem t) (f + i) = self" "ready a (f + i) t"
    and run: "step a (f + i) t = (Inr (), s')"
  shows "children_done self f c mk s0 (Suc i) s'"
proof -
  have sf: "self < f" using d by (simp add: children_done_def)
  have fi: "f + i < top_of t" using d i pre(2) by (auto simp: children_done_def)
  have inv': "inv s'" by (rule step_inv [OF pre(1) fi pre(6) run])
  have b: "builds (mem t) (top_of t) (mem s') (top_of s') (f + i)"
    by (rule step_builds [OF pre(1) fi pre(6) run])
  then have le: "top_of s \<le> top_of s'" by (simp add: builds_def pre(2))
  have fc: "f + c \<le> top_of s" using d by (simp add: children_done_def)
  have same: "mem s' j = mem s j" if "j < top_of s" "j \<noteq> f + i" "j \<noteq> self" for j
    using b that pre(2,3) by (auto simp: builds_def)
  have me: "mem s' self = mk (Suc i)"
    using b pre(2,4) sf fc by (auto simp: builds_def)
  have par_i: "parent_of (mem s') (f + i) = self"
    using b pre(5) by (auto simp: builds_def parent_of_def same_name_def)
  have new: "node_ok (mem s') (f + c) (top_of s') j" if "j = f + i \<or> top_of s \<le> j" "j < top_of s'" for j
  proof (rule node_ok_mono)
    show "node_ok (mem s') (top_of s) (top_of s') j"
      using b that by (auto simp: builds_def pre(2))
  qed (use fc in auto)
  have keep: "node_ok (mem s') (f + c) (top_of s') j"
    if "j < top_of s" "j \<noteq> f + i" "f \<le> j" "node_ok (mem s) (f + c) (top_of s) j" for j
  proof (rule node_ok_mono [where m = "mem s" and m' = "mem s'", OF that(4) le])
    show "mem s' j = mem s j" using same [OF that(1,2)] that(3) sf by simp
    show "parent_idx (mem s' l) = parent_idx (mem s l)" if "f + c \<le> l" "l < top_of s" for l
      using same [OF that(2)] that(1) i sf by simp
  qed simp
  have linked: "\<exists>p. f \<le> p \<and> (p < f + Suc i \<or> f + c \<le> p) \<and> p < j \<and> child_of (mem s') p j"
    if j: "f + c \<le> j" "j < top_of s'" for j
  proof (cases "j < top_of s")
    case True
    with d j(1) obtain p where p: "f \<le> p" "p < f + i \<or> f + c \<le> p" "p < j" "child_of (mem s) p j"
      unfolding children_done_def by blast
    have "mem s' p = mem s p" using p(1,2,3) True i sf by (intro same) auto
    with p show ?thesis by (intro exI [of _ p]) (auto intro: child_of_same)
  next
    case False
    then have "top_of t \<le> j \<and> j < top_of s'" using j(2) pre(2) by simp
    with b obtain p where "p = f + i \<or> top_of t \<le> p" "p < j" "child_of (mem s') p j"
      unfolding builds_def by blast
    with fc pre(2) show ?thesis by (intro exI [of _ p]) auto
  qed
  show ?thesis
    unfolding children_done_def
  proof (intro conjI allI impI)
    show "node_ok (mem s') (f + c) (top_of s') (f + k)" if "k < Suc i" for k
      using that new keep [of "f + k"] d fc i fi le pre(2) by (cases "k = i") (auto simp: children_done_def)
    show "parent_of (mem s') (f + k) = self" if "k < Suc i" for k
      using that par_i same [of "f + k"] d fc i
      by (cases "k = i") (auto simp: children_done_def parent_of_def)
    show "node_ok (mem s') (f + c) (top_of s') j" if "f + c \<le> j \<and> j < top_of s'" for j
      using that new [of j] keep [of j] d i by (cases "j < top_of s") (auto simp: children_done_def)
    show "mem s' (f + k) = mem s0 (f + k)" if "k < c" "Suc i \<le> k" for k
      using that same [of "f + k"] d fc sf by (auto simp: children_done_def)
    show "mem s' j = mem s0 j" if "j < f" "j \<noteq> self" for j
      using that same [of j] d fc by (auto simp: children_done_def)
    show "mem s' self = mk (Suc i)" by (rule me)
    show "\<exists>p. f \<le> p \<and> (p < f + Suc i \<or> f + c \<le> p) \<and> p < j \<and> child_of (mem s') p j"
      if "f + c \<le> j \<and> j < top_of s'" for j
      using linked that by blast
  qed (use inv' fc le sf in auto)
qed

text \<open>The loop over all children, each pass preparing the child only before the step.\<close>

lemma children_loop:
  assumes loop: "for_each (\<lambda>i s. step (arg i s) (f + i) (pre i s)) [0..<c] s0 = (Inr u, s')"
    and s0: "inv s0" "f + c = top_of s0" "self < f"
    and pre: "\<And>i s. i < c \<Longrightarrow> inv s \<Longrightarrow> f + c \<le> top_of s \<Longrightarrow> mem s (f + i) = mem s0 (f + i) \<Longrightarrow>
      (\<forall>j < f. mem s j = mem s0 j) \<Longrightarrow>
      inv (pre i s) \<and> top_of (pre i s) = top_of s \<and> (\<forall>j. j \<noteq> f + i \<longrightarrow> mem (pre i s) j = mem s j) \<and>
      parent_of (mem (pre i s)) (f + i) = self \<and> ready (arg i s) (f + i) (pre i s)"
  shows "children_done self f c (\<lambda>_. mem s0 self) s0 c s'"
proof (rule for_each_upt_invariant [where P = "children_done self f c (\<lambda>_. mem s0 self) s0", OF loop])
  show "children_done self f c (\<lambda>_. mem s0 self) s0 0 s0" using s0 by (auto simp: children_done_def)
next
  fix i s t'
  assume i: "i < c" and d: "children_done self f c (\<lambda>_. mem s0 self) s0 i s"
    and run: "step (arg i s) (f + i) (pre i s) = (Inr (), t')"
  have p: "inv (pre i s) \<and> top_of (pre i s) = top_of s \<and> (\<forall>j. j \<noteq> f + i \<longrightarrow> mem (pre i s) j = mem s j) \<and>
      parent_of (mem (pre i s)) (f + i) = self \<and> ready (arg i s) (f + i) (pre i s)"
    using d i by (intro pre) (fastforce simp: children_done_def)+
  have sf: "self < f" and me: "mem s self = mem s0 self" using d by (auto simp: children_done_def)
  show "children_done self f c (\<lambda>_. mem s0 self) s0 (Suc i) t'"
    by (rule children_step [OF d i _ _ _ _ _ _ run]) (use p me sf in auto)
qed simp

text \<open>A directory whose entry names the claimed range is built when the loop is done.\<close>

lemma directory_builds:
  assumes d: "children_done self f c mk s0 c s'"
    and self: "self < f" "xal_inode_is_dir (mk c)"
      "dentries_count (mk c) = c" "0 < c \<Longrightarrow> dentries_idx (mk c) = f"
    and idx: "dentries_idx (mk c) \<le> f"
    and orig: "\<And>j. j < f \<Longrightarrow> j \<noteq> self \<Longrightarrow> mem s0 j = m j"
    and kept: "same_name (mk c) (m self)"
  shows "builds m f (mem s') (top_of s') self"
proof -
  have same: "mem s' j = mem s0 j" if "j < f" "j \<noteq> self" for j using d that by (auto simp: children_done_def)
  have me: "mem s' self = mk c" using d by (simp add: children_done_def)
  have fc: "f + c \<le> top_of s'" using d by (simp add: children_done_def)
  have kids: "parent_of (mem s') (f + k) = self" "node_ok (mem s') (f + c) (top_of s') (f + k)"
    if "k < c" for k using d that by (auto simp: children_done_def)
  have dir: "dir_wf (mem s') (top_of s') self \<and> (\<forall>k < dentries_count (mem s' self). f \<le> dentries_idx (mem s' self) + k)"
    using self idx fc kids(1) by (cases "c = 0") (auto simp: dir_wf_def me)
  have ok: "node_ok (mem s') f (top_of s') j" if "f \<le> j" "j < top_of s'" for j
  proof (rule node_ok_mono)
    show "node_ok (mem s') (f + c) (top_of s') j"
      using d that kids(2) [of "j - f"] by (cases "j < f + c") (auto simp: children_done_def)
  qed auto
  have link: "\<exists>p. (p = self \<or> f \<le> p) \<and> p < j \<and> child_of (mem s') p j" if "f \<le> j" "j < top_of s'" for j
  proof (cases "j < f + c")
    case True
    then have "child_of (mem s') self j"
      using self that(1) unfolding child_of_def
      by (auto simp: me intro!: exI [of _ "j - f"])
    with self(1) that(1) show ?thesis by auto
  next
    case False
    with d that(2) obtain p where "f \<le> p" "p < j" "child_of (mem s') p j"
      unfolding children_done_def by (meson not_less)
    then show ?thesis by blast
  qed
  show ?thesis
    unfolding builds_def
    using fc same orig kept dir ok link self(2)
    by (auto simp: node_ok_def [of _ _ _ self] me)
qed

text \<open>A step at the root of a pool that holds nothing else.\<close>

lemma root_step_tree:
  assumes "inv s" and "top_of s = 1" and "ready a 0 s" and "step a 0 s = (Inr (), s')"
  shows "inv s' \<and> 1 \<le> top_of s' \<and> tree_wf (mem s') (top_of s') \<and>
    {j. descendant (mem s') 0 j} = {0..<top_of s'}"
proof -
  have b: "builds (mem s) (top_of s) (mem s') (top_of s') 0"
    by (rule step_builds [OF assms(1) _ assms(3,4)]) (simp add: assms(2))
  have i: "inv s'"
    by (rule step_inv [OF assms(1) _ assms(3,4)]) (simp add: assms(2))
  have "1 \<le> top_of s'" using b assms(2) by (simp add: builds_def)
  with b i builds_root_tree [of "mem s" "mem s'" "top_of s'"] assms(2) show ?thesis by simp
qed

end

end
