(* ===== verification/Xal_Fiemap_Index.thy ===== *)
theory Xal_Fiemap_Index
  imports Xal_Fiemap Xal_Tree
begin

text \<open>
  What indexing with the FIEMAP backend guarantees. \<open>mirrors\<close> says that a position of the inode pool
  agrees with the file system: a directory has exactly the entries of \<open>opendir\<close>, in the order of
  \<open>strcmp\<close>, each under its full path, a file exactly the extents of its two \<open>FS_IOC_FIEMAP\<close> calls, and
  both are in the map of paths. \<open>process_ino_fiemap\<close> is a \<open>tree_builder\<close> that keeps \<open>mirrors\<close>, and a
  bound on the depth of the file system bounds its recursion.
\<close>

section \<open>Names of a directory\<close>

definition dir_names :: "dirent list \<Rightarrow> cstr list" where
  "dir_names ds = sort_names (filter is_directory_member (map d_name ds))"

lemma collect_names_ok:
  "collect_names env ds capacity names = Inr ns \<Longrightarrow>
   ns = names @ filter is_directory_member (map d_name ds)"
  by (induction env ds capacity names arbitrary: ns rule: collect_names.induct)
    (auto simp: Let_def split: if_splits)

lemma collect_names_bound:
  assumes "collect_names env ds capacity names = Inr ns" and "length names \<le> capacity" and "capacity * 8 < 2 ^ 63"
  shows "length ns * 8 < 2 ^ 63"
  using assms
proof (induction env ds capacity names arbitrary: ns rule: collect_names.induct)
  case (2 env d ds capacity names)
  define full where "full = (length names = capacity)"
  define cap' where "cap' = (if full then if capacity \<noteq> 0 then capacity * 2 else 64 else capacity)"
  show ?case
  proof (cases "is_directory_member (d_name d)")
    case True
    with 2(3) have ok: "\<not> (full \<and> (2 ^ 63 \<le> cap' * 8 \<or> \<not> fs_alloc_ok env (AllocEntries (cap' * 8))))"
        "fs_alloc_ok env (AllocName (d_name d))"
      and r: "collect_names env ds cap' (names @ [d_name d]) = Inr ns"
      by (auto simp: Let_def full_def cap'_def split: if_splits)
    show ?thesis
    proof (rule 2(2) [OF _ full_def cap'_def])
      show "length (names @ [d_name d]) \<le> cap'" using 2(4) by (auto simp: cap'_def full_def)
      show "cap' * 8 < 2 ^ 63" using ok 2(5) by (auto simp: cap'_def)
    qed (use True ok r in auto)
  next
    case False
    with 2 show ?thesis by simp
  qed
qed simp

lemma mset_insert_name [simp]: "set (insert_name a bs) = insert a (set bs)" "length (insert_name a bs) = Suc (length bs)"
  by (induction a bs rule: insert_name.induct) auto

lemma set_sort_names [simp]: "set (sort_names ns) = set ns" "length (sort_names ns) = length ns"
  by (induction ns) (auto simp: sort_names_def)

lemma distinct_insert_name [simp]: "distinct (insert_name a bs) \<longleftrightarrow> a \<notin> set bs \<and> distinct bs"
  by (induction a bs rule: insert_name.induct) auto

lemma distinct_sort_names [simp]: "distinct (sort_names ns) = distinct ns"
proof (induction ns)
  case (Cons n ns)
  then show ?case
    using set_sort_names(1) [of ns] by (simp add: sort_names_def)
qed (simp add: sort_names_def)

text \<open>Increasing in the order of \<open>strcmp\<close>.\<close>

abbreviation name_le :: "cstr \<Rightarrow> cstr \<Rightarrow> bool" where
  "name_le a b \<equiv> strcmp a b \<le> 0"

abbreviation name_less :: "cstr \<Rightarrow> cstr \<Rightarrow> bool" where
  "name_less a b \<equiv> strcmp a b < 0"

lemma name_le_less: "name_le a b \<longleftrightarrow> name_less a b \<or> a = b"
  by (auto simp: order_le_less)

lemma name_le_trans: "name_le a b \<Longrightarrow> name_le b c \<Longrightarrow> name_le a c"
  by (auto simp: name_le_less intro: strcmp_less_trans)

lemma name_linear: "\<not> name_le a b \<Longrightarrow> name_less b a"
  using strcmp_swap [of a b] by simp

lemma sorted_insert_name:
  "sorted_wrt name_le bs \<Longrightarrow> sorted_wrt name_le (insert_name a bs)"
proof (induction a bs rule: insert_name.induct)
  case (2 a b bs)
  show ?case
  proof (cases "compare_dirent a b \<le> 0")
    case True
    with 2(2) show ?thesis by (auto simp: compare_dirent_def intro: name_le_trans)
  next
    case False
    with 2 name_linear [of a b] show ?thesis by (auto simp: compare_dirent_def)
  qed
qed simp

lemma sorted_sort_names: "sorted_wrt name_le (sort_names ns)"
  by (induction ns) (auto simp: sort_names_def sorted_insert_name)

lemma strictly_sorted_sort_names: "distinct ns \<Longrightarrow> sorted_wrt name_less (sort_names ns)"
proof -
  assume "distinct ns"
  then have "distinct (sort_names ns)" by simp
  moreover have "sorted_wrt name_le xs \<Longrightarrow> distinct xs \<Longrightarrow> sorted_wrt name_less xs" for xs
    by (induction xs) (auto simp: name_le_less)
  ultimately show ?thesis using sorted_sort_names by blast
qed

section \<open>Agreement with the file system\<close>

definition path_of :: "xal \<Rightarrow> nat \<Rightarrow> cstr" where
  "path_of x p = (if p = 0 then mountpoint x else name (imem x p))"

definition dir_mirrors :: "fs_env \<Rightarrow> xal \<Rightarrow> nat \<Rightarrow> bool" where
  "dir_mirrors env x p \<longleftrightarrow>
     (\<exists>ds. fs_opendir env (path_of x p) = Inr ds \<and>
        dentries_count (imem x p) = length (dir_names ds) \<and>
        dentries_idx (imem x p) + length (dir_names ds) \<le> itop x \<and>
        (\<forall>k < length (dir_names ds).
           name (imem x (dentries_idx (imem x p) + k)) = path_of x p @ 47 # dir_names ds ! k \<and>
           length (path_of x p @ 47 # dir_names ds ! k) \<le> XAL_INODE_NAME_MAXLEN \<and>
           namelen (imem x (dentries_idx (imem x p) + k)) = of_nat (length (path_of x p @ 47 # dir_names ds ! k))))"

definition file_mirrors :: "fs_env \<Rightarrow> xal \<Rightarrow> nat \<Rightarrow> bool" where
  "file_mirrors env x p \<longleftrightarrow>
     \<not> fs_alloc_ok env AllocFiemap \<and> extents_count (imem x p) = 0 \<or>
     (\<exists>m es. read_fiemap env (path_of x p) = Inr (m, es) \<and> extents_count (imem x p) = unat m \<and>
        (m = 0 \<or> extents_idx (imem x p) + unat m \<le> etop x \<and> unat m \<le> length es \<and>
           (\<forall>i < unat m. memory (extents x) (extents_idx (imem x p) + i)
              = fiemap_to_extent (blocksize (sb x)) (es ! i))))"

text \<open>What the two maps know, as far as they exist.\<close>

definition key_known :: "xal \<Rightarrow> cstr \<Rightarrow> bool" where
  "key_known x key =
     (case path_inode_map x of
        None \<Rightarrow> True
      | Some m \<Rightarrow> (case m key of
          None \<Rightarrow> False
        | Some j \<Rightarrow> j < itop x \<and> ftype (imem x j) \<noteq> 0 \<and> cstr_of (name (imem x j)) = key))"

definition watching :: "xal \<Rightarrow> bool" where
  "watching x = (case inotify x of None \<Rightarrow> False | Some i \<Rightarrow> watch_mode i \<noteq> XAL_WATCHMODE_NONE)"

definition wd_known :: "xal \<Rightarrow> int \<Rightarrow> bool" where
  "wd_known x wd = (case inotify x of None \<Rightarrow> False | Some i \<Rightarrow> inode_map i wd \<noteq> None)"

definition in_path_map :: "xal \<Rightarrow> nat \<Rightarrow> bool" where
  "in_path_map x p = key_known x (cstr_of (name (imem x p)))"

definition is_watched :: "fs_env \<Rightarrow> xal \<Rightarrow> nat \<Rightarrow> bool" where
  "is_watched env x p \<longleftrightarrow>
     (watching x \<longrightarrow> (\<exists>wd. fs_add_watch env (path_of x p) = Inr wd \<and> wd_known x wd))"

definition mirrors :: "fs_env \<Rightarrow> xal \<Rightarrow> nat \<Rightarrow> bool" where
  "mirrors env x p \<longleftrightarrow>
     (ftype (imem x p) \<noteq> 0 \<longrightarrow>
        (\<exists>st. fs_stat env (path_of x p) = Inr st \<and> ino (imem x p) = st_ino st \<and> isize (imem x p) = st_size st)) \<and>
     (xal_inode_is_dir (imem x p) \<longrightarrow> dir_mirrors env x p \<and> in_path_map x p \<and> is_watched env x p) \<and>
     (xal_inode_is_file (imem x p) \<longrightarrow>
        file_mirrors env x p \<and> (fs_alloc_ok env AllocFiemap \<longrightarrow> in_path_map x p))"

text \<open>Every watch descriptor stands for a directory of the pool that is watched under it.\<close>

definition watch_ok :: "fs_env \<Rightarrow> xal \<Rightarrow> bool" where
  "watch_ok env x \<longleftrightarrow>
     (\<forall>i wd j. inotify x = Some i \<and> inode_map i wd = Some j \<longrightarrow>
        j < itop x \<and> xal_inode_is_dir (imem x j) \<and> fs_add_watch env (path_of x j) = Inr wd)"

definition fs_good :: "fs_env \<Rightarrow> xal \<Rightarrow> bool" where
  "fs_good env x \<longleftrightarrow>
     pool_wf (inodes x) \<and> mprotect_bounded (fs_inodes_os env) (inodes x) \<and>
     pool_room (inodes x) = unat (reserved (inodes x)) \<and>
     pool_wf (extents x) \<and> mprotect_bounded (fs_extents_os env) (extents x)"

text \<open>The invariant while the inodes of \<open>open_set\<close> are being processed.\<close>

definition mirror_inv :: "fs_env \<Rightarrow> nat set \<Rightarrow> xal \<Rightarrow> bool" where
  "mirror_inv env open_set x \<longleftrightarrow>
     fs_good env x \<and> watch_ok env x \<and> (\<forall>p < itop x. p \<notin> open_set \<longrightarrow> mirrors env x p)"

lemma mirror_inv_mono: "mirror_inv env A x \<Longrightarrow> A \<subseteq> B \<Longrightarrow> mirror_inv env B x"
  by (auto simp: mirror_inv_def)

section \<open>What processing never undoes\<close>

definition kept_name :: "xal_inode \<Rightarrow> xal_inode \<Rightarrow> bool" where
  "kept_name a b \<longleftrightarrow>
     (name a \<noteq> [] \<or> ftype a \<noteq> 0 \<longrightarrow> name b = name a \<and> namelen b = namelen a) \<and>
     (ftype a \<noteq> 0 \<longrightarrow> ftype b = ftype a)"

definition kept_maps :: "xal \<Rightarrow> xal \<Rightarrow> bool" where
  "kept_maps x y \<longleftrightarrow>
     (path_inode_map y = None \<longleftrightarrow> path_inode_map x = None) \<and> (watching y \<longleftrightarrow> watching x) \<and>
     (\<forall>key. key_known x key \<longrightarrow> key_known y key) \<and> (\<forall>wd. wd_known x wd \<longrightarrow> wd_known y wd)"

definition grows :: "xal \<Rightarrow> xal \<Rightarrow> bool" where
  "grows x y \<longleftrightarrow>
     itop x \<le> itop y \<and> etop x \<le> etop y \<and> (\<forall>j < itop x. kept_name (imem x j) (imem y j)) \<and>
     (\<forall>e < etop x. memory (extents y) e = memory (extents x) e) \<and>
     sb y = sb x \<and> mountpoint y = mountpoint x \<and> root_idx y = root_idx x \<and> seq_lock y = seq_lock x \<and>
     be_type y = be_type x \<and> kept_maps x y"

lemma kept_name_refl [simp]: "kept_name a a"
  by (simp add: kept_name_def)

lemma kept_name_trans: "kept_name a b \<Longrightarrow> kept_name b c \<Longrightarrow> kept_name a c"
  by (auto simp: kept_name_def)

lemma kept_maps_trans: "kept_maps x y \<Longrightarrow> kept_maps y z \<Longrightarrow> kept_maps x z"
  by (simp add: kept_maps_def)

lemma grows_refl [simp]: "grows x x"
  by (auto simp: grows_def kept_maps_def)

lemma grows_trans: "grows x y \<Longrightarrow> grows y z \<Longrightarrow> grows x z"
  unfolding grows_def by (auto intro: kept_name_trans kept_maps_trans)

lemma grows_path: "grows x y \<Longrightarrow> p < itop x \<Longrightarrow> ftype (imem x p) \<noteq> 0 \<Longrightarrow> path_of y p = path_of x p"
  by (auto simp: grows_def path_of_def kept_name_def)

lemma in_path_map_grows:
  assumes "grows x y" and "name (imem y p) = name (imem x p)" and "in_path_map x p"
  shows "in_path_map y p"
  using assms by (simp add: grows_def kept_maps_def in_path_map_def)

lemma is_watched_grows:
  assumes "grows x y" and "path_of y p = path_of x p" and "is_watched env x p"
  shows "is_watched env y p"
  using assms by (auto simp: grows_def kept_maps_def is_watched_def)

lemma dir_mirrors_grows:
  assumes g: "grows x y" and p: "content (imem y p) = content (imem x p)" "path_of y p = path_of x p"
    and d: "dir_mirrors env x p"
  shows "dir_mirrors env y p"
proof -
  have idx: "dentries_idx (imem y p) = dentries_idx (imem x p)" "dentries_count (imem y p) = dentries_count (imem x p)"
    using p(1) by (simp_all add: content_defs)
  from d obtain ds where ds: "fs_opendir env (path_of x p) = Inr ds"
      "dentries_count (imem x p) = length (dir_names ds)"
      "dentries_idx (imem x p) + length (dir_names ds) \<le> itop x"
    and kids: "\<And>k. k < length (dir_names ds) \<Longrightarrow>
        name (imem x (dentries_idx (imem x p) + k)) = path_of x p @ 47 # dir_names ds ! k \<and>
        length (path_of x p @ 47 # dir_names ds ! k) \<le> XAL_INODE_NAME_MAXLEN \<and>
        namelen (imem x (dentries_idx (imem x p) + k)) = of_nat (length (path_of x p @ 47 # dir_names ds ! k))"
    unfolding dir_mirrors_def by blast
  have "name (imem y (dentries_idx (imem x p) + k)) = name (imem x (dentries_idx (imem x p) + k)) \<and>
      namelen (imem y (dentries_idx (imem x p) + k)) = namelen (imem x (dentries_idx (imem x p) + k))"
    if "k < length (dir_names ds)" for k
  proof -
    have "dentries_idx (imem x p) + k < itop x" using ds(3) that by simp
    moreover have "name (imem x (dentries_idx (imem x p) + k)) \<noteq> []" using kids [OF that] by simp
    ultimately show ?thesis using g by (simp add: grows_def kept_name_def)
  qed
  with ds kids g show ?thesis
    unfolding dir_mirrors_def p(2) idx by (intro exI [of _ ds]) (auto simp: grows_def)
qed

lemma file_mirrors_grows:
  assumes "grows x y" and "content (imem y p) = content (imem x p)" "path_of y p = path_of x p"
    and "file_mirrors env x p"
  shows "file_mirrors env y p"
  using assms(4) unfolding file_mirrors_def content_defs assms(2,3)
  using assms(1) by (fastforce simp: grows_def)

lemma mirrors_grows:
  assumes "grows x y" and "imem y p = imem x p" and "p < itop x" and "mirrors env x p"
  shows "mirrors env y p"
proof -
  have same: "path_of y p = path_of x p" using assms(1,2) by (simp add: path_of_def grows_def)
  show ?thesis
    using assms(4) in_path_map_grows [OF assms(1)] is_watched_grows [OF assms(1) same]
      dir_mirrors_grows [OF assms(1) _ same] file_mirrors_grows [OF assms(1) _ same]
    by (simp add: mirrors_def assms(2) same)
qed

text \<open>Positions that were only claimed are no part of the tree yet.\<close>

lemma mirrors_unknown: "ftype (imem x p) = 0 \<Longrightarrow> mirrors env x p"
  by (simp add: mirrors_def xal_inode_is_dir_def xal_inode_is_file_def)

lemma watch_ok_grows:
  assumes w: "watch_ok env x" and g: "grows x y" and same: "inotify y = inotify x"
  shows "watch_ok env y"
  unfolding watch_ok_def
proof (intro allI impI)
  fix i wd j
  assume "inotify y = Some i \<and> inode_map i wd = Some j"
  with w same have j: "j < itop x" "xal_inode_is_dir (imem x j)" "fs_add_watch env (path_of x j) = Inr wd"
    unfolding watch_ok_def by metis+
  then show "j < itop y \<and> xal_inode_is_dir (imem y j) \<and> fs_add_watch env (path_of y j) = Inr wd"
    using grows_path [OF g j(1)] g by (auto simp: grows_def kept_name_def xal_inode_is_dir_def)
qed

lemma mirror_inv_grows:
  assumes inv: "mirror_inv env A x" and g: "grows x y" and "fs_good env y" and "watch_ok env y"
    and m: "\<And>p. p < itop y \<Longrightarrow> p \<notin> B \<Longrightarrow>
      p < itop x \<and> p \<notin> A \<and> imem y p = imem x p \<or> mirrors env y p"
  shows "mirror_inv env B y"
  unfolding mirror_inv_def
proof (intro conjI allI impI)
  show "mirrors env y p" if "p < itop y" "p \<notin> B" for p
    using m [OF that] mirrors_grows [OF g] inv by (auto simp: mirror_inv_def)
qed (rule assms(3,4))+

section \<open>Single operations\<close>

lemma path_of_simps [simp]:
  "path_of (x\<lparr>inotify := i\<rparr>) p = path_of x p" "path_of (x\<lparr>extents := q\<rparr>) p = path_of x p"
  "path_of (x\<lparr>path_inode_map := m\<rparr>) p = path_of x p"
  by (simp_all add: path_of_def)

lemma maps_simps [simp]:
  "key_known (x\<lparr>extents := q\<rparr>) key = key_known x key" "key_known (x\<lparr>inotify := i\<rparr>) key = key_known x key"
  "watching (x\<lparr>extents := q\<rparr>) = watching x" "watching (x\<lparr>inodes := p\<rparr>) = watching x"
  "watching (x\<lparr>path_inode_map := m\<rparr>) = watching x"
  "wd_known (x\<lparr>extents := q\<rparr>) wd = wd_known x wd" "wd_known (x\<lparr>inodes := p\<rparr>) wd = wd_known x wd"
  "wd_known (x\<lparr>path_inode_map := m\<rparr>) wd = wd_known x wd"
  by (auto simp: key_known_def watching_def wd_known_def split: option.splits)

lemma grows_inodes:
  assumes "itop x \<le> unat (free p)" and k: "\<And>j. j < itop x \<Longrightarrow> kept_name (imem x j) (memory p j)"
  shows "grows x (x\<lparr>inodes := p\<rparr>)"
proof -
  have "key_known (x\<lparr>inodes := p\<rparr>) key" if "key_known x key" for key
    using that k assms(1) by (fastforce simp: key_known_def kept_name_def split: option.splits)
  with assms show ?thesis
    by (simp add: grows_def kept_maps_def watching_def wd_known_def)
qed

lemma mod_inode_eq: "mod_inode i f x = x\<lparr>inodes := (inodes x)\<lparr>memory := (imem x)(i := f (imem x i))\<rparr>\<rparr>"
  by (simp add: mod_inode_def put_inode_def xal_inode_at_def)

lemma grows_mod_inode: "kept_name (imem x i) (f (imem x i)) \<Longrightarrow> grows x (mod_inode i f x)"
  unfolding mod_inode_eq by (rule grows_inodes) auto

lemma mod_inode_same [simp]:
  "itop (mod_inode i f x) = itop x" "extents (mod_inode i f x) = extents x"
  "sb (mod_inode i f x) = sb x" "mountpoint (mod_inode i f x) = mountpoint x"
  "inotify (mod_inode i f x) = inotify x" "path_inode_map (mod_inode i f x) = path_inode_map x"
  "seq_lock (mod_inode i f x) = seq_lock x" "root_idx (mod_inode i f x) = root_idx x"
  "be_type (mod_inode i f x) = be_type x"
  by (simp_all add: mod_inode_eq)

lemma mod_content_imem [simp]:
  "imem (mod_content i f x) = (imem x)(i := (imem x i)\<lparr>content := f (content (imem x i))\<rparr>)"
  by (simp add: mod_content_def)

lemma mod_content_same [simp]:
  "itop (mod_content i f x) = itop x" "extents (mod_content i f x) = extents x"
  "sb (mod_content i f x) = sb x" "mountpoint (mod_content i f x) = mountpoint x"
  "inotify (mod_content i f x) = inotify x" "path_inode_map (mod_content i f x) = path_inode_map x"
  "seq_lock (mod_content i f x) = seq_lock x" "root_idx (mod_content i f x) = root_idx x"
  by (simp_all add: mod_content_def)

lemma kept_name_content [simp]: "kept_name a (a\<lparr>content := c\<rparr>)"
  by (simp add: kept_name_def)

lemma grows_mod_content: "grows x (mod_content i f x)"
  unfolding mod_content_def by (rule grows_mod_inode) simp

lemma fs_good_mod_inode: "fs_good env x \<Longrightarrow> i < itop x \<Longrightarrow> fs_good env (mod_inode i f x)"
  by (auto simp: fs_good_def mod_inode_eq pool_wf_def mprotect_bounded_def pool_room_def pool_bytes_def)

lemma fs_good_mod_content: "fs_good env x \<Longrightarrow> i < itop x \<Longrightarrow> fs_good env (mod_content i f x)"
  unfolding mod_content_def by (rule fs_good_mod_inode)

lemma fs_itop_32: "fs_good env x \<Longrightarrow> itop x < 2 ^ 32"
  using pool_wf_room [of "inodes x"] by (auto simp: fs_good_def pool_wf_def)

lemma fs_claim_inodes_ok:
  assumes g: "fs_good env x" and run: "fs_claim_inodes env n x = (Inr i, x')"
  shows "fs_good env x' \<and> unat i = itop x \<and> itop x' = itop x + unat n \<and> grows x x' \<and>
    (\<forall>j < itop x. imem x' j = imem x j) \<and> (\<forall>j. itop x \<le> j \<and> j < itop x' \<longrightarrow> imem x' j = 0) \<and>
    x' = x\<lparr>inodes := inodes x'\<rparr>"
proof -
  from run obtain p where p: "xal_pool_claim_inodes (fs_inodes_os env) (inodes x) n = (Inr i, p)"
    and x': "x' = x\<lparr>inodes := p\<rparr>" by (auto simp: fs_claim_inodes_def split: prod.splits)
  have wf: "pool_wf (inodes x)" "mprotect_bounded (fs_inodes_os env) (inodes x)"
      "pool_room (inodes x) = unat (reserved (inodes x))"
    using g by (simp_all add: fs_good_def)
  note ok = claim_inodes_fresh [OF wf p]
  moreover have "grows x x'" unfolding x' by (rule grows_inodes) (use ok in auto)
  ultimately show ?thesis using g by (simp add: x' fs_good_def)
qed

lemma fs_claim_extents_ok:
  assumes g: "fs_good env x" and run: "fs_claim_extents env n x = (Inr i, x')"
  shows "fs_good env x' \<and> unat i = etop x \<and> etop x' = etop x + unat n \<and> grows x x' \<and>
    (\<forall>e < etop x. memory (extents x') e = memory (extents x) e) \<and> x' = x\<lparr>extents := extents x'\<rparr>"
proof -
  from run obtain p where p: "xal_pool_claim_extents (fs_extents_os env) (extents x) n = (Inr i, p)"
    and x': "x' = x\<lparr>extents := p\<rparr>" by (auto simp: fs_claim_extents_def split: prod.splits)
  have wf: "pool_wf (extents x)" "mprotect_bounded (fs_extents_os env) (extents x)"
    using g by (simp_all add: fs_good_def)
  note ok = claim_extents_ok [OF wf p]
  moreover have "grows x x'"
    using ok by (simp add: x' grows_def kept_maps_def)
  ultimately show ?thesis using g by (simp add: x' fs_good_def)
qed

lemma watch_directory_ok:
  assumes run: "watch_directory env (path_of x self) self x = (Inr u, x')" and self: "self < itop x"
    and w: "watch_ok env x"
  shows "x' = x\<lparr>inotify := inotify x'\<rparr> \<and> grows x x' \<and> watch_ok env x' \<and> is_watched env x' self"
proof (cases "inotify x")
  case None
  with run have "x' = x" by (simp add: watch_directory_def)
  with None w show ?thesis by (simp add: is_watched_def watching_def)
next
  case (Some i)
  with run obtain i' where x': "x' = x\<lparr>inotify := Some i'\<rparr>"
    and a: "xal_be_fiemap_inotify_add_watcher env (path_of x self) self (imem x self) i = (Inr u, i')"
    by (auto simp: watch_directory_def xal_inode_at_def split: prod.splits)
  have d: "xal_inode_is_dir (imem x self)" and m: "watch_mode i' = watch_mode i"
    and e: "inode_map i' = inode_map i \<or>
      (\<exists>wd. fs_add_watch env (path_of x self) = Inr wd \<and> inode_map i' = (inode_map i)(wd \<mapsto> self))"
    using add_watcher_InrD [OF a] by auto
  have "watch_mode i \<noteq> XAL_WATCHMODE_NONE \<longrightarrow>
      (\<exists>wd. fs_add_watch env (path_of x self) = Inr wd \<and> inode_map i' = (inode_map i)(wd \<mapsto> self))"
    using a d by (auto simp: xal_be_fiemap_inotify_add_watcher_def split: if_splits sum.splits)
  then have "is_watched env x' self"
    by (auto simp: is_watched_def x' watching_def wd_known_def m path_of_def)
  moreover have "grows x x'"
    using e by (auto simp: x' grows_def kept_maps_def watching_def wd_known_def Some m)
  moreover have "watch_ok env x'"
  proof -
    have "\<And>wd j. inode_map i wd = Some j \<Longrightarrow>
        j < itop x \<and> xal_inode_is_dir (imem x j) \<and> fs_add_watch env (path_of x j) = Inr wd"
      using w Some unfolding watch_ok_def by blast
    note old = this
    have "j < itop x \<and> xal_inode_is_dir (imem x j) \<and> fs_add_watch env (path_of x j) = Inr wd"
      if "inode_map i' wd = Some j" for wd j
      using e that self d old [of wd j] by (auto split: if_splits)
    then show ?thesis by (simp add: watch_ok_def x')
  qed
  ultimately show ?thesis by (simp add: x')
qed

lemma put_path_inode_ok:
  assumes run: "put_path_inode env self x = (Inr u, x')" and self: "self < itop x" "ftype (imem x self) \<noteq> 0"
  shows "x' = x\<lparr>path_inode_map := path_inode_map x'\<rparr> \<and> grows x x' \<and> in_path_map x' self"
proof (cases "path_inode_map x")
  case None
  with run have "x' = x" by (simp add: put_path_inode_def)
  with None show ?thesis by (simp add: in_path_map_def key_known_def)
next
  case (Some m)
  with run have x': "x' = x\<lparr>path_inode_map := Some (m(cstr_of (name (imem x self)) \<mapsto> self))\<rparr>"
    by (auto simp: put_path_inode_def xal_inode_at_def Let_def split: if_splits)
  have known: "key_known x' key \<longleftrightarrow> key = cstr_of (name (imem x self)) \<or> key_known x key" for key
    using self by (auto simp: x' key_known_def Some split: option.splits)
  with self Some show ?thesis
    by (auto simp: x' grows_def kept_maps_def in_path_map_def)
qed

lemma fs_good_parts [simp]:
  "fs_good env (x\<lparr>inotify := i\<rparr>) = fs_good env x" "fs_good env (x\<lparr>path_inode_map := m\<rparr>) = fs_good env x"
  by (simp_all add: fs_good_def)

section \<open>Files\<close>

lemma with_extents_same [simp]:
  "inodes (with_extents m x) = inodes x" "sb (with_extents m x) = sb x"
  "inotify (with_extents m x) = inotify x" "mountpoint (with_extents m x) = mountpoint x"
  "free (extents (with_extents m x)) = free (extents x)" "memory (extents (with_extents m x)) = m"
  by (simp_all add: with_extents_def)

lemma grows_with_extents:
  assumes "grows x y" and "\<And>e. e < etop x \<Longrightarrow> m e = memory (extents x) e"
  shows "grows x (with_extents m y)"
  using assms by (simp add: grows_def kept_maps_def with_extents_def)

lemma fs_good_with_extents:
  assumes "fs_good env x" and "\<And>j. etop x \<le> j \<Longrightarrow> m j = memory (extents x) j"
  shows "fs_good env (with_extents m x)"
  using assms by (auto simp: fs_good_def with_extents_def pool_wf_def mprotect_bounded_def
      pool_room_def pool_bytes_def)

lemma store_fiemap_ok:
  assumes g: "fs_good env x" and self: "self < itop x"
    and run: "store_fiemap env m es self x = (Inr u, y)" and nz: "m \<noteq> 0"
  shows "fs_good env y \<and> grows x y \<and> itop y = itop x \<and> inotify y = inotify x \<and> sb y = sb x \<and>
    (\<forall>j. j \<noteq> self \<longrightarrow> imem y j = imem x j) \<and>
    (\<exists>idx. imem y self = (imem x self)\<lparr>content := \<lparr>c_idx = idx, c_count = m\<rparr>\<rparr> \<and>
      unat idx = etop x \<and> etop y = etop x + unat m \<and> unat m \<le> length es \<and>
      (\<forall>i < unat m. memory (extents y) (unat idx + i) = fiemap_to_extent (blocksize (sb x)) (es ! i)))"
proof -
  from run nz obtain idx z where cl: "fs_claim_extents env (ucast m) x = (Inr idx, z)"
    and loop: "for_each (\<lambda>i x. and_then (lift_s (nth_fiemap_extent es i x) x) (\<lambda>e x.
        (Inr (), put_extent (unat idx + i) e x))) [0..<unat m]
        (mod_content self (\<lambda>_. \<lparr>c_idx = idx, c_count = m\<rparr>) z) = (Inr u, y)"
    by (auto simp: store_fiemap_def elim!: and_then_InrE)
  note c = fs_claim_extents_ok [OF g cl]
  have m: "unat (ucast m :: u64) = unat m" by (rule unat_ucast_up_eq) simp
  let ?z = "mod_content self (\<lambda>_. \<lparr>c_idx = idx, c_count = m\<rparr>) z"
  have zi: "inodes z = inodes x" "inotify z = inotify x" "sb z = sb x"
  proof -
    obtain q where "z = x\<lparr>extents := q\<rparr>" using c by blast
    then show "inodes z = inodes x" "inotify z = inotify x" "sb z = sb x" by simp_all
  qed
  have src: "nth_fiemap_extent es i (with_extents em w) = nth_fiemap_extent es i w" for i em w
    by (simp add: nth_fiemap_extent_def cong: if_cong)
  obtain em where y: "y = with_extents em ?z"
    and out: "\<And>j. j < unat idx \<or> unat idx + unat m \<le> j \<Longrightarrow> em j = memory (extents ?z) j"
    and val: "\<And>i. i < unat m \<Longrightarrow> nth_fiemap_extent es i ?z = Inr (em (unat idx + i))"
    using put_extents_loop [OF loop src] by blast
  have "fs_good env y"
    unfolding y
  proof (rule fs_good_with_extents)
    show "fs_good env ?z" using c self zi by (simp add: fs_good_mod_content)
    show "em j = memory (extents ?z) j" if "etop ?z \<le> j" for j
      using out that c m by simp
  qed
  moreover have "grows x y"
    unfolding y
  proof (rule grows_with_extents)
    show "grows x ?z" using c grows_mod_content grows_trans by blast
    show "em e = memory (extents x) e" if "e < etop x" for e using out that c by simp
  qed
  moreover have "unat m \<le> length es"
  proof (rule ccontr)
    assume "\<not> unat m \<le> length es"
    then have "length es < unat m" by simp
    from val [OF this] show False by (simp add: nth_fiemap_extent_def)
  qed
  moreover have "em (unat idx + i) = fiemap_to_extent (blocksize (sb x)) (es ! i)" if "i < unat m" for i
    using val [OF that] zi by (auto simp: nth_fiemap_extent_def split: if_splits)
  ultimately show ?thesis
    using c m zi by (auto simp: y)
qed

definition stat_matches :: "fs_env \<Rightarrow> xal \<Rightarrow> nat \<Rightarrow> bool" where
  "stat_matches env x p \<longleftrightarrow>
     (\<exists>st. fs_stat env (path_of x p) = Inr st \<and> ino (imem x p) = st_ino st \<and> isize (imem x p) = st_size st)"

lemma process_file_ok:
  assumes inv: "mirror_inv env (insert self A) x" and self: "self < itop x"
    and raw: "no_content (imem x self)" and st: "stat_matches env x self"
    and run: "xal_be_fiemap_process_inode_file env (path_of x self) self x = (Inr u, x')"
  shows "mirror_inv env (A - {self}) x' \<and> grows x x' \<and> builds (imem x) (itop x) (imem x') (itop x') self"
proof -
  have good: "fs_good env x" and wok: "watch_ok env x" using inv by (simp_all add: mirror_inv_def)
  have reg: "xal_inode_is_file (imem x self)"
    using run by (auto simp: xal_be_fiemap_process_inode_file_def xal_inode_at_def split: if_splits)
  have nd: "\<not> xal_inode_is_dir (imem x self)" using reg not_dir_and_file by blast
  have zero: "extents_count (imem x self) = 0" using raw by (simp add: no_content_def content_defs)
  have old: "p < itop x \<and> p \<notin> insert self A \<and> imem x' p = imem x p \<or> mirrors env x' p"
    if "p < itop x'" "p \<notin> A - {self}" "itop x' = itop x"
      "\<And>j. j \<noteq> self \<Longrightarrow> imem x' j = imem x j" "mirrors env x' self" for p
    using that by (cases "p = self") auto
  show ?thesis
  proof (cases "fs_alloc_ok env AllocFiemap")
    case False
    with run reg have x': "x' = x"
      by (auto simp: xal_be_fiemap_process_inode_file_def xal_inode_at_def split: if_splits)
    have m: "mirrors env x self"
      using False reg nd zero st by (auto simp: mirrors_def file_mirrors_def stat_matches_def)
    have "mirror_inv env (A - {self}) x"
      by (rule mirror_inv_grows [OF inv grows_refl good wok]) (use old m x' in blast)
    moreover have "builds (imem x) (itop x) (imem x) (itop x) self"
      by (rule file_builds) (use reg in auto)
    ultimately show ?thesis by (simp add: x')
  next
    case True
    with run reg obtain m es y where rf: "read_fiemap env (path_of x self) = Inr (m, es)"
      and sf: "store_fiemap env m es self x = (Inr (), y)"
      and put: "put_path_inode env self y = (Inr u, x')"
      by (auto simp: xal_be_fiemap_process_inode_file_def xal_inode_at_def elim!: and_then_InrE split: if_splits)
    have y: "fs_good env y \<and> grows x y \<and> itop y = itop x \<and> inotify y = inotify x \<and> sb y = sb x \<and>
        (\<forall>j. j \<noteq> self \<longrightarrow> imem y j = imem x j) \<and>
        (\<exists>c. imem y self = (imem x self)\<lparr>content := c\<rparr>) \<and>
        (m = 0 \<and> extents_count (imem y self) = 0 \<or>
         extents_count (imem y self) = unat m \<and> extents_idx (imem y self) + unat m \<le> etop y \<and>
         unat m \<le> length es \<and> (\<forall>i < unat m. memory (extents y) (extents_idx (imem y self) + i)
            = fiemap_to_extent (blocksize (sb x)) (es ! i)))"
    proof (cases "m = 0")
      case True
      with sf have "y = x" by (simp add: store_fiemap_def)
      with True good zero show ?thesis by (auto intro: exI [of _ "content (imem x self)"])
    next
      case False
      from store_fiemap_ok [OF good self sf False] show ?thesis by (auto simp: content_defs)
    qed
    have file_y: "xal_inode_is_file (imem y self)" and path_y: "path_of y self = path_of x self"
      using y reg by (auto simp: xal_inode_is_file_def path_of_def grows_def)
    have "self < itop y" "ftype (imem y self) \<noteq> 0"
      using y self file_y by (auto simp: xal_inode_is_file_def)
    note p = put_path_inode_ok [OF put this]
    obtain pm where pm: "x' = y\<lparr>path_inode_map := pm\<rparr>" using p by blast
    have x': "inodes x' = inodes y" "extents x' = extents y" "inotify x' = inotify y" "sb x' = sb y"
        "path_of x' self = path_of y self"
      by (simp_all add: pm)
    have g: "grows x x'" using y p grows_trans by blast
    have good': "fs_good env x'" using y by (simp add: pm)
    have "file_mirrors env x' self"
      unfolding file_mirrors_def x' path_y
      using rf y by (intro disjI2 exI [of _ m] exI [of _ es]) auto
    moreover have "ino (imem y self) = ino (imem x self)" "isize (imem y self) = isize (imem x self)"
      using y by auto
    ultimately have m: "mirrors env x' self"
      using p st file_y not_dir_and_file [of "imem y self"]
      by (auto simp: mirrors_def x' path_y stat_matches_def)
    have "mirror_inv env (A - {self}) x'"
      by (rule mirror_inv_grows [OF inv g good' watch_ok_grows [OF wok g]]) (use old m x' y in auto)
    moreover have "builds (imem x) (itop x) (imem x') (itop x') self"
      by (rule file_builds) (use x' y file_y in auto)
    ultimately show ?thesis using g by simp
  qed
qed

section \<open>Directories\<close>

definition fs_ready :: "cstr \<Rightarrow> nat \<Rightarrow> xal \<Rightarrow> bool" where
  "fs_ready path self x \<longleftrightarrow> path = path_of x self \<and> no_content (imem x self)"

text \<open>The contract of the recursive call.\<close>

definition fs_step_ok :: "fs_env \<Rightarrow> (cstr \<Rightarrow> nat \<Rightarrow> xal \<Rightarrow> (unit, xal) outcome) \<Rightarrow> bool" where
  "fs_step_ok env pi \<longleftrightarrow>
     (\<forall>A path self x x'. mirror_inv env (insert self A) x \<and> self < itop x \<and> fs_ready path self x \<and>
        pi path self x = (Inr (), x') \<longrightarrow>
        mirror_inv env (A - {self}) x' \<and> grows x x' \<and> builds (imem x) (itop x) (imem x') (itop x') self)"

lemma fs_step_builder:
  assumes "fs_step_ok env pi"
  shows "tree_builder pi imem itop fs_ready (mirror_inv env A)"
proof unfold_locales
  fix x self path x'
  assume x: "mirror_inv env A x" "self < itop x" "fs_ready path self x" "pi path self x = (Inr (), x')"
  have "mirror_inv env (insert self A) x" by (rule mirror_inv_mono [OF x(1)]) blast
  with assms x(2-) have ok: "mirror_inv env (A - {self}) x' \<and> builds (imem x) (itop x) (imem x') (itop x') self"
    unfolding fs_step_ok_def by blast
  then show "mirror_inv env A x'" by (blast intro: mirror_inv_mono)
  show "builds (imem x) (itop x) (imem x') (itop x') self" using ok by blast
qed

lemma for_each_nth: "for_each f xs s = for_each (\<lambda>i. f (xs ! i)) [0..<length xs] s"
  by (simp add: for_each_map [symmetric] map_nth)

text \<open>The names of the first \<open>k\<close> children from position \<open>f\<close> on.\<close>

definition named :: "cstr \<Rightarrow> cstr list \<Rightarrow> nat \<Rightarrow> nat \<Rightarrow> xal \<Rightarrow> bool" where
  "named path es f k x \<longleftrightarrow>
     (\<forall>j < k. name (imem x (f + j)) = path @ 47 # es ! j \<and>
        length (path @ 47 # es ! j) \<le> XAL_INODE_NAME_MAXLEN \<and>
        namelen (imem x (f + j)) = of_nat (length (path @ 47 # es ! j)))"

lemma named_grows:
  assumes "named path es f k x" and "grows x y" and "f + k \<le> itop x"
  shows "named path es f k y"
  using assms by (fastforce simp: named_def grows_def kept_name_def)

abbreviation dir_loop_done where
  "dir_loop_done env A self f c mk s0 k s \<equiv>
     tree_builder.children_done imem itop (mirror_inv env (insert self A)) self f c mk s0 k s"

lemma process_dentry_ok:
  assumes pi: "fs_step_ok env pi"
    and d: "dir_loop_done env A self f c mk s0 k s" and g0: "grows s0 s" and nm: "named path es f k s"
    and k: "k < c" and mk: "\<And>i. mk i = d\<lparr>content := \<lparr>c_idx = idx, c_count = of_nat i\<rparr>\<rparr>" and idx: "unat idx = f"
    and zero: "imem s0 (f + k) = 0" and s0: "f + c = itop s0"
    and run: "process_dentry pi path self (es ! k) s = (Inr u, s')"
  shows "dir_loop_done env A self f c mk s0 (Suc k) s' \<and> grows s0 s' \<and> named path es f (Suc k) s'"
proof -
  note tb = fs_step_builder [OF pi]
  note cd = d [unfolded tree_builder.children_done_def [OF tb]]
  have inv: "mirror_inv env (insert self A) s" and top: "f + c \<le> itop s" and sf: "self < f"
    and me: "imem s self = mk k" and slot0: "imem s (f + k) = 0"
    using cd k zero by auto
  have good: "fs_good env s" and wok: "watch_ok env s" using inv by (simp_all add: mirror_inv_def)
  have b32: "f + k < 2 ^ 32" using fs_itop_32 [OF good] top k by simp
  have slot: "unat (idx + of_nat k) = f + k"
    using b32 idx by (subst unat_add_no_wrap) (auto simp: unat_of_nat_small)
  have cnt: "content (xal_inode_at s self) = \<lparr>c_idx = idx, c_count = of_nat k\<rparr>"
    by (simp add: xal_inode_at_def me mk)
  let ?dp = "path @ 47 # es ! k"
  let ?t = "name_dentry self ?dp (f + k) s"
  have len: "length ?dp \<le> XAL_INODE_NAME_MAXLEN" and pr: "pi ?dp (f + k) ?t = (Inr (), s')"
    using run by (auto simp: process_dentry_def Let_def cnt slot split: if_splits)
  have t: "imem ?t = (imem s)(f + k := 0\<lparr>name := ?dp, namelen := of_nat (length ?dp), parent_idx := of_nat self\<rparr>,
      self := mk (Suc k))"
    using sf by (auto simp: name_dentry_def slot0 me mk xal_inode_idx_def add.commute)
  have t_parts: "itop ?t = itop s" "inotify ?t = inotify s"
    by (simp_all add: name_dentry_def)
  have gt: "grows s ?t"
  proof -
    have "grows s (mod_inode (f + k) (\<lambda>dentry. dentry\<lparr>name := strcpy_into ?dp (name dentry),
        namelen := of_nat (length ?dp), parent_idx := xal_inode_idx s self\<rparr>) s)"
      by (rule grows_mod_inode) (simp add: slot0 kept_name_def)
    then show ?thesis unfolding name_dentry_def using grows_mod_content grows_trans by blast
  qed
  have goodt: "fs_good env ?t"
    unfolding name_dentry_def using good top k sf by (intro fs_good_mod_content fs_good_mod_inode) auto
  have invt: "mirror_inv env (insert self A) ?t"
  proof (rule mirror_inv_grows [OF inv gt goodt watch_ok_grows [OF wok gt t_parts(2)]])
    fix p assume p: "p < itop ?t" "p \<notin> insert self A"
    show "p < itop s \<and> p \<notin> insert self A \<and> imem ?t p = imem s p \<or> mirrors env ?t p"
    proof (cases "p = f + k")
      case True
      have "ftype (imem ?t p) = 0" using True sf by (simp add: t)
      then show ?thesis using mirrors_unknown by blast
    next
      case False
      then show ?thesis using p t_parts by (simp add: t)
    qed
  qed
  have ready: "fs_ready ?dp (f + k) ?t"
    using sf by (simp add: fs_ready_def path_of_def t no_content_def)
  have "unat (of_nat self :: u32) = self" using b32 sf by (simp add: unat_of_nat_small)
  then have par: "parent_of (imem ?t) (f + k) = self" using sf by (simp add: parent_of_def t)
  have after: "dir_loop_done env A self f c mk s0 (Suc k) s'"
    by (rule tree_builder.children_step [OF tb d k invt t_parts(1) _ _ par ready pr]) (use sf in \<open>auto simp: t\<close>)
  have fk: "f + k < itop ?t" using t_parts top k by simp
  have "mirror_inv env (insert (f + k) (insert self A)) ?t"
    by (rule mirror_inv_mono [OF invt]) blast
  with pi fk ready pr have gs: "grows ?t s'" unfolding fs_step_ok_def by blast
  have "named path es f (Suc k) ?t"
  proof -
    have "named path es f k ?t" by (rule named_grows [OF nm gt]) (use top k in simp)
    then show ?thesis using len sf by (auto simp: named_def less_Suc_eq t)
  qed
  then have "named path es f (Suc k) s'"
    by (rule named_grows [OF _ gs]) (use t_parts top k in simp)
  with after g0 gt gs show ?thesis by (blast intro: grows_trans)
qed

lemma process_dir_ok:
  assumes pi: "fs_step_ok env pi" and inv: "mirror_inv env (insert self A) x" and self: "self < itop x"
    and st: "stat_matches env x self"
    and run: "xal_be_fiemap_process_inode_dir env pi (path_of x self) self x = (Inr u, x')"
  shows "mirror_inv env (A - {self}) x' \<and> grows x x' \<and> builds (imem x) (itop x) (imem x') (itop x') self"
proof -
  let ?path = "path_of x self"
  have good: "fs_good env x" and wok: "watch_ok env x" using inv by (simp_all add: mirror_inv_def)
  from run obtain x1 ds ns idx z s' where dir: "xal_inode_is_dir (imem x self)"
    and w: "watch_directory env ?path self x = (Inr (), x1)"
    and od: "fs_opendir env ?path = Inr ds" and cn: "collect_names env ds 0 [] = Inr ns"
    and cl: "fs_claim_inodes env (of_nat (length (sort_names ns))) x1 = (Inr idx, z)"
    and loop: "for_each (process_dentry pi ?path self) (sort_names ns)
        (mod_content self (\<lambda>_. \<lparr>c_idx = idx, c_count = 0\<rparr>) z) = (Inr (), s')"
    and put: "put_path_inode env self s' = (Inr u, x')"
    by (auto simp: xal_be_fiemap_process_inode_dir_def xal_inode_at_def Let_def
        elim!: and_then_InrE split: if_splits sum.splits)
  have es: "sort_names ns = dir_names ds" using collect_names_ok [OF cn] by (simp add: dir_names_def)
  let ?es = "dir_names ds"
  let ?c = "length ?es"
  have "length ns * 8 < 2 ^ 63" by (rule collect_names_bound [OF cn]) simp_all
  moreover have "?c = length ns" by (simp flip: es)
  ultimately have "?c < 2 ^ 64" by simp
  then have c64: "unat (of_nat ?c :: u64) = ?c" by (simp add: unat_of_nat_small)
  note wd = watch_directory_ok [OF w self wok]
  obtain i1 where x1: "x1 = x\<lparr>inotify := i1\<rparr>" using wd by blast
  have good1: "fs_good env x1" using good by (simp add: x1)
  note c = fs_claim_inodes_ok [OF good1 cl [unfolded es]]
  let ?f = "itop x"
  have z: "itop z = ?f + ?c" "unat idx = ?f" "\<And>j. j < ?f \<Longrightarrow> imem z j = imem x j"
      "\<And>j. ?f \<le> j \<Longrightarrow> j < ?f + ?c \<Longrightarrow> imem z j = 0"
    using c c64 by (simp_all add: x1)
  obtain zi where zi: "z = x1\<lparr>inodes := zi\<rparr>" using c by blast
  let ?s0 = "mod_content self (\<lambda>_. \<lparr>c_idx = idx, c_count = 0\<rparr>) z"
  let ?mk = "\<lambda>i. (imem x self)\<lparr>content := \<lparr>c_idx = idx, c_count = of_nat i\<rparr>\<rparr>"
  have s0: "imem ?s0 = (imem z)(self := ?mk 0)" using z(3) [OF self] by simp
  have g1: "grows x x1" and gz: "grows x1 z" using wd c by blast+
  have g0: "grows x ?s0" using g1 gz grows_mod_content grows_trans by blast
  have good0: "fs_good env ?s0" using c z self by (intro fs_good_mod_content) auto
  have wok0: "watch_ok env ?s0"
  proof (rule watch_ok_grows)
    show "watch_ok env x1" using wd by blast
    show "grows x1 ?s0" using gz grows_mod_content grows_trans by blast
    show "inotify ?s0 = inotify x1" by (simp add: zi)
  qed
  have inv0: "mirror_inv env (insert self A) ?s0"
  proof (rule mirror_inv_grows [OF inv g0 good0 wok0])
    fix p assume p: "p < itop ?s0" "p \<notin> insert self A"
    show "p < itop x \<and> p \<notin> insert self A \<and> imem ?s0 p = imem x p \<or> mirrors env ?s0 p"
    proof (cases "p < ?f")
      case False
      then have "ftype (imem ?s0 p) = 0" using p z by (auto simp: s0)
      then show ?thesis using mirrors_unknown by blast
    qed (use p z in \<open>auto simp: s0\<close>)
  qed
  note tb = fs_step_builder [OF pi]
  have "dir_loop_done env A self ?f ?c ?mk ?s0 ?c s' \<and> grows ?s0 s' \<and> named ?path ?es ?f ?c s'"
  proof (rule for_each_upt_invariant [where P = "\<lambda>k s. dir_loop_done env A self ?f ?c ?mk ?s0 k s \<and>
        grows ?s0 s \<and> named ?path ?es ?f k s", OF loop [unfolded es, unfolded for_each_nth [of _ ?es]]])
    have "dir_loop_done env A self ?f ?c ?mk ?s0 0 ?s0"
      unfolding tree_builder.children_done_def [OF tb]
      using inv0 z self by (auto simp: s0)
    then show "dir_loop_done env A self ?f ?c ?mk ?s0 0 ?s0 \<and> grows ?s0 ?s0 \<and> named ?path ?es ?f 0 ?s0"
      by (simp add: named_def)
  next
    fix k t t'
    assume k: "k < ?c" and P: "dir_loop_done env A self ?f ?c ?mk ?s0 k t \<and> grows ?s0 t \<and> named ?path ?es ?f k t"
      and r: "process_dentry pi ?path self (?es ! k) t = (Inr (), t')"
    show "dir_loop_done env A self ?f ?c ?mk ?s0 (Suc k) t' \<and> grows ?s0 t' \<and> named ?path ?es ?f (Suc k) t'"
      by (rule process_dentry_ok [OF pi _ _ _ k refl z(2) _ _ r])
        (use P k z self in \<open>auto simp: s0\<close>)
  qed simp
  then have d: "dir_loop_done env A self ?f ?c ?mk ?s0 ?c s'" and gs: "grows ?s0 s'"
    and nm: "named ?path ?es ?f ?c s'" by blast+
  have invs: "mirror_inv env (insert self A) s'" and me: "imem s' self = ?mk ?c" and tops: "?f + ?c \<le> itop s'"
    using d by (simp_all add: tree_builder.children_done_def [OF tb])
  have "?c < 2 ^ 32" using fs_itop_32 [of env s'] invs tops by (simp add: mirror_inv_def)
  then have c32: "unat (of_nat ?c :: u32) = ?c" by (simp add: unat_of_nat_small)
  have cnt: "dentries_count (imem s' self) = ?c" "dentries_idx (imem s' self) = ?f"
    using z c32 by (simp_all add: me content_defs)
  have b: "builds (imem x) ?f (imem s') (itop s') self"
  proof (rule tree_builder.directory_builds [OF tb d self])
    show "xal_inode_is_dir (?mk ?c)" using dir by (simp add: xal_inode_is_dir_def)
    show "imem ?s0 j = imem x j" if "j < ?f" "j \<noteq> self" for j using z that by (simp add: s0)
  qed (use cnt me in simp_all)
  have "self < itop s'" "ftype (imem s' self) \<noteq> 0"
    using self tops dir by (simp_all add: me xal_inode_is_dir_def)
  note p = put_path_inode_ok [OF put this]
  obtain pm where pm: "x' = s'\<lparr>path_inode_map := pm\<rparr>" using p by blast
  have gx: "grows x x'" and g1x: "grows x1 x'" and gsx: "grows s' x'"
    using g0 gz gs p grows_mod_content grows_trans by blast+
  have ft: "ftype (imem x self) \<noteq> 0" using dir by (simp add: xal_inode_is_dir_def)
  have path': "path_of x' self = ?path" by (rule grows_path [OF gx self ft])
  have "dir_mirrors env x' self"
    unfolding dir_mirrors_def path'
    using od tops nm cnt by (intro exI [of _ ds]) (auto simp: named_def pm)
  moreover have "is_watched env x' self"
  proof (rule is_watched_grows [OF g1x])
    show "is_watched env x1 self" using wd by blast
    show "path_of x' self = path_of x1 self" by (simp add: path' x1)
  qed
  moreover have "xal_inode_is_dir (imem x' self)" using dir by (simp add: pm me xal_inode_is_dir_def)
  ultimately have m: "mirrors env x' self"
    using p st not_dir_and_file [of "imem x' self"] by (simp add: mirrors_def stat_matches_def path') (simp add: pm me)
  have "mirror_inv env (A - {self}) x'"
  proof (rule mirror_inv_grows [OF invs gsx])
    show "fs_good env x'" using invs by (simp add: pm mirror_inv_def)
    show "watch_ok env x'" by (rule watch_ok_grows [OF _ gsx]) (use invs in \<open>simp_all add: pm mirror_inv_def\<close>)
    show "p < itop s' \<and> p \<notin> insert self A \<and> imem x' p = imem s' p \<or> mirrors env x' p"
      if "p < itop x'" "p \<notin> A - {self}" for p
      using that m by (cases "p = self") (auto simp: pm)
  qed
  with gx b show ?thesis by (simp add: pm)
qed

section \<open>Inodes\<close>

lemma fs_step_okD:
  assumes "fs_step_ok env pi" and "mirror_inv env (insert self A) x" and "self < itop x"
    and "fs_ready path self x" and "pi path self x = (Inr (), x')"
  shows "mirror_inv env (A - {self}) x' \<and> grows x x' \<and> builds (imem x) (itop x) (imem x') (itop x') self"
  using assms unfolding fs_step_ok_def by blast

lemma process_ino_fiemap_ok: "fs_step_ok env (process_ino_fiemap fuel env)"
proof (induction fuel)
  case 0
  show ?case by (simp add: fs_step_ok_def)
next
  case (Suc fuel)
  have "mirror_inv env (A - {self}) x' \<and> grows x x' \<and> builds (imem x) (itop x) (imem x') (itop x') self"
    if inv: "mirror_inv env (insert self A) x" and self: "self < itop x" and ready: "fs_ready path self x"
      and run: "process_ino_fiemap (Suc fuel) env path self x = (Inr (), x')" for A path self x x'
  proof -
    have path: "path = path_of x self" and raw: "no_content (imem x self)" using ready by (simp_all add: fs_ready_def)
    from run obtain st t where st: "fs_stat env path = Inr st"
      and t: "fiemap_ftype (imem x self) (st_mode st) = Inr t"
      and k: "(let y = mod_inode self (\<lambda>n. n\<lparr>ftype := t, ino := st_ino st, isize := st_size st\<rparr>) x
          in if t = XAL_ODF_DIR3_FT_DIR then
               xal_be_fiemap_process_inode_dir env (process_ino_fiemap fuel env) path self y
             else if t = XAL_ODF_DIR3_FT_REG_FILE then xal_be_fiemap_process_inode_file env path self y
             else (Inl (Err (- ENOSYS)), y)) = (Inr (), x')"
      by (auto simp: xal_inode_at_def elim!: and_then_InrE split: sum.splits)
    let ?y = "mod_inode self (\<lambda>n. n\<lparr>ftype := t, ino := st_ino st, isize := st_size st\<rparr>) x"
    have tk: "ftype (imem x self) \<noteq> 0 \<longrightarrow> t = ftype (imem x self)"
      using t by (auto simp: fiemap_ftype_def)
    have g: "grows x ?y" by (rule grows_mod_inode) (use tk in \<open>auto simp: kept_name_def\<close>)
    have path_y: "path_of ?y self = path" by (simp add: path path_of_def)
    have invy: "mirror_inv env (insert self A) ?y"
    proof (rule mirror_inv_grows [OF inv g])
      show "fs_good env ?y" using inv self by (intro fs_good_mod_inode) (simp_all add: mirror_inv_def)
      show "watch_ok env ?y" by (rule watch_ok_grows [OF _ g]) (use inv in \<open>simp_all add: mirror_inv_def\<close>)
    qed auto
    have sty: "stat_matches env ?y self" using st by (simp add: stat_matches_def path_y)
    have rawy: "no_content (imem ?y self)" using raw by (simp add: no_content_def)
    have self_y: "self < itop ?y" using self by simp
    have "mirror_inv env (A - {self}) x' \<and> grows ?y x' \<and> builds (imem ?y) (itop ?y) (imem x') (itop x') self"
    proof (cases "t = XAL_ODF_DIR3_FT_DIR")
      case True
      with k have "xal_be_fiemap_process_inode_dir env (process_ino_fiemap fuel env) (path_of ?y self) self ?y = (Inr (), x')"
        unfolding path_y by (simp add: Let_def)
      from process_dir_ok [OF Suc.IH invy self_y sty this] show ?thesis .
    next
      case False
      with k have "xal_be_fiemap_process_inode_file env (path_of ?y self) self ?y = (Inr (), x')"
        unfolding path_y by (simp add: Let_def split: if_splits)
      from process_file_ok [OF invy self_y rawy sty this] show ?thesis .
    qed
    moreover have "builds (imem x) (itop x) (imem x') (itop x') self"
      if b: "builds (imem ?y) (itop x) (imem x') (itop x') self"
      by (rule builds_from [OF b]) (use tk in \<open>auto simp: same_name_def\<close>)
    ultimately show ?thesis using g by (auto intro: grows_trans)
  qed
  then show ?case unfolding fs_step_ok_def by blast
qed

interpretation fiemap_tree: tree_builder
  "process_ino_fiemap fuel env" imem itop fs_ready "mirror_inv env A" for fuel env A
  by (rule fs_step_builder [OF process_ino_fiemap_ok])

section \<open>The whole index\<close>

lemma flags_simps [simp]:
  "key_known (x\<lparr>dirty := b\<rparr>) key = key_known x key" "key_known (x\<lparr>seq_lock := n\<rparr>) key = key_known x key"
  "watching (x\<lparr>dirty := b\<rparr>) = watching x" "watching (x\<lparr>seq_lock := n\<rparr>) = watching x"
  "wd_known (x\<lparr>dirty := b\<rparr>) wd = wd_known x wd" "wd_known (x\<lparr>seq_lock := n\<rparr>) wd = wd_known x wd"
  "path_of (x\<lparr>dirty := b\<rparr>) p = path_of x p" "path_of (x\<lparr>seq_lock := n\<rparr>) p = path_of x p"
  "fs_good env (x\<lparr>dirty := b\<rparr>) = fs_good env x" "fs_good env (x\<lparr>seq_lock := n\<rparr>) = fs_good env x"
  by (simp_all add: key_known_def watching_def wd_known_def path_of_def fs_good_def cong: option.case_cong)

lemma mirror_inv_flags [simp]:
  "mirror_inv env A (x\<lparr>dirty := b\<rparr>) = mirror_inv env A x"
  "mirror_inv env A (x\<lparr>seq_lock := n\<rparr>) = mirror_inv env A x"
  by (simp_all add: mirror_inv_def watch_ok_def mirrors_def dir_mirrors_def file_mirrors_def
      in_path_map_def is_watched_def)

text \<open>The state at the start of an index: pools in order, and the last one emptied.\<close>

definition index_start :: "fs_env \<Rightarrow> xal \<Rightarrow> bool" where
  "index_start env x \<longleftrightarrow>
     fs_good env x \<and>
     (free (inodes x) = 0 \<or> os_mprotect (fs_inodes_os env) (reserved (inodes x) * element_size (inodes x)) = 0)"

lemma clear_keeps:
  assumes "pool_wf p" and "mprotect_bounded os p"
  shows "pool_wf (snd (xal_pool_clear os p)) \<and> mprotect_bounded os (snd (xal_pool_clear os p)) \<and>
    (pool_room p = unat (reserved p) \<longrightarrow>
      pool_room (snd (xal_pool_clear os p)) = unat (reserved (snd (xal_pool_clear os p))))"
  using assms clear_ok [of p os "()" "snd (xal_pool_clear os p)"]
  by (auto simp: xal_pool_clear_def Let_def mprotect_bounded_def pool_room_def pool_bytes_def)

lemma fiemap_index_locked_ok:
  assumes start: "index_start env x" and run: "fiemap_index_locked fuel env x = (Inr u, x')"
  shows "mirror_inv env {} x' \<and> root_idx x' = 0 \<and> \<not> dirty x' \<and> 1 \<le> itop x' \<and>
    parent_idx (imem x' 0) = XAL_POOL_IDX_NONE \<and> xal_inode_is_dir (imem x' 0) \<and> name (imem x' 0) = [] \<and>
    tree_wf (imem x') (itop x') \<and> {j. descendant (imem x') 0 j} = {0..<itop x'} \<and>
    seq_lock x' = seq_lock x \<and> mountpoint x' = mountpoint x \<and> sb x' = sb x \<and> be_type x' = be_type x \<and>
    (path_inode_map x' = None \<longleftrightarrow> path_inode_map x = None) \<and> (watching x' \<longleftrightarrow> watching x)"
proof -
  let ?y = "x\<lparr>inodes := snd (xal_pool_clear (fs_inodes_os env) (inodes x)),
              extents := snd (xal_pool_clear (fs_extents_os env) (extents x)),
              inotify := map_option xal_be_fiemap_inotify_clear_inode_map (inotify x)\<rparr>"
  from run obtain root z w where
    cl: "fs_claim_inodes env 1 ?y = (Inr root, z)"
    and p: "process_ino_fiemap fuel env (mountpoint z) (unat root)
        (fiemap_root z (unat root) (z\<lparr>root_idx := root\<rparr>)) = (Inr (), w)"
    and x': "x' = w\<lparr>dirty := False\<rparr>"
    unfolding fiemap_index_locked_def Let_def by (auto simp: fiemap_root_def elim!: and_then_InrE)
  have gy: "fs_good env ?y"
    using start clear_keeps [of "inodes x" "fs_inodes_os env"] clear_keeps [of "extents x" "fs_extents_os env"]
    by (simp add: index_start_def fs_good_def)
  have y0: "itop ?y = 0" using start by (auto simp: index_start_def xal_pool_clear_def Let_def)
  note c = fs_claim_inodes_ok [OF gy cl]
  have root: "root = 0" "itop z = 1" "imem z 0 = 0" using c y0 by (simp_all add: unat_eq_zero)
  obtain zi where zi: "z = ?y\<lparr>inodes := zi\<rparr>" using c by blast
  let ?s = "fiemap_root z 0 (z\<lparr>root_idx := 0\<rparr>)"
  have s: "imem ?s 0 = 0\<lparr>ino := rootino (sb z), ftype := XAL_ODF_DIR3_FT_DIR, namelen := 0,
      parent_idx := XAL_POOL_IDX_NONE\<rparr>" "itop ?s = 1"
    using root by (simp_all add: fiemap_root_def zero_xal_inode_ext_def zero_xal_content_ext_def)
  have goods: "fs_good env ?s"
    unfolding fiemap_root_def using c root by (intro fs_good_mod_inode) (auto simp: fs_good_def)
  have "watch_ok env ?s"
    by (auto simp: watch_ok_def fiemap_root_def zi xal_be_fiemap_inotify_clear_inode_map_def)
  then have inv: "mirror_inv env (insert 0 {}) ?s"
    using goods s by (simp add: mirror_inv_def)
  have ready: "fs_ready (mountpoint z) 0 ?s"
    by (simp add: fs_ready_def path_of_def no_content_def s) (simp add: fiemap_root_def)
  have p0: "process_ino_fiemap fuel env (mountpoint z) 0 ?s = (Inr (), w)" using p root by simp
  have s0: "0 < itop ?s" using s by simp
  have ok: "mirror_inv env {} w \<and> grows ?s w \<and> builds (imem ?s) (itop ?s) (imem w) (itop w) 0"
    using fs_step_okD [OF process_ino_fiemap_ok inv s0 ready p0] by simp
  have tree: "1 \<le> itop w \<and> tree_wf (imem w) (itop w) \<and> {j. descendant (imem w) 0 j} = {0..<itop w}"
    using fiemap_tree.root_step_tree [OF inv s(2) ready p0] by blast
  have w0: "parent_idx (imem w 0) = XAL_POOL_IDX_NONE" "xal_inode_is_dir (imem w 0)" "name (imem w 0) = []"
    using ok s by (simp_all add: builds_def same_name_def xal_inode_is_dir_def)
  have ws: "root_idx w = 0" "seq_lock w = seq_lock x" "mountpoint w = mountpoint x" "sb w = sb x" "be_type w = be_type x"
    using ok by (simp_all add: grows_def fiemap_root_def zi)
  have wm: "(path_inode_map w = None) = (path_inode_map x = None)" "watching w = watching x"
    using ok by (auto simp: grows_def kept_maps_def fiemap_root_def zi watching_def
        xal_be_fiemap_inotify_clear_inode_map_def split: option.splits)
  have "mirror_inv env {} x'"
    using ok by (simp add: x')
  with tree w0 ws wm show ?thesis by (simp add: x')
qed

section \<open>The recursion ends\<close>

definition in_fuel :: "('a, 's) outcome \<Rightarrow> bool" where
  "in_fuel r \<longleftrightarrow> fst r \<noteq> Inl (Fault OutOfFuel)"

lemma in_fuel_simps [simp]:
  "in_fuel (Inr a, s)" "in_fuel (Inl (Err c), s)" "in_fuel (Inl (Fault f), s) \<longleftrightarrow> f \<noteq> OutOfFuel"
  by (simp_all add: in_fuel_def)

lemma in_fuel_and_then:
  assumes "in_fuel r" and "\<And>a s. r = (Inr a, s) \<Longrightarrow> in_fuel (k a s)"
  shows "in_fuel (and_then r k)"
proof (cases r)
  case (Pair q s)
  with assms show ?thesis by (cases q) (auto simp: in_fuel_def)
qed

lemma in_fuel_for_each:
  assumes "\<And>a s. a \<in> set xs \<Longrightarrow> in_fuel (body a s)"
  shows "in_fuel (for_each body xs s)"
  using assms by (induction xs arbitrary: s) (auto intro!: in_fuel_and_then)

lemma in_fuel_claim: "in_fuel (fs_claim_inodes env n x)" "in_fuel (fs_claim_extents env n x)"
  by (auto simp: in_fuel_def fs_claim_inodes_def fs_claim_extents_def pool_defs and_then_def
      split: prod.splits sum.splits if_splits)

lemma in_fuel_collect: "in_fuel (collect_names env ds capacity names, s)"
  by (induction env ds capacity names rule: collect_names.induct) (auto simp: Let_def)

lemma in_fuel_small:
  "in_fuel (watch_directory env path self x)" "in_fuel (put_path_inode env self x)"
  "in_fuel (read_fiemap env path, x)" "in_fuel (nth_fiemap_extent es i y, x)"
  "in_fuel (fiemap_ftype n mode, x)" "in_fuel (Inl (stat_error e), x)"
  by (auto simp: in_fuel_def watch_directory_def xal_be_fiemap_inotify_add_watcher_def put_path_inode_def
      read_fiemap_def nth_fiemap_extent_def fiemap_ftype_def stat_error_def Let_def
      split: option.splits sum.splits if_splits prod.splits)

lemma in_fuel_file: "in_fuel (xal_be_fiemap_process_inode_file env path self x)"
  unfolding xal_be_fiemap_process_inode_file_def store_fiemap_def
  by (auto intro!: in_fuel_and_then in_fuel_small in_fuel_claim in_fuel_for_each)

text \<open>
  \<open>depth_bound env d\<close>: below a directory, \<open>d\<close> decreases with every entry other than the directory itself
  and its parent, as the depth of the subtree does in a file system without loops.
\<close>

definition depth_bound :: "fs_env \<Rightarrow> (cstr \<Rightarrow> nat) \<Rightarrow> bool" where
  "depth_bound env d \<longleftrightarrow>
     (\<forall>path ds. fs_opendir env path = Inr ds \<longrightarrow>
        (\<forall>e \<in> set ds. d_name e \<noteq> bytes_of ''.'' \<longrightarrow> d_name e \<noteq> bytes_of ''..'' \<longrightarrow> d (path @ 47 # d_name e) < d path))"

lemma in_fuel_dir:
  assumes pi: "\<And>ds e slot y. fs_opendir env path = Inr ds \<Longrightarrow> e \<in> set ds \<Longrightarrow> is_directory_member (d_name e) \<Longrightarrow>
    in_fuel (pi (path @ 47 # d_name e) slot y)"
  shows "in_fuel (xal_be_fiemap_process_inode_dir env pi path self x)"
proof -
  have "in_fuel (process_dentry pi path self e y)"
    if "fs_opendir env path = Inr ds" "collect_names env ds 0 [] = Inr ns" "e \<in> set (sort_names ns)" for ds ns e y
    using pi [OF that(1)] collect_names_ok [OF that(2)] that(3) by (auto simp: process_dentry_def Let_def)
  then show ?thesis
    unfolding xal_be_fiemap_process_inode_dir_def Let_def
    by (auto intro!: in_fuel_and_then in_fuel_small in_fuel_claim in_fuel_for_each in_fuel_collect split: sum.splits)
qed

lemma process_ino_fiemap_in_fuel:
  assumes "depth_bound env d"
  shows "d path < fuel \<Longrightarrow> in_fuel (process_ino_fiemap fuel env path self x)"
proof (induction fuel arbitrary: path self x)
  case (Suc fuel)
  have "in_fuel (process_ino_fiemap fuel env (path @ 47 # d_name e) slot y)"
    if "fs_opendir env path = Inr ds" "e \<in> set ds" "is_directory_member (d_name e)" for ds e slot y
  proof (rule Suc.IH)
    have "d (path @ 47 # d_name e) < d path"
      using assms that unfolding depth_bound_def is_directory_member_def by (simp add: bytes_of_def)
    then show "d (path @ 47 # d_name e) < fuel" using Suc.prems by simp
  qed
  then show ?case
    by (auto simp: Let_def intro!: in_fuel_and_then in_fuel_small in_fuel_dir in_fuel_file split: sum.splits)
qed simp

lemma fiemap_index_in_fuel:
  assumes "depth_bound env d" and "d (mountpoint x) < fuel"
  shows "in_fuel (xal_be_fiemap_index fuel env x)"
proof -
  have "in_fuel (fiemap_index_locked fuel env (x\<lparr>seq_lock := n\<rparr>))" for n
    unfolding fiemap_index_locked_def Let_def
  proof (rule in_fuel_and_then [OF in_fuel_claim(1)], goal_cases)
    case (1 root y)
    then have "mountpoint y = mountpoint x" by (auto simp: fs_claim_inodes_def split: prod.splits)
    with assms(2) show ?case by (auto intro!: in_fuel_and_then process_ino_fiemap_in_fuel [OF assms(1)])
  qed
  then show ?thesis
    by (auto simp: xal_be_fiemap_index_def in_fuel_def split: prod.splits) (metis fst_conv)
qed

end
