(* ===== verification/Xal_Fiemap_Mount.thy ===== *)
theory Xal_Fiemap_Mount
  imports Xal_Fiemap_Index
begin

text \<open>
  A small mounted file system with the run of the index on it, and the properties of the FIEMAP
  backend: what a successful index establishes, that it ends, and three error paths.
\<close>

section \<open>A small mount\<close>

text \<open>
  \<open>/m\<close> with a file \<open>b\<close> of one extent and a directory \<open>a\<close> that holds an empty file \<open>c\<close>; the kernel
  lists \<open>b\<close> first.
\<close>

abbreviation mini_m :: cstr where "mini_m \<equiv> [47, 109]"
abbreviation mini_a :: cstr where "mini_a \<equiv> [47, 109, 47, 97]"
abbreviation mini_b :: cstr where "mini_b \<equiv> [47, 109, 47, 98]"
abbreviation mini_c :: cstr where "mini_c \<equiv> [47, 109, 47, 97, 47, 99]"

lemma mini_paths: "mini_m = bytes_of ''/m''" "mini_a = bytes_of ''/m/a''" "mini_b = bytes_of ''/m/b''" "mini_c = bytes_of ''/m/a/c''"
  by code_simp+

definition mini_stat :: "u32 \<Rightarrow> u64 \<Rightarrow> u64 \<Rightarrow> file_stat" where
  "mini_stat mode i n = \<lparr>st_mode = mode, st_ino = i, st_size = n, st_blksize = 4096\<rparr>"

definition mini_fs :: fs_env where
  "mini_fs =
     \<lparr>fs_stat = (\<lambda>p. if p = mini_m then Inr (mini_stat 0x41ED 2 0)
        else if p = mini_a then Inr (mini_stat 0x41ED 3 0)
        else if p = mini_c then Inr (mini_stat 0x81A4 4 0)
        else if p = mini_b then Inr (mini_stat 0x81A4 5 5000)
        else Inl ENOENT),
      fs_opendir = (\<lambda>p. if p = mini_m then
            Inr [\<lparr>d_name = [98], d_is_dir = False\<rparr>, \<lparr>d_name = [46], d_is_dir = True\<rparr>,
                 \<lparr>d_name = [97], d_is_dir = True\<rparr>]
        else if p = mini_a then Inr [\<lparr>d_name = [99], d_is_dir = False\<rparr>]
        else Inl ENOENT),
      fs_open = (\<lambda>p. 0),
      fs_fiemap_count = (\<lambda>p. if p = mini_b then Inr 1 else Inr 0),
      fs_fiemap_extents = (\<lambda>p n. if p = mini_b then
          Inr (1, [\<lparr>fe_logical = 0, fe_physical = 0x10000, fe_length = 0x2000, fe_flags = 1\<rparr>])
        else Inr (0, [])),
      fs_inotify_init = Inr 3,
      fs_add_watch = (\<lambda>p. if p = mini_m then Inr 1 else if p = mini_a then Inr 2 else Inl ENOENT),
      fs_alloc_ok = (\<lambda>_. True), fs_realloc_moves = (\<lambda>_. True),
      fs_kh_put_ok = (\<lambda>_. True), fs_kh_put_wd_ok = (\<lambda>_. True),
      fs_inodes_os = demo_os\<lparr>os_mprotect := (\<lambda>n. if n \<le> 12480000000 then 0 else 12)\<rparr>,
      fs_extents_os = demo_os\<lparr>os_mprotect := (\<lambda>n. if n \<le> 1000000000 then 0 else 12)\<rparr>\<rparr>"

definition mini_pools ::
  "u64 \<Rightarrow> u64 \<Rightarrow> (nat \<Rightarrow> xal_inode) \<Rightarrow> u64 \<Rightarrow> u64 \<Rightarrow> (nat \<Rightarrow> xal_extent) \<Rightarrow> xal \<Rightarrow> xal" where
  "mini_pools a n m ea e em x = x\<lparr>
     inodes := \<lparr>reserved = 40000000, allocated = a, growby = 3, free = n, element_size = 312, memory = m\<rparr>,
     extents := \<lparr>reserved = 40000000, allocated = ea, growby = 3, free = e, element_size = 25, memory = em\<rparr>\<rparr>"

definition mini_xal :: xal where
  "mini_xal = mini_pools 3 0 (\<lambda>_. 0) 3 0 (\<lambda>_. 0) (xal_null\<lparr>be_type := XAL_BACKEND_FIEMAP,
     root_idx := XAL_POOL_IDX_NONE, mountpoint := mini_m, path_inode_map := Some (\<lambda>_. None),
     inotify := Some (inotify_null\<lparr>watch_mode := XAL_WATCHMODE_EXTENT_UPDATE, inotify_fd := 3\<rparr>),
     sb := sb_null\<lparr>rootino := 2, blocksize := 4096, lba_blksze := 512\<rparr>\<rparr>)"

definition mini_state ::
  "u64 \<Rightarrow> (nat \<Rightarrow> xal_inode) \<Rightarrow> u64 \<Rightarrow> u64 \<Rightarrow> (nat \<Rightarrow> xal_extent) \<Rightarrow> (cstr \<Rightarrow> nat option) \<Rightarrow> (int \<Rightarrow> nat option) \<Rightarrow> xal" where
  "mini_state n m ea e em pm wm = mini_pools (if n = 1 then 3 else 6) n m ea e em (xal_null\<lparr>be_type := XAL_BACKEND_FIEMAP,
     root_idx := 0, mountpoint := mini_m, path_inode_map := Some pm,
     inotify := Some (inotify_null\<lparr>watch_mode := XAL_WATCHMODE_EXTENT_UPDATE, inotify_fd := 3, inode_map := wm\<rparr>),
     sb := sb_null\<lparr>rootino := 2, blocksize := 4096, lba_blksze := 512\<rparr>, seq_lock := 1\<rparr>)"

lemmas mini_defs = mini_state_def mini_pools_def xal_null_def inotify_null_def

lemma mini_env [simp]:
  "os_mprotect (fs_inodes_os mini_fs) n = (if n \<le> 12480000000 then 0 else 12)"
  "os_mprotect (fs_extents_os mini_fs) n = (if n \<le> 1000000000 then 0 else 12)"
  "fs_kh_put_ok mini_fs key" "fs_kh_put_wd_ok mini_fs wd"
  "os_mmap (fs_inodes_os mini_fs) n = 0" "os_mmap (fs_extents_os mini_fs) n = 0" "fs_inotify_init mini_fs = Inr 3"
  "fs_add_watch mini_fs mini_m = Inr 1" "fs_add_watch mini_fs mini_a = Inr 2"
  by (simp_all add: mini_fs_def demo_os_def)

lemma zero_elements_zero [simp]:
  "zero_elements a n (\<lambda>_. 0) = (\<lambda>_. 0)"
  "zero_elements (Suc 0) n ((\<lambda>_. 0)(0 := v)) = (\<lambda>_. 0)(0 := v)"
  by (auto simp: zero_elements_def)

lemma mini_state_parts [simp]:
  "imem (mini_state n m ea e em pm wm) = m" "itop (mini_state n m ea e em pm wm) = unat n"
  "memory (extents (mini_state n m ea e em pm wm)) = em" "etop (mini_state n m ea e em pm wm) = unat e"
  "sb (mini_state n m ea e em pm wm) = sb_null\<lparr>rootino := 2, blocksize := 4096, lba_blksze := 512\<rparr>"
  "mountpoint (mini_state n m ea e em pm wm) = mini_m"
  by (simp_all add: mini_defs)

lemma mini_state_ops:
  "xal_inode_at (mini_state n m ea e em pm wm) i = m i"
  "put_inode i v (mini_state n m ea e em pm wm) = mini_state n (m(i := v)) ea e em pm wm"
  "put_extent i w (mini_state n m ea e em pm wm) = mini_state n m ea e (em(i := w)) pm wm"
  "xal_inode_idx (mini_state n m ea e em pm wm) i = of_nat i"
  "put_path_inode mini_fs i (mini_state n m ea e em pm wm) =
     (Inr (), mini_state n m ea e em (pm(cstr_of (name (m i)) \<mapsto> i)) wm)"
  by (simp_all add: mini_defs put_inode_def put_extent_def xal_inode_at_def xal_inode_idx_def
      put_path_inode_def Let_def)

lemma mini_watch:
  "xal_inode_is_dir (m i) \<Longrightarrow>
   watch_directory mini_fs mini_m i (mini_state n m ea e em pm wm) = (Inr (), mini_state n m ea e em pm (wm(1 \<mapsto> i)))"
  "xal_inode_is_dir (m i) \<Longrightarrow>
   watch_directory mini_fs mini_a i (mini_state n m ea e em pm wm) = (Inr (), mini_state n m ea e em pm (wm(2 \<mapsto> i)))"
  by (simp_all add: mini_defs watch_directory_def xal_be_fiemap_inotify_add_watcher_def xal_inode_at_def)

lemma mini_start:
  "fiemap_index_locked fuel mini_fs (mini_xal\<lparr>seq_lock := 1\<rparr>) =
     and_then (process_ino_fiemap fuel mini_fs mini_m 0 (mini_state 1 ((\<lambda>_. 0)(0 :=
         0\<lparr>ino := 2, ftype := 2, parent_idx := XAL_POOL_IDX_NONE\<rparr>)) 0 0 (\<lambda>_. 0) (\<lambda>_. None) (\<lambda>_. None)))
       (\<lambda>_ x. (Inr (), x\<lparr>dirty := False\<rparr>))"
  by (simp add: fiemap_index_locked_def mini_xal_def mini_defs xal_pool_clear_def fs_claim_inodes_def
      xal_pool_claim_inodes_def xal_pool_grow_def Let_def fiemap_root_def mod_inode_def
      put_inode_def xal_inode_at_def xal_be_fiemap_inotify_clear_inode_map_def)
    (simp add: zero_xal_inode_ext_def zero_xal_content_ext_def)

lemma mini_claims:
  "zero_elements (Suc 0) 3 m = m \<Longrightarrow>
   fs_claim_inodes mini_fs 2 (mini_state 1 m ea e em pm wm) = (Inr 1, mini_state 3 m ea e em pm wm)"
  "fs_claim_inodes mini_fs 1 (mini_state 3 m ea e em pm wm) = (Inr 3, mini_state 4 m ea e em pm wm)"
  "fs_claim_extents mini_fs 1 (mini_state n m 0 0 (\<lambda>_. 0) pm wm) = (Inr 0, mini_state n m 3 1 (\<lambda>_. 0) pm wm)"
  by (simp_all add: mini_defs fs_claim_inodes_def fs_claim_extents_def xal_pool_claim_inodes_def
      xal_pool_claim_extents_def xal_pool_grow_def Let_def)

lemma mini_kernel:
  "fs_stat mini_fs mini_m = Inr (mini_stat 0x41ED 2 0)" "fs_stat mini_fs mini_a = Inr (mini_stat 0x41ED 3 0)"
  "fs_stat mini_fs mini_c = Inr (mini_stat 0x81A4 4 0)" "fs_stat mini_fs mini_b = Inr (mini_stat 0x81A4 5 5000)"
  "fs_opendir mini_fs mini_m = Inr [\<lparr>d_name = [98], d_is_dir = False\<rparr>, \<lparr>d_name = [46], d_is_dir = True\<rparr>,
      \<lparr>d_name = [97], d_is_dir = True\<rparr>]"
  "fs_opendir mini_fs mini_a = Inr [\<lparr>d_name = [99], d_is_dir = False\<rparr>]"
  "fs_open mini_fs p = 0" "fs_alloc_ok mini_fs a"
  "read_fiemap mini_fs mini_c = Inr (0, [])"
  "read_fiemap mini_fs mini_b = Inr (1, [\<lparr>fe_logical = 0, fe_physical = 0x10000, fe_length = 0x2000, fe_flags = 1\<rparr>])"
  by (simp_all add: mini_fs_def read_fiemap_def Let_def)

lemma mini_modes [simp]:
  "S_ISDIR (st_mode (mini_stat 0x41ED i n))" "\<not> S_ISDIR (st_mode (mini_stat 0x81A4 i n))"
  "S_ISREG (st_mode (mini_stat 0x81A4 i n))" "st_ino (mini_stat mode i n) = i" "st_size (mini_stat mode i n) = n"
  by (simp_all add: mini_stat_def S_ISDIR_def S_ISREG_def)

lemma mini_names:
  "collect_names mini_fs [\<lparr>d_name = [98], d_is_dir = False\<rparr>, \<lparr>d_name = [46], d_is_dir = True\<rparr>,
      \<lparr>d_name = [97], d_is_dir = True\<rparr>] 0 [] = Inr [[98], [97]]"
  "collect_names mini_fs [\<lparr>d_name = [99], d_is_dir = False\<rparr>] 0 [] = Inr [[99]]"
  "sort_names [[98], [97]] = [[97], [98]]" "sort_names [[99]] = [[99]]"
  by (simp_all add: is_directory_member_def Let_def mini_kernel sort_names_def compare_dirent_def)

text \<open>The inodes of the mount: the root, and the others once named and once processed.\<close>

definition mini_inode :: "u64 \<Rightarrow> u64 \<Rightarrow> u32 \<Rightarrow> u32 \<Rightarrow> u8 \<Rightarrow> cstr \<Rightarrow> u32 \<Rightarrow> xal_inode" where
  "mini_inode i n idx c t nm p = \<lparr>ino = i, isize = n, content = \<lparr>c_idx = idx, c_count = c\<rparr>, ftype = t,
     namelen = of_nat (length nm), name = nm, parent_idx = p\<rparr>"

lemma mini_inode_updates [simp]:
  "(mini_inode i n idx c t nm p)\<lparr>content := \<lparr>c_idx = idx', c_count = c'\<rparr>\<rparr> = mini_inode i n idx' c' t nm p"
  "(mini_inode i n idx c t nm p)\<lparr>ino := i', isize := n', ftype := t'\<rparr> = mini_inode i' n' idx c t' nm p"
  "content (mini_inode i n idx c t nm p) = \<lparr>c_idx = idx, c_count = c\<rparr>"
  "ftype (mini_inode i n idx c t nm p) = t" "name (mini_inode i n idx c t nm p) = nm"
  "xal_inode_is_dir (mini_inode i n idx c t nm p) \<longleftrightarrow> t = 2"
  "xal_inode_is_file (mini_inode i n idx c t nm p) \<longleftrightarrow> t = 1"
  by (simp_all add: mini_inode_def xal_inode_is_dir_def xal_inode_is_file_def)

lemma mini_fresh:
  "0\<lparr>name := nm, namelen := of_nat (length nm), parent_idx := p\<rparr> = mini_inode 0 0 0 0 0 nm p"
  "0\<lparr>ino := 2, ftype := 2, parent_idx := XAL_POOL_IDX_NONE\<rparr> = mini_inode 2 0 0 0 2 [] XAL_POOL_IDX_NONE"
  by (simp_all add: mini_inode_def zero_xal_inode_ext_def zero_xal_content_ext_def)

lemma mini_name_dentry:
  "m i = 0 \<Longrightarrow> i \<noteq> self \<Longrightarrow> m self = mini_inode n k idx c t nm p \<Longrightarrow>
   name_dentry self path i (mini_state a m ea e em pm wm) =
     mini_state a (m(i := mini_inode 0 0 0 0 0 path (of_nat self), self := mini_inode n k idx (c + 1) t nm p)) ea e em pm wm"
  by (simp add: name_dentry_def mod_content_def mod_inode_def mini_state_ops mini_fresh add.commute)

lemma mini_mod_content:
  "m i = mini_inode n k idx c t nm p \<Longrightarrow>
   mod_content i (\<lambda>_. \<lparr>c_idx = idx', c_count = c'\<rparr>) (mini_state a m ea e em pm wm) =
     mini_state a (m(i := mini_inode n k idx' c' t nm p)) ea e em pm wm"
  by (simp add: mod_content_def mod_inode_def mini_state_ops)

lemma mini_mod_stat:
  "m i = mini_inode n k idx c t nm p \<Longrightarrow>
   mod_inode i (\<lambda>n. n\<lparr>ftype := t', ino := i', isize := k'\<rparr>) (mini_state a m ea e em pm wm) =
     mini_state a (m(i := mini_inode i' k' idx c t' nm p)) ea e em pm wm"
  by (simp add: mod_inode_def mini_state_ops mini_inode_def)

lemmas mini_rules = mini_state_ops mini_kernel mini_names mini_claims mini_watch mini_name_dentry
  mini_mod_content mini_mod_stat Let_def is_directory_member_def

lemma mini_process_c:
  assumes "m 3 = mini_inode 0 0 0 0 0 mini_c p"
  shows "process_ino_fiemap (Suc fuel) mini_fs mini_c 3 (mini_state a m ea e em pm wm) =
    (Inr (), mini_state a (m(3 := mini_inode 4 0 0 0 1 mini_c p)) ea e em (pm(mini_c \<mapsto> 3)) wm)"
  using assms by (simp add: mini_rules fiemap_ftype_def xal_be_fiemap_process_inode_file_def store_fiemap_def cstr_of_def)

lemma mini_process_b:
  assumes "m 2 = mini_inode 0 0 0 0 0 mini_b p"
  shows "process_ino_fiemap (Suc fuel) mini_fs mini_b 2 (mini_state a m 0 0 (\<lambda>_. 0) pm wm) =
    (Inr (), mini_state a (m(2 := mini_inode 5 5000 0 1 1 mini_b p)) 3 1
       ((\<lambda>_. 0)(0 := \<lparr>start_offset = 0, start_block = 16, nblocks = 2, flag = 1\<rparr>)) (pm(mini_b \<mapsto> 2)) wm)"
  using assms by (simp add: mini_rules fiemap_ftype_def xal_be_fiemap_process_inode_file_def store_fiemap_def cstr_of_def
     nth_fiemap_extent_def fiemap_to_extent_def sb_null_def)

lemma mini_process_a:
  assumes "m 1 = mini_inode 0 0 0 0 0 mini_a p" "m 3 = 0"
  shows "process_ino_fiemap (Suc (Suc fuel)) mini_fs mini_a 1 (mini_state 3 m ea e em pm wm) =
    (Inr (), mini_state 4 (m(1 := mini_inode 3 0 3 1 2 mini_a p, 3 := mini_inode 4 0 0 0 1 mini_c 1)) ea e em
       (pm(mini_c \<mapsto> 3, mini_a \<mapsto> 1)) (wm(2 \<mapsto> 1)))"
  using assms
  by (simp add: process_ino_fiemap.simps(2) [of "Suc fuel"] mini_rules fiemap_ftype_def xal_be_fiemap_process_inode_dir_def
     process_dentry_def mini_process_c fun_upd_twist cstr_of_def del: process_ino_fiemap.simps)


definition mini_tree :: "nat \<Rightarrow> xal_inode" where
  "mini_tree = (\<lambda>_. 0)(0 := mini_inode 2 0 1 2 2 [] XAL_POOL_IDX_NONE, 1 := mini_inode 3 0 3 1 2 mini_a 0,
     2 := mini_inode 5 5000 0 1 1 mini_b 0, 3 := mini_inode 4 0 0 0 1 mini_c 1)"

definition mini_extents :: "nat \<Rightarrow> xal_extent" where
  "mini_extents = (\<lambda>_. 0)(0 := \<lparr>start_offset = 0, start_block = 16, nblocks = 2, flag = 1\<rparr>)"

definition mini_index :: xal where
  "mini_index = mini_state 4 mini_tree 3 1 mini_extents [mini_c \<mapsto> 3, mini_a \<mapsto> 1, mini_b \<mapsto> 2, [] \<mapsto> 0]
     [1 \<mapsto> 0, 2 \<mapsto> 1]\<lparr>dirty := False, seq_lock := 2\<rparr>"

lemma mini_locked:
  "fiemap_index_locked (Suc (Suc (Suc fuel))) mini_fs (mini_xal\<lparr>seq_lock := 1\<rparr>) =
     (Inr (), mini_state 4 mini_tree 3 1 mini_extents [mini_c \<mapsto> 3, mini_a \<mapsto> 1, mini_b \<mapsto> 2, [] \<mapsto> 0]
     [1 \<mapsto> 0, 2 \<mapsto> 1]\<lparr>dirty := False\<rparr>)"
  unfolding mini_start mini_fresh
  by (simp add: process_ino_fiemap.simps(2) [of "Suc (Suc fuel)"] mini_rules fiemap_ftype_def
     xal_be_fiemap_process_inode_dir_def process_dentry_def mini_process_a [unfolded One_nat_def] mini_process_b fun_upd_twist
     cstr_of_def mini_tree_def mini_extents_def del: process_ino_fiemap.simps)

lemma mini_run: "3 \<le> fuel \<Longrightarrow> xal_be_fiemap_index fuel mini_fs mini_xal = (Inr (), mini_index)"
proof -
  assume "3 \<le> fuel"
  then obtain f where "fuel = 3 + f" using le_Suc_ex by blast
  then have f: "fuel = Suc (Suc (Suc f))" by simp
  have "mountpoint mini_xal \<noteq> []" "seq_lock mini_xal = 0"
    by (simp_all add: mini_xal_def mini_defs)
  then show ?thesis
    by (simp add: xal_be_fiemap_index_def f mini_locked mini_index_def) (simp add: mini_defs)
qed

lemma mini_good: "index_start mini_fs mini_xal"
  by (simp add: index_start_def fs_good_def mini_xal_def mini_defs pool_wf_def mprotect_bounded_def
      pool_room_def pool_bytes_def word_le_nat_alt)

section \<open>Properties\<close>

lemma fiemap_index_ok:
  assumes start: "index_start env x" and run: "xal_be_fiemap_index fuel env x = (Inr u, x')"
  shows "mirror_inv env {} x' \<and> root_idx x' = 0 \<and> \<not> dirty x' \<and> 1 \<le> itop x' \<and>
    parent_idx (imem x' 0) = XAL_POOL_IDX_NONE \<and> xal_inode_is_dir (imem x' 0) \<and> name (imem x' 0) = [] \<and>
    tree_wf (imem x') (itop x') \<and> {j. descendant (imem x') 0 j} = {0..<itop x'} \<and>
    seq_lock x' = seq_lock x + 2 \<and> mountpoint x' = mountpoint x \<and> sb x' = sb x \<and> be_type x' = be_type x \<and>
    (path_inode_map x' = None \<longleftrightarrow> path_inode_map x = None) \<and> (watching x' \<longleftrightarrow> watching x)"
proof -
  from run obtain w where w: "fiemap_index_locked fuel env (x\<lparr>seq_lock := seq_lock x + 1\<rparr>) = (Inr u, w)"
    and x': "x' = w\<lparr>seq_lock := seq_lock w + 1\<rparr>"
    by (auto simp: xal_be_fiemap_index_def split: if_splits prod.splits)
  have "index_start env (x\<lparr>seq_lock := seq_lock x + 1\<rparr>)" using start by (simp add: index_start_def)
  from fiemap_index_locked_ok [OF this w] show ?thesis by (simp add: x')
qed

text \<open>
  C3 (the FIEMAP index mirrors the file system). When \<open>xal_be_fiemap_index\<close> succeeds on pools that
  are in order, the inode pool is a tree rooted at position 0 that contains every claimed inode,
  the dirty flag is cleared, and every inode agrees with the mounted file system: it has the number
  and size of \<open>stat\<close>, a directory has exactly the entries of \<open>opendir\<close> sorted by \<open>strcmp\<close>, each under
  its full path, a file has exactly the extents of the two ioctl calls, in blocks, and everything
  is in the map of paths and watched, if there is such a map or watch.
\<close>

theorem fiemap_index_mirrors_fs:
  assumes "index_start env x" and "xal_be_fiemap_index fuel env x = (Inr u, x')"
  shows "tree_wf (imem x') (itop x') \<and> {j. descendant (imem x') 0 j} = {0..<itop x'} \<and>
    root_idx x' = 0 \<and> xal_inode_is_dir (imem x' 0) \<and> \<not> dirty x' \<and> (\<forall>p < itop x'. mirrors env x' p)"
  using fiemap_index_ok [OF assms] by (simp add: mirror_inv_def)

theorem fiemap_index_mirrors_fs_witness:
  "\<exists>x'. xal_be_fiemap_index 257 mini_fs mini_xal = (Inr (), x') \<and> itop x' = 4 \<and> (\<forall>p < 4. mirrors mini_fs x' p) \<and>
     map (\<lambda>i. name (imem x' i)) [1, 2, 3] = [bytes_of ''/m/a'', bytes_of ''/m/b'', bytes_of ''/m/a/c'']"
proof -
  have r: "xal_be_fiemap_index 257 mini_fs mini_xal = (Inr (), mini_index)" by (rule mini_run) simp
  have "itop mini_index = 4" by (simp add: mini_index_def)
  then show ?thesis
    using fiemap_index_mirrors_fs [OF mini_good r] r
    by (simp add: mini_index_def mini_tree_def mini_paths [symmetric])
qed

text \<open>
  C22 (the FIEMAP index ends). If the directories of the mounted file system form no loop, that is if some
  depth decreases from a directory to each of its entries other than \<open>.\<close> and \<open>..\<close>, then the recursion
  of the index ends after as many levels as the mountpoint is deep, with success or an error, whatever
  else the kernel reports.
\<close>

theorem fiemap_index_ends:
  assumes "depth_bound env d" and "d (mountpoint x) < fuel"
  shows "fst (xal_be_fiemap_index fuel env x) \<noteq> Inl (Fault OutOfFuel)"
  using fiemap_index_in_fuel [OF assms] by (simp add: in_fuel_def)

definition mini_depth :: "cstr \<Rightarrow> nat" where
  "mini_depth p = (if p = mini_m then 2 else if p = mini_a then 1 else 0)"

lemma mini_depth_bound: "depth_bound mini_fs mini_depth"
  by (auto simp: depth_bound_def mini_depth_def mini_fs_def bytes_of_def split: if_splits)

theorem fiemap_index_ends_witness:
  "fst (xal_be_fiemap_index 3 mini_fs mini_xal) \<noteq> Inl (Fault OutOfFuel)"
proof (rule fiemap_index_ends [OF mini_depth_bound])
  have "mountpoint mini_xal = mini_m" by (simp add: mini_xal_def mini_defs)
  then show "mini_depth (mountpoint mini_xal) < 3" by (simp add: mini_depth_def)
qed

text \<open>
  Note (a failed second ioctl frees a stale pointer). \<open>read_fiemap\<close> hands the reallocated structure to
  its caller only on success. When the second \<open>FS_IOC_FIEMAP\<close> call fails and the reallocation has
  moved the structure, \<open>xal_be_fiemap_process_inode_file\<close> frees the old pointer a second time.
\<close>

theorem failed_second_ioctl_frees_stale_pointer:
  assumes "xal_inode_is_file (xal_inode_at x self)" and "fs_open env path = 0" and "\<And>a. fs_alloc_ok env a"
    and "fs_fiemap_count env path = Inr n" and "unat n < 2 ^ 24"
    and "fs_fiemap_extents env path n = Inl e" and "\<And>m. fs_realloc_moves env m"
  shows "xal_be_fiemap_process_inode_file env path self x = (Inl (Fault UseAfterFree), x)"
proof -
  have "unat (56 * ucast n :: u64) = 56 * unat n"
    using assms(5) unat_ucast_up_eq [of n, where 'b = 64] by (subst unat_mult_no_wrap) auto
  then have "unat (ucast (56 * (ucast n :: u64)) :: u32) = 56 * unat n"
    using assms(5) by (simp add: unat_ucast_mod)
  moreover have "0 \<le> sint w" if "unat w < 2 ^ 31" for w :: u32
    using sint_nonneg [OF that] by simp
  ultimately have "0 \<le> sint (ucast (56 * (ucast n :: u64)) :: u32)" using assms(5) by simp
  then show ?thesis
    using assms by (simp add: xal_be_fiemap_process_inode_file_def read_fiemap_def Let_def)
qed

definition broken_fs :: fs_env where
  "broken_fs = mini_fs\<lparr>fs_fiemap_extents := (\<lambda>p n. Inl EIO)\<rparr>"

theorem failed_second_ioctl_frees_stale_pointer_witness:
  "xal_be_fiemap_process_inode_file broken_fs mini_b 2 mini_index = (Inl (Fault UseAfterFree), mini_index)"
  by (rule failed_second_ioctl_frees_stale_pointer [where n = 1])
    (simp_all add: broken_fs_def mini_fs_def xal_inode_at_def mini_index_def mini_tree_def)

text \<open>
  Note (a failed allocation hides a file). When \<open>malloc\<close> fails in \<open>xal_be_fiemap_process_inode_file\<close>,
  the function returns 0 and leaves the inode as it was: without extents for a new file, and with
  its old extents when the watch thread reprocesses a file that has changed.
\<close>

theorem failed_malloc_reported_as_success:
  assumes "xal_inode_is_file (xal_inode_at x self)" and "fs_open env path = 0"
    and "\<not> fs_alloc_ok env AllocFiemap"
  shows "xal_be_fiemap_process_inode_file env path self x = (Inr (), x)"
  using assms by (simp add: xal_be_fiemap_process_inode_file_def)

theorem failed_malloc_reported_as_success_witness:
  "xal_be_fiemap_process_inode_file (mini_fs\<lparr>fs_alloc_ok := (\<lambda>_. False)\<rparr>) mini_b 2 mini_index = (Inr (), mini_index)"
  by (rule failed_malloc_reported_as_success)
    (simp_all add: mini_fs_def xal_inode_at_def mini_index_def mini_tree_def)

section \<open>Opening\<close>

text \<open>The regions of the two pools end where the backend reserves them to end.\<close>

definition fs_pools_bounded :: "fs_env \<Rightarrow> bool" where
  "fs_pools_bounded env \<longleftrightarrow>
     (\<forall>n. os_mprotect (fs_inodes_os env) n = 0 \<longrightarrow> unat n \<le> 40000000 * 312) \<and>
     (\<forall>n. os_mprotect (fs_extents_os env) n = 0 \<longrightarrow> unat n \<le> (40000000 * 25 + 4095) div 4096 * 4096)"

lemma open_pools_ok:
  assumes b: "fs_pools_bounded env" and fresh: "reserved (inodes x) = 0" "reserved (extents x) = 0"
    and run: "open_pools env opts n x = (Inr u, x')"
  shows "\<exists>p q. x' = x\<lparr>inodes := p, extents := q\<rparr> \<and> fs_good env x' \<and> free p = 0 \<and> free q = 0 \<and>
    growby p = (if opt_shm_name opts = None then scast n else 40000000)"
proof -
  from run obtain p q where
    p: "xal_pool_map (fs_inodes_os env) (inodes x) 40000000 (scast n) 312 (shm_part opts ''_inodes'') = (Inr (), p)"
    and q: "xal_pool_map (fs_extents_os env) (extents x) 40000000 (scast n) 25 (shm_part opts ''_extents'') = (Inr (), q)"
    and x': "x' = x\<lparr>inodes := p, extents := q\<rparr>"
    by (auto simp: open_pools_def split: prod.splits sum.splits)
  have bi: "\<And>n. os_mprotect (fs_inodes_os env) n = 0 \<Longrightarrow>
        unat n \<le> (unat (40000000 :: u64) * unat (312 :: u64) + 4095) div 4096 * 4096"
    and be: "\<And>n. os_mprotect (fs_extents_os env) n = 0 \<Longrightarrow>
        unat n \<le> (unat (40000000 :: u64) * unat (25 :: u64) + 4095) div 4096 * 4096"
    using b unfolding fs_pools_bounded_def by force+
  note mp = map_ok [OF fresh(1) _ _ _ bi p] and mq = map_ok [OF fresh(2) _ _ _ be q]
  have esz: "element_size p = 312"
    using p fresh(1) by (auto simp: xal_pool_map_def xal_pool_grow_def Let_def split: if_splits option.splits)
  have "pool_room p = unat (reserved p)" using mp by (simp add: pool_room_def pool_bytes_def esz)
  then have "fs_good env x'" using mp mq by (simp add: x' fs_good_def)
  moreover have "shm_part opts s = None \<longleftrightarrow> opt_shm_name opts = None" for s
    by (simp add: shm_part_def split: option.splits)
  ultimately show ?thesis
    using mp mq x' by (intro exI [of _ p] exI [of _ q]) simp
qed

lemma open_watch_ok:
  "open_watch env opts x = (Inr u, x') \<Longrightarrow> inotify x = None \<Longrightarrow>
   \<exists>i. x' = x\<lparr>inotify := i\<rparr> \<and> (watching x' \<longleftrightarrow> opt_watch_mode opts \<noteq> XAL_WATCHMODE_NONE)"
  by (cases x) (auto simp: open_watch_def xal_be_fiemap_inotify_init_def Let_def watching_def
      split: if_splits sum.splits prod.splits)

lemma fiemap_open_ok:
  assumes b: "fs_pools_bounded env" and run: "xal_be_fiemap_open fuel env (Some path) opts = Inr x"
  shows "\<exists>n st. retrieve_total_entries fuel env path = Inr n \<and> fs_stat env path = Inr st \<and>
    fs_good env x \<and> free (inodes x) = 0 \<and> free (extents x) = 0 \<and>
    growby (inodes x) = (if opt_shm_name opts = None then scast n else 40000000) \<and>
    sb x = sb_null\<lparr>blocksize := ucast (st_blksize st), rootino := st_ino st\<rparr> \<and>
    (watching x \<longleftrightarrow> opt_watch_mode opts \<noteq> XAL_WATCHMODE_NONE) \<and>
    path_inode_map x = (if opt_file_lookupmode opts = XAL_FILE_LOOKUPMODE_HASHMAP then Some (\<lambda>_. None) else None) \<and>
    be_type x = XAL_BACKEND_FIEMAP \<and> mountpoint x = path \<and> root_idx x = XAL_POOL_IDX_NONE \<and>
    \<not> dirty x \<and> \<not> shared_view x \<and> seq_lock x = 0"
proof -
  let ?o = "open_state path"
  from run obtain x1 n st x2 where w: "open_watch env opts ?o = (Inr (), x1)"
    and n: "retrieve_total_entries fuel env path = Inr n" and st: "fs_stat env path = Inr st"
    and p: "open_pools env opts n (x1\<lparr>sb := (sb x1)\<lparr>blocksize := ucast (st_blksize st), rootino := st_ino st\<rparr>\<rparr>)
        = (Inr (), x2)"
    and x: "x = (if opt_file_lookupmode opts = XAL_FILE_LOOKUPMODE_HASHMAP
        then x2\<lparr>path_inode_map := Some (\<lambda>_. None)\<rparr> else x2)"
    unfolding xal_be_fiemap_open_def
    by (auto simp: and_then_def Let_def split: if_splits sum.splits prod.splits)
  have o: "reserved (inodes ?o) = 0" "reserved (extents ?o) = 0" "sb ?o = sb_null" "inotify ?o = None"
    "path_inode_map ?o = None" "be_type ?o = XAL_BACKEND_FIEMAP" "mountpoint ?o = path"
    "root_idx ?o = XAL_POOL_IDX_NONE" "\<not> dirty ?o" "\<not> shared_view ?o" "seq_lock ?o = 0"
    by (simp_all add: open_state_def xal_null_def pool_null_def)
  obtain i where x1: "x1 = ?o\<lparr>inotify := i\<rparr>"
    and wt: "watching x1 \<longleftrightarrow> opt_watch_mode opts \<noteq> XAL_WATCHMODE_NONE"
    using open_watch_ok [OF w o(4)] by blast
  obtain ip ep where x2: "x2 = x1\<lparr>sb := (sb x1)\<lparr>blocksize := ucast (st_blksize st), rootino := st_ino st\<rparr>,
        inodes := ip, extents := ep\<rparr>"
    and ok: "fs_good env x2" "free ip = 0" "free ep = 0"
      "growby ip = (if opt_shm_name opts = None then scast n else 40000000)"
    using open_pools_ok [OF b _ _ p] by (auto simp: x1 o)
  have "watching x = watching x1" by (simp add: x x2 watching_def)
  moreover have "fs_good env x" using ok(1) by (simp add: x)
  ultimately show ?thesis
    using n st ok wt o by (intro exI [of _ n] exI [of _ st]) (simp add: x x2 x1)
qed

text \<open>
  C23 (opening prepares the index). A xal that \<open>xal_be_fiemap_open\<close> returns meets the hypotheses of the
  index: empty pools in order, block size and root inode number from \<open>stat\<close>, a watch if and only
  if the options ask for one, an empty map of paths if and only if they ask for one, no root yet.
\<close>

theorem fiemap_open_prepares_index:
  assumes "fs_pools_bounded env" and "xal_be_fiemap_open fuel env (Some path) opts = Inr x"
  shows "index_start env x \<and> be_type x = XAL_BACKEND_FIEMAP \<and> mountpoint x = path \<and>
    root_idx x = XAL_POOL_IDX_NONE \<and> \<not> dirty x \<and> seq_lock x = 0 \<and>
    (\<exists>st. fs_stat env path = Inr st \<and> blocksize (sb x) = ucast (st_blksize st) \<and> rootino (sb x) = st_ino st) \<and>
    (watching x \<longleftrightarrow> opt_watch_mode opts \<noteq> XAL_WATCHMODE_NONE) \<and>
    path_inode_map x = (if opt_file_lookupmode opts = XAL_FILE_LOOKUPMODE_HASHMAP then Some (\<lambda>_. None) else None)"
  using fiemap_open_ok [OF assms] by (auto simp: index_start_def)

definition mini_opts :: xal_opts where
  "mini_opts = \<lparr>opt_be = XAL_BACKEND_FIEMAP, opt_watch_mode = XAL_WATCHMODE_EXTENT_UPDATE,
     opt_file_lookupmode = XAL_FILE_LOOKUPMODE_HASHMAP, opt_shm_name = None\<rparr>"

lemma mini_bounded: "fs_pools_bounded mini_fs"
  by (auto simp: fs_pools_bounded_def word_le_nat_alt)

lemma mini_total: "retrieve_total_entries 3 mini_fs mini_m = Inr 3"
  by (simp add: numeral_3_eq_3 mini_kernel is_directory_member_def int_result_def)

lemma mini_open: "\<exists>x. xal_be_fiemap_open 3 mini_fs (Some mini_m) mini_opts = Inr x"
  by (simp add: xal_be_fiemap_open_def mini_kernel mini_opts_def open_watch_def mini_total
      xal_be_fiemap_inotify_init_def Let_def shm_name_too_long_def open_pools_def shm_part_def
      xal_pool_map_def xal_pool_grow_def open_state_def xal_null_def pool_null_def)

theorem fiemap_open_prepares_index_witness:
  "\<exists>x. xal_be_fiemap_open 3 mini_fs (Some mini_m) mini_opts = Inr x \<and> index_start mini_fs x \<and> watching x"
  using mini_open fiemap_open_prepares_index [OF mini_bounded, of 3 mini_m mini_opts]
  by (auto simp: mini_opts_def)

text \<open>
  Note (an empty mount cannot be indexed). The pools of a mount without entries are opened with room
  for no inode and a growth step of zero, so \<open>xal_be_fiemap_open\<close> succeeds, but claiming the root
  inode fails and the index returns -EINVAL; shared memory pools do not have this problem.
\<close>

theorem empty_mount_cannot_be_indexed:
  assumes "fs_pools_bounded env" and "xal_be_fiemap_open fuel env (Some path) opts = Inr x"
    and "retrieve_total_entries fuel env path = Inr 0" and "opt_shm_name opts = None" and "path \<noteq> []"
  shows "fst (xal_be_fiemap_index fuel' env x) = Inl (Err (- EINVAL))"
proof -
  have g: "growby (inodes x) = 0" and m: "mountpoint x \<noteq> []"
    using fiemap_open_ok [OF assms(1,2)] assms(3-5) by auto
  have "growby (snd (xal_pool_clear (fs_inodes_os env) (inodes x))) = 0"
    using g by (simp add: xal_pool_clear_def Let_def)
  then show ?thesis
    using m by (simp add: xal_be_fiemap_index_def fiemap_index_locked_def Let_def fs_claim_inodes_def
        xal_pool_claim_inodes_def)
qed

definition empty_fs :: fs_env where
  "empty_fs = mini_fs\<lparr>fs_opendir := (\<lambda>_. Inr [])\<rparr>"

theorem empty_mount_cannot_be_indexed_witness:
  "\<exists>x. xal_be_fiemap_open 2 empty_fs (Some mini_m) mini_opts = Inr x \<and>
    fst (xal_be_fiemap_index 257 empty_fs x) = Inl (Err (- EINVAL))"
proof -
  have b: "fs_pools_bounded empty_fs" using mini_bounded by (simp add: fs_pools_bounded_def empty_fs_def)
  have n: "retrieve_total_entries 2 empty_fs mini_m = Inr 0"
    by (simp add: numeral_2_eq_2 empty_fs_def mini_kernel int_result_def)
  have e: "fs_stat empty_fs = fs_stat mini_fs" "fs_alloc_ok empty_fs = fs_alloc_ok mini_fs"
    "fs_inotify_init empty_fs = fs_inotify_init mini_fs" "fs_inodes_os empty_fs = fs_inodes_os mini_fs"
    "fs_extents_os empty_fs = fs_extents_os mini_fs"
    by (simp_all add: empty_fs_def)
  obtain x where "xal_be_fiemap_open 2 empty_fs (Some mini_m) mini_opts = Inr x"
    by (simp add: xal_be_fiemap_open_def mini_opts_def open_watch_def n e mini_kernel
      xal_be_fiemap_inotify_init_def Let_def shm_name_too_long_def open_pools_def shm_part_def
      xal_pool_map_def xal_pool_grow_def open_state_def xal_null_def pool_null_def)
  with empty_mount_cannot_be_indexed [OF b this n, of 257] show ?thesis
    by (simp add: mini_opts_def)
qed

end
