(* ===== verification/Xal_Lookup.thy ===== *)
theory Xal_Lookup
  imports Xal_Fiemap_Mount
begin

text \<open>
  Looking up paths (src/xal_be_fiemap.c from \<open>compare_name_to_inode\<close> on): by a binary search in each
  directory on the way, or in the map of paths, which \<open>xal_build_lookup_hashmap\<close> can build from an
  indexed tree. The tree of a successful index makes both agree with the file system.
\<close>

section \<open>Searching a directory\<close>

text \<open>\<open>strrchr(name, '/') + 1\<close>, or the name itself\<close>

definition basename_of :: "cstr \<Rightarrow> cstr" where
  "basename_of nm = rev (takeWhile (\<lambda>b. b \<noteq> 47) (rev nm))"

definition compare_name_to_inode :: "cstr \<Rightarrow> xal_inode \<Rightarrow> int" where
  "compare_name_to_inode component inode = strcmp component (basename_of (cstr_of (name inode)))"

text \<open>\<open>bsearch\<close> of the C library over the elements \<open>lo..<hi\<close>, with the comparison of the key as argument.\<close>

function bsearch :: "(nat \<Rightarrow> int) \<Rightarrow> nat \<Rightarrow> nat \<Rightarrow> nat option" where
  "bsearch cmp lo hi =
     (if hi \<le> lo then None
      else let mid = (lo + hi) div 2
           in if cmp mid < 0 then bsearch cmp lo mid
              else if 0 < cmp mid then bsearch cmp (mid + 1) hi
              else Some mid)"
  by pat_completeness auto
termination
  by (relation "measure (\<lambda>(cmp, lo, hi). hi - lo)") auto

declare bsearch.simps [simp del]

definition search_dir :: "xal \<Rightarrow> nat \<Rightarrow> cstr \<Rightarrow> nat option" where
  "search_dir x dir component =
     bsearch (\<lambda>i. compare_name_to_inode component (xal_inode_at x i))
       (dentries_idx (xal_inode_at x dir))
       (dentries_idx (xal_inode_at x dir) + dentries_count (xal_inode_at x dir))"

section \<open>Traversal\<close>

text \<open>The loop of \<open>search_by_traversal\<close>: \<open>rest\<close> is the string from \<open>search_begin\<close> on.\<close>

function traverse :: "xal \<Rightarrow> nat \<Rightarrow> cstr \<Rightarrow> fail + nat" where
  "traverse x search rest =
     (let component = takeWhile (\<lambda>b. b \<noteq> 47) rest
      in case search_dir x search component of
           None \<Rightarrow> Inl (Err (- ENOENT))
         | Some child \<Rightarrow>
             if length component = length rest then Inr child
             else traverse x child (drop (length component + 1) rest))"
  by pat_completeness auto
termination
proof (relation "measure (\<lambda>(x, search, rest). length rest)")
  fix x search rest component child
  assume c: "component = takeWhile (\<lambda>b. b \<noteq> 47) (rest :: cstr)" and "length component \<noteq> length rest"
  then have "length component < length rest" using length_takeWhile_le [of _ rest] by (simp add: le_neq_implies_less)
  then show "((x, child, drop (length component + 1) rest), x, search, rest)
      \<in> measure (\<lambda>(x, search, rest). length rest)" by simp
qed simp

declare traverse.simps [simp del]

text \<open>
  The root is \<open>xal_inode_at(xal, xal->root_idx)\<close>, never a null pointer; before the first index, its
  position \<open>XAL_POOL_IDX_NONE\<close> lies outside every pool.
\<close>

definition search_by_traversal :: "xal \<Rightarrow> nat \<Rightarrow> cstr \<Rightarrow> fail + nat" where
  "search_by_traversal x root path =
     (let n = length (mountpoint x)
      in if length path \<le> n + 1 then Inl (Err (- EINVAL))
         else if take n path \<noteq> mountpoint x then Inl (Err (- EINVAL))
         else if root = unat XAL_POOL_IDX_NONE then Inl (Fault OutOfBounds)
         else traverse x root (drop (n + 1) path))"

section \<open>The map of paths\<close>

fun build_hashmap_walk :: "nat \<Rightarrow> fs_env \<Rightarrow> nat \<Rightarrow> xal \<Rightarrow> (unit, xal) outcome" where
  "build_hashmap_walk 0 env i x = (Inl (Fault OutOfFuel), x)"
| "build_hashmap_walk (Suc fuel) env i x =
     (let inode = xal_inode_at x i
      in and_then (if 0 < namelen inode then put_path_inode env i x else (Inr (), x)) (\<lambda>_ x.
         if xal_inode_is_dir inode then
           for_each (\<lambda>k x. build_hashmap_walk fuel env (dentries_idx inode + k) x)
             [0..<dentries_count inode] x
         else (Inr (), x)))"

definition xal_build_lookup_hashmap :: "nat \<Rightarrow> fs_env \<Rightarrow> xal option \<Rightarrow> (unit, xal option) outcome" where
  "xal_build_lookup_hashmap fuel env xo =
     (case xo of
        None \<Rightarrow> (Inl (Err (- EINVAL)), None)
      | Some x \<Rightarrow>
          if be_type x \<noteq> XAL_BACKEND_FIEMAP then (Inl (Err (- EINVAL)), Some x)
          else if \<not> fs_alloc_ok env AllocPathMap then (Inl (Err (- ENOMEM)), Some (x\<lparr>path_inode_map := None\<rparr>))
          else if root_idx x = XAL_POOL_IDX_NONE then (Inl (Fault OutOfBounds), Some x)
          else case build_hashmap_walk fuel env (unat (root_idx x)) (x\<lparr>path_inode_map := Some (\<lambda>_. None)\<rparr>) of
                 (Inr _, x) \<Rightarrow> (Inr (), Some x)
               | (Inl e, x) \<Rightarrow> (Inl e, Some (x\<lparr>path_inode_map := None\<rparr>)))"

section \<open>Queries\<close>

definition xal_get_inode :: "xal option \<Rightarrow> cstr option \<Rightarrow> fail + nat" where
  "xal_get_inode xo po =
     (case (xo, po) of
        (Some x, Some path) \<Rightarrow>
          if be_type x \<noteq> XAL_BACKEND_FIEMAP then Inl (Err (- EINVAL))
          else (case path_inode_map x of
             Some m \<Rightarrow> (case get_path_inode x m path of None \<Rightarrow> Inl (Err (- EINVAL)) | Some i \<Rightarrow> Inr i)
           | None \<Rightarrow> search_by_traversal x (unat (root_idx x)) path)
      | _ \<Rightarrow> Inl (Err (- EINVAL)))"

text \<open>The two readings of the content of the inode found.\<close>

definition xal_get_extents :: "xal option \<Rightarrow> cstr option \<Rightarrow> fail + xal_content" where
  "xal_get_extents xo po =
     sbind (xal_get_inode xo po) (\<lambda>i.
       let inode = xal_inode_at (the xo) i
       in if xal_inode_is_file inode then Inr (content inode) else Inl (Err (- EINVAL)))"

definition xal_get_dentries :: "xal option \<Rightarrow> cstr option \<Rightarrow> fail + xal_content" where
  "xal_get_dentries xo po =
     sbind (xal_get_inode xo po) (\<lambda>i.
       let inode = xal_inode_at (the xo) i
       in if xal_inode_is_dir inode then Inr (content inode) else Inl (Err (- ENOTDIR)))"

section \<open>Binary search\<close>

lemma bsearch_Some: "bsearch cmp lo hi = Some m \<Longrightarrow> lo \<le> m \<and> m < hi \<and> cmp m = 0"
proof (induction cmp lo hi rule: bsearch.induct)
  case (1 cmp lo hi)
  let ?mid = "(lo + hi) div 2"
  note run = 1(3) [unfolded bsearch.simps [of cmp lo hi] Let_def]
  have lt: "\<not> hi \<le> lo" using run by (auto split: if_splits)
  then have mid: "lo \<le> ?mid" "?mid < hi" by auto
  consider "cmp ?mid < 0" | "0 < cmp ?mid" | "cmp ?mid = 0" by linarith
  then show ?case
  proof cases
    case 1
    with run lt have "bsearch cmp lo ?mid = Some m" by simp
    with "1.IH"(1) [OF lt refl 1] mid show ?thesis by auto
  next
    case 2
    with run lt have "bsearch cmp (?mid + 1) hi = Some m" by simp
    with "1.IH"(2) [OF lt refl _ 2] 2 mid show ?thesis by auto
  next
    case 3
    with run lt mid show ?thesis by simp
  qed
qed

lemma bsearch_finds:
  assumes "lo \<le> m" and "m < hi" and "cmp m = 0"
    and "\<And>i. lo \<le> i \<Longrightarrow> i < m \<Longrightarrow> 0 < cmp i" and "\<And>i. m < i \<Longrightarrow> i < hi \<Longrightarrow> cmp i < 0"
  shows "bsearch cmp lo hi = Some m"
  using assms
proof (induction cmp lo hi rule: bsearch.induct)
  case (1 cmp lo hi)
  let ?mid = "(lo + hi) div 2"
  have lt: "\<not> hi \<le> lo" using 1(3,4) by simp
  then have mid: "lo \<le> ?mid" "?mid < hi" by auto
  consider "?mid < m" | "m < ?mid" | "?mid = m" by linarith
  then show ?case
  proof cases
    case 1
    then have c: "0 < cmp ?mid" using "1.prems"(4) mid by simp
    then have "\<not> cmp ?mid < 0" by simp
    with "1.IH"(2) [OF lt refl _ c] 1 "1.prems" mid lt show ?thesis
      by (subst bsearch.simps) (simp add: Let_def)
  next
    case 2
    then have c: "cmp ?mid < 0" using "1.prems"(5) mid by simp
    with "1.IH"(1) [OF lt refl c] 2 "1.prems" mid lt show ?thesis
      by (subst bsearch.simps) (simp add: Let_def)
  next
    case 3
    with "1.prems" lt show ?thesis by (subst bsearch.simps) (simp add: Let_def)
  qed
qed

section \<open>The names of an indexed tree\<close>

text \<open>What the kernel promises of names: no NUL, no slash, not empty, no name twice.\<close>

definition fs_names_ok :: "fs_env \<Rightarrow> bool" where
  "fs_names_ok env \<longleftrightarrow>
     (\<forall>path ds. fs_opendir env path = Inr ds \<longrightarrow>
        distinct (map d_name ds) \<and> (\<forall>d \<in> set ds. d_name d \<noteq> [] \<and> 0 \<notin> set (d_name d) \<and> 47 \<notin> set (d_name d)))"

text \<open>What a successful index establishes.\<close>

definition indexed :: "fs_env \<Rightarrow> xal \<Rightarrow> bool" where
  "indexed env x \<longleftrightarrow>
     tree_wf (imem x) (itop x) \<and> {j. descendant (imem x) 0 j} = {0..<itop x} \<and> root_idx x = 0 \<and>
     xal_inode_is_dir (imem x 0) \<and> name (imem x 0) = [] \<and> (\<forall>p < itop x. mirrors env x p) \<and>
     itop x < 2 ^ 32 \<and> is_cstr (mountpoint x)"

lemma descendant_parent:
  assumes "descendant m i j" and "j \<noteq> i"
  shows "\<exists>p k. descendant m i p \<and> xal_inode_is_dir (m p) \<and> k < dentries_count (m p) \<and> j = dentries_idx (m p) + k"
  using assms
proof (induction rule: descendant.induct)
  case (child i k j)
  show ?case
  proof (cases "j = dentries_idx (m i) + k")
    case True
    with child show ?thesis by (blast intro: descendant.self)
  next
    case False
    with child.IH obtain p l where "descendant m (dentries_idx (m i) + k) p" "xal_inode_is_dir (m p)"
        "l < dentries_count (m p)" "j = dentries_idx (m p) + l" by blast
    with child.hyps show ?thesis by (blast intro: descendant.child)
  qed
qed simp

lemma basename_path: "47 \<notin> set e \<Longrightarrow> basename_of (p @ 47 # e) = e"
proof -
  assume "47 \<notin> set e"
  then have "takeWhile (\<lambda>b. b \<noteq> 47) (rev e @ 47 # rev p) = rev e"
    by (subst takeWhile_append2) auto
  then show ?thesis by (simp add: basename_of_def)
qed

text \<open>The entry \<open>k\<close> of the directory \<open>p\<close>, at its position.\<close>

definition entry_at :: "xal \<Rightarrow> nat \<Rightarrow> cstr \<Rightarrow> nat \<Rightarrow> bool" where
  "entry_at x p e j \<longleftrightarrow>
     j < itop x \<and> p < j \<and> name (imem x j) = path_of x p @ 47 # e \<and> e \<noteq> [] \<and> 0 \<notin> set e \<and> 47 \<notin> set e \<and>
     search_dir x p e = Some j"

lemma indexed_dir:
  assumes x: "indexed env x" and names: "fs_names_ok env" and p: "p < itop x" "xal_inode_is_dir (imem x p)"
    and k: "k < dentries_count (imem x p)" and cstr: "is_cstr (path_of x p)"
  shows "\<exists>e. entry_at x p e (dentries_idx (imem x p) + k)"
proof -
  have "dir_mirrors env x p" using x p by (simp add: indexed_def mirrors_def)
  then obtain ds where ds: "fs_opendir env (path_of x p) = Inr ds"
      "dentries_count (imem x p) = length (dir_names ds)"
    and kids: "\<And>k. k < length (dir_names ds) \<Longrightarrow>
        name (imem x (dentries_idx (imem x p) + k)) = path_of x p @ 47 # dir_names ds ! k"
    unfolding dir_mirrors_def by blast
  let ?es = "dir_names ds" and ?f = "dentries_idx (imem x p)"
  have "distinct (filter is_directory_member (map d_name ds))"
    using names ds(1) unfolding fs_names_ok_def by (metis distinct_filter)
  then have sorted: "sorted_wrt name_less ?es"
    unfolding dir_names_def by (rule strictly_sorted_sort_names)
  have good: "e \<noteq> [] \<and> 0 \<notin> set e \<and> 47 \<notin> set e" if "e \<in> set ?es" for e
    using that names ds(1) by (auto simp: dir_names_def fs_names_ok_def)
  have k': "k < length ?es" using k ds(2) by simp
  have cmp: "compare_name_to_inode (?es ! k) (xal_inode_at x (?f + i)) = strcmp (?es ! k) (?es ! i)"
    if "i < length ?es" for i
  proof -
    have e: "?es ! i \<in> set ?es" using that by simp
    have "is_cstr (path_of x p @ 47 # ?es ! i)" using cstr good [OF e] by (simp add: is_cstr_def)
    then show ?thesis
      using kids [OF that] good [OF e] basename_path
      by (simp add: compare_name_to_inode_def xal_inode_at_def cstr_of_id)
  qed
  have "search_dir x p (?es ! k) = Some (?f + k)"
    unfolding search_dir_def
  proof (rule bsearch_finds)
    show "?f + k < dentries_idx (xal_inode_at x p) + dentries_count (xal_inode_at x p)"
      using k by (simp add: xal_inode_at_def)
    show "compare_name_to_inode (?es ! k) (xal_inode_at x (?f + k)) = 0" using cmp [OF k'] by simp
    fix i
    show "0 < compare_name_to_inode (?es ! k) (xal_inode_at x i)"
      if i: "dentries_idx (xal_inode_at x p) \<le> i" "i < ?f + k"
    proof -
      have j: "i - ?f < k" "?f + (i - ?f) = i" using i by (auto simp: xal_inode_at_def)
      then have "strcmp (?es ! (i - ?f)) (?es ! k) < 0"
        using sorted k' by (auto simp: sorted_wrt_iff_nth_less)
      then show ?thesis using cmp [of "i - ?f"] j k' strcmp_swap [of "?es ! k"] by simp
    qed
    show "compare_name_to_inode (?es ! k) (xal_inode_at x i) < 0"
      if i: "?f + k < i" "i < dentries_idx (xal_inode_at x p) + dentries_count (xal_inode_at x p)"
    proof -
      have j: "k < i - ?f" "i - ?f < length ?es" "?f + (i - ?f) = i" using i ds(2) by (auto simp: xal_inode_at_def)
      then show ?thesis
        using sorted cmp [of "i - ?f"] by (auto simp: sorted_wrt_iff_nth_less)
    qed
  qed (simp add: xal_inode_at_def)
  moreover have "p < ?f + k" "?f + k < itop x"
    using tree_child [of "imem x" "itop x" p k] x p k by (simp_all add: indexed_def)
  moreover have "?es ! k \<in> set ?es" using k' by simp
  ultimately show ?thesis
    using kids [OF k'] good by (intro exI [of _ "?es ! k"]) (simp add: entry_at_def)
qed

text \<open>Every inode below the root is an entry of a directory before it.\<close>

lemma indexed_parent:
  assumes x: "indexed env x" and j: "j < itop x" "j \<noteq> 0"
  shows "\<exists>p k. p < j \<and> xal_inode_is_dir (imem x p) \<and> k < dentries_count (imem x p) \<and> j = dentries_idx (imem x p) + k"
proof -
  have tree: "tree_wf (imem x) (itop x)" and all: "{j. descendant (imem x) 0 j} = {0..<itop x}"
    using x by (simp_all add: indexed_def)
  have "descendant (imem x) 0 j" using all j(1) by auto
  with descendant_parent j(2) obtain p k where p: "descendant (imem x) 0 p" "xal_inode_is_dir (imem x p)"
      "k < dentries_count (imem x p)" "j = dentries_idx (imem x p) + k" by blast
  have "p < itop x" using all p(1) by auto
  with tree_child(1) [OF tree _ p(2,3)] p show ?thesis by blast
qed

section \<open>Traversal\<close>

lemma traverse_last: "47 \<notin> set c \<Longrightarrow> search_dir x d c = Some j \<Longrightarrow> traverse x d c = Inr j"
proof -
  assume c: "47 \<notin> set c" "search_dir x d c = Some j"
  then have "takeWhile (\<lambda>b. b \<noteq> 47) c = c" by (auto simp: takeWhile_eq_all_conv)
  then show ?thesis by (subst traverse.simps) (simp only: Let_def c option.case simp_thms if_True)
qed

lemma traverse_step: "47 \<notin> set c \<Longrightarrow> search_dir x d c = Some j \<Longrightarrow> traverse x d (c @ 47 # rest) = traverse x j rest"
proof -
  assume c: "47 \<notin> set c" "search_dir x d c = Some j"
  then have "takeWhile (\<lambda>b. b \<noteq> 47) (c @ 47 # rest) = c" by (subst takeWhile_append2) auto
  with c show ?thesis by (subst traverse.simps) (simp add: Let_def)
qed

lemma traverse_to:
  assumes x: "indexed env x" and names: "fs_names_ok env" and "j < itop x" "j \<noteq> 0"
  shows "\<exists>rest. name (imem x j) = mountpoint x @ 47 # rest \<and> rest \<noteq> [] \<and> is_cstr rest \<and> traverse x 0 rest = Inr j \<and>
    (\<forall>more. traverse x 0 (rest @ 47 # more) = traverse x j more)"
  using assms(3,4)
proof (induction j rule: less_induct)
  case (less j)
  obtain p k where p: "p < j" "xal_inode_is_dir (imem x p)" "k < dentries_count (imem x p)"
      "j = dentries_idx (imem x p) + k"
    using indexed_parent [OF x less.prems] by blast
  have pt: "p < itop x" using p(1) less.prems by simp
  have mc: "is_cstr (mountpoint x)" using x by (simp add: indexed_def)
  show ?case
  proof (cases "p = 0")
    case True
    have "is_cstr (path_of x p)" using mc True by (simp add: path_of_def)
    from indexed_dir [OF x names pt p(2,3) this] obtain e where e: "entry_at x p e j" using p(4) by blast
    then show ?thesis
      using True traverse_last [of e x 0 j] traverse_step [of e x 0 j]
      by (intro exI [of _ e]) (auto simp: entry_at_def path_of_def is_cstr_def)
  next
    case False
    from less.IH [OF p(1) pt False] obtain rest where
      r: "name (imem x p) = mountpoint x @ 47 # rest" "rest \<noteq> []" "is_cstr rest"
        "\<And>more. traverse x 0 (rest @ 47 # more) = traverse x p more" by blast
    have "is_cstr (path_of x p)" using mc False r(1,3) by (simp add: path_of_def is_cstr_def)
    from indexed_dir [OF x names pt p(2,3) this] obtain e where e: "entry_at x p e j" using p(4) by blast
    show ?thesis
    proof (intro exI [of _ "rest @ 47 # e"] conjI allI)
      show "name (imem x j) = mountpoint x @ 47 # rest @ 47 # e"
        using e False r(1) by (simp add: entry_at_def path_of_def)
      show "is_cstr (rest @ 47 # e)" using e r(3) by (simp add: entry_at_def is_cstr_def)
      show "traverse x 0 (rest @ 47 # e) = Inr j"
        using r(4) e by (simp add: entry_at_def traverse_last)
      show "traverse x 0 ((rest @ 47 # e) @ 47 # more) = traverse x j more" for more
        using r(4) [of "e @ 47 # more"] e by (simp add: entry_at_def traverse_step)
    qed simp
  qed
qed

lemma search_finds:
  assumes "indexed env x" and "fs_names_ok env" and "j < itop x" "j \<noteq> 0"
  shows "search_by_traversal x 0 (name (imem x j)) = Inr j"
proof -
  obtain rest where "name (imem x j) = mountpoint x @ 47 # rest" "rest \<noteq> []" "traverse x 0 rest = Inr j"
    using traverse_to [OF assms] by blast
  then show ?thesis by (auto simp: search_by_traversal_def Let_def Suc_le_eq)
qed

lemma names_distinct:
  assumes "indexed env x" and "fs_names_ok env" and "i < itop x" "i \<noteq> 0" "j < itop x" "j \<noteq> 0"
    and "name (imem x i) = name (imem x j)"
  shows "i = j"
proof -
  have "(Inr i :: fail + nat) = Inr j"
    using search_finds [OF assms(1-4), unfolded assms(7)] search_finds [OF assms(1,2,5,6)] by (rule trans [OF sym])
  then show ?thesis by (rule Inr_inject)
qed

lemma name_cstr:
  assumes "indexed env x" and "fs_names_ok env" and "j < itop x" "j \<noteq> 0"
  shows "cstr_of (name (imem x j)) = name (imem x j) \<and> name (imem x j) \<noteq> []"
proof -
  obtain rest where r: "name (imem x j) = mountpoint x @ 47 # rest" "is_cstr rest"
    using traverse_to [OF assms] by blast
  moreover have "is_cstr (mountpoint x)" using assms(1) by (simp add: indexed_def)
  ultimately have "is_cstr (name (imem x j))" by (simp add: is_cstr_def)
  then show ?thesis using r(1) by (simp add: cstr_of_id)
qed

section \<open>What the map of paths knows\<close>

lemma known_path:
  assumes x: "indexed env x" "fs_names_ok env" and j: "j < itop x" "j \<noteq> 0"
    and known: "key_known (x\<lparr>path_inode_map := Some m\<rparr>) (cstr_of (name (imem x j)))"
  shows "get_path_inode x m (name (imem x j)) = Some j"
proof -
  note c = name_cstr [OF x j]
  from known c obtain i where i: "m (name (imem x j)) = Some i" "i < itop x"
      "cstr_of (name (imem x i)) = name (imem x j)"
    by (auto simp: key_known_def split: option.splits)
  have "i \<noteq> 0"
  proof
    assume "i = 0"
    then have "cstr_of (name (imem x i)) = []" using x(1) by (simp add: indexed_def cstr_of_def)
    with i c show False by simp
  qed
  with name_cstr [OF x i(2)] i(3) have "name (imem x i) = name (imem x j)" by simp
  then have "i = j" by (rule names_distinct [OF x i(2) \<open>i \<noteq> 0\<close> j])
  with i show ?thesis by (simp add: get_path_inode_def xal_inode_at_def)
qed

text \<open>Only the map changes while it is built, and it forgets nothing.\<close>

definition map_built :: "xal \<Rightarrow> xal \<Rightarrow> bool" where
  "map_built x y \<longleftrightarrow>
     (\<exists>m. y = x\<lparr>path_inode_map := m\<rparr>) \<and> (path_inode_map x \<noteq> None \<longrightarrow> path_inode_map y \<noteq> None) \<and>
     (\<forall>key. key_known x key \<longrightarrow> key_known y key)"

lemma map_built_refl: "map_built x x"
  by (auto simp: map_built_def intro: exI [of _ "path_inode_map x"])

lemma map_built_trans: "map_built x y \<Longrightarrow> map_built y z \<Longrightarrow> map_built x z"
  by (auto simp: map_built_def)

lemma put_path_built:
  assumes "put_path_inode env i x = (Inr u, y)" and "i < itop x" "ftype (imem x i) \<noteq> 0"
  shows "map_built x y \<and> key_known y (cstr_of (name (imem x i)))"
proof -
  note ok = put_path_inode_ok [OF assms]
  then obtain pm where "y = x\<lparr>path_inode_map := pm\<rparr>" by blast
  then have "imem y i = imem x i" by simp
  moreover have "path_inode_map x \<noteq> None \<longrightarrow> path_inode_map y \<noteq> None"
    using ok by (simp add: grows_def kept_maps_def)
  ultimately show ?thesis
    using ok by (auto simp: map_built_def grows_def kept_maps_def in_path_map_def)
qed

lemma build_walk_ok:
  assumes tree: "tree_wf (imem x) n" and n: "n \<le> itop x" and "i < n" and "n - i \<le> fuel"
    and run: "build_hashmap_walk fuel env i x = (Inr u, y)"
  shows "map_built x y \<and>
    (\<forall>j \<in> set (subtree fuel (imem x) i). 0 < namelen (imem x j) \<longrightarrow> key_known y (cstr_of (name (imem x j))))"
  using assms
proof (induction fuel arbitrary: i x y u)
  case (Suc fuel)
  let ?inode = "imem x i"
  from Suc.prems(5) obtain x1 where
    p: "(if 0 < namelen ?inode then put_path_inode env i x else (Inr (), x)) = (Inr (), x1)"
    and k: "(if xal_inode_is_dir ?inode then
           for_each (\<lambda>k x. build_hashmap_walk fuel env (dentries_idx ?inode + k) x)
             [0..<dentries_count ?inode] x1
         else (Inr (), x1)) = (Inr u, y)"
    by (auto simp: Let_def xal_inode_at_def elim!: and_then_InrE)
  have ft: "ftype ?inode \<noteq> 0"
    using Suc.prems(1,3) by (auto simp: tree_wf_def xal_inode_is_dir_def xal_inode_is_file_def)
  have one: "map_built x x1 \<and> (0 < namelen ?inode \<longrightarrow> key_known x1 (cstr_of (name ?inode)))"
  proof (cases "0 < namelen ?inode")
    case True
    with p put_path_built [of env i x "()" x1] Suc.prems(2,3) ft show ?thesis by simp
  next
    case False
    with p show ?thesis by (simp add: map_built_refl)
  qed
  show ?case
  proof (cases "xal_inode_is_dir ?inode")
    case False
    with k one show ?thesis by (simp add: subtree_Suc)
  next
    case True
    let ?c = "dentries_count ?inode" and ?f = "dentries_idx ?inode"
    note child = tree_child [OF Suc.prems(1,3) True]
    from k True have loop: "for_each (\<lambda>k x. build_hashmap_walk fuel env (?f + k) x) [0..<?c] x1 = (Inr u, y)" by simp
    let ?P = "\<lambda>k z. map_built x1 z \<and> (\<forall>l < k. \<forall>j \<in> set (subtree fuel (imem x) (?f + l)).
        0 < namelen (imem x j) \<longrightarrow> key_known z (cstr_of (name (imem x j))))"
    have "?P ?c y"
    proof (rule for_each_upt_invariant [where P = ?P, OF loop])
      show "?P 0 x1" by (simp add: map_built_refl)
    next
      fix k z z'
      assume k: "k < ?c" and P: "?P k z" and r: "build_hashmap_walk fuel env (?f + k) z = (Inr (), z')"
      have "map_built x z" using P one map_built_trans by blast
      then have same: "imem z = imem x" "itop z = itop x" by (auto simp: map_built_def)
      have "map_built z z' \<and> (\<forall>j \<in> set (subtree fuel (imem z) (?f + k)).
          0 < namelen (imem z j) \<longrightarrow> key_known z' (cstr_of (name (imem z j))))"
        by (rule Suc.IH [OF _ _ _ _ r]) (use Suc.prems child [OF k] same in auto)
      then show "?P (Suc k) z'"
        unfolding same less_Suc_eq using P map_built_trans by (auto simp: map_built_def)
    qed simp
    with one True show ?thesis
      by (auto simp: subtree_Suc map_built_def)
  qed
qed simp

section \<open>Properties\<close>

lemma fiemap_index_indexed:
  assumes "index_start env x" and "is_cstr (mountpoint x)" and "xal_be_fiemap_index fuel env x = (Inr u, x')"
  shows "indexed env x'"
  using fiemap_index_ok [OF assms(1,3)] assms(2) fs_itop_32 [of env x']
  by (simp add: indexed_def mirror_inv_def)

lemma indexed_get:
  assumes x: "indexed env x" and names: "fs_names_ok env" and be: "be_type x = XAL_BACKEND_FIEMAP"
    and j: "j < itop x" "j \<noteq> 0"
    and known: "path_inode_map x \<noteq> None \<Longrightarrow> key_known x (cstr_of (name (imem x j)))"
  shows "xal_get_inode (Some x) (Some (name (imem x j))) = Inr j"
proof (cases "path_inode_map x")
  case None
  then show ?thesis
    using be search_finds [OF x names j] x by (simp add: xal_get_inode_def indexed_def)
next
  case (Some m)
  then have "x\<lparr>path_inode_map := Some m\<rparr> = x" by (cases x) simp
  with known_path [OF x names j, of m] known be Some show ?thesis by (simp add: xal_get_inode_def)
qed

text \<open>
  C4 (every path is found, in both modes). After a successful index, the path of every inode below
  the root leads \<open>xal_get_inode\<close> to that inode, whether there is a map of paths or the tree is
  traversed with a binary search in each directory; the traversal gives the same answer as the map.
\<close>

theorem lookup_finds_every_path:
  assumes "index_start env x" and "is_cstr (mountpoint x)" and "be_type x = XAL_BACKEND_FIEMAP"
    and "fs_names_ok env" and "fs_alloc_ok env AllocFiemap"
    and "xal_be_fiemap_index fuel env x = (Inr u, x')" and "j < itop x'" and "j \<noteq> 0"
  shows "xal_get_inode (Some x') (Some (name (imem x' j))) = Inr j \<and>
    search_by_traversal x' (xal_get_root x') (name (imem x' j)) = Inr j"
proof -
  note x = fiemap_index_indexed [OF assms(1,2,6)]
  have "tree_wf (imem x') (itop x')" "mirrors env x' j" using x assms(7) by (simp_all add: indexed_def)
  then have "in_path_map x' j" using assms(5,7) by (auto simp: mirrors_def tree_wf_def)
  moreover have "be_type x' = XAL_BACKEND_FIEMAP" using fiemap_index_ok [OF assms(1,6)] assms(3) by simp
  ultimately show ?thesis
    using indexed_get [OF x assms(4) _ assms(7,8)] search_finds [OF x assms(4,7,8)] x
    by (simp add: in_path_map_def xal_get_root_def indexed_def)
qed

lemma mini_names_ok: "fs_names_ok mini_fs"
  by (auto simp: fs_names_ok_def mini_fs_def split: if_splits)

lemma mini_facts: "is_cstr (mountpoint mini_xal)" "be_type mini_xal = XAL_BACKEND_FIEMAP" "fs_alloc_ok mini_fs a"
  by (simp_all add: mini_xal_def mini_defs is_cstr_def mini_fs_def)

theorem lookup_finds_every_path_witness:
  "xal_get_inode (Some mini_index) (Some (bytes_of ''/m/a/c'')) = Inr 3"
proof -
  have r: "xal_be_fiemap_index 3 mini_fs mini_xal = (Inr (), mini_index)" by (rule mini_run) simp
  have "name (imem mini_index 3) = bytes_of ''/m/a/c''"
    by (simp add: mini_index_def mini_tree_def mini_paths [symmetric])
  moreover have "3 < itop mini_index" by (simp add: mini_index_def)
  ultimately show ?thesis
    using lookup_finds_every_path [OF mini_good mini_facts(1,2) mini_names_ok mini_facts(3) r, of 3] by simp
qed

text \<open>
  Note (a map built afterwards serves every path). When \<open>xal_build_lookup_hashmap\<close> succeeds on an
  indexed tree, also one without a map or a view on shared pools, every inode below the root whose
  stored name length is not zero is found under its path. The recursion needs at most as many
  levels as there are inodes.
\<close>

theorem built_map_finds_every_path:
  assumes "index_start env x" and "is_cstr (mountpoint x)" and "be_type x = XAL_BACKEND_FIEMAP"
    and "fs_names_ok env" and "xal_be_fiemap_index fuel env x = (Inr u, x')"
    and "itop x' \<le> fuel'" and "xal_build_lookup_hashmap fuel' env (Some x') = (Inr v, Some y)"
    and "j < itop x'" and "j \<noteq> 0" and "0 < namelen (imem x' j)"
  shows "xal_get_inode (Some y) (Some (name (imem x' j))) = Inr j"
proof -
  note x = fiemap_index_indexed [OF assms(1,2,5)]
  have be: "be_type x' = XAL_BACKEND_FIEMAP" using fiemap_index_ok [OF assms(1,5)] assms(3) by simp
  let ?z = "x'\<lparr>path_inode_map := Some (\<lambda>_. None)\<rparr>"
  have tree: "tree_wf (imem x') (itop x')" "{j. descendant (imem x') 0 j} = {0..<itop x'}"
    using x by (simp_all add: indexed_def)
  have root: "root_idx x' = 0" and pos: "0 < itop x'" using x assms(8) by (simp_all add: indexed_def)
  from assms(7) be root have run: "build_hashmap_walk fuel' env 0 ?z = (Inr (), y)"
    by (auto simp: xal_build_lookup_hashmap_def split: if_splits prod.splits sum.splits)
  have tz: "tree_wf (imem ?z) (itop x')" "itop x' \<le> itop ?z" "itop x' - 0 \<le> fuel'"
    using tree assms(6) by simp_all
  note b = build_walk_ok [OF tz(1,2) pos tz(3) run]
  have "descendant (imem x') 0 j" using tree(2) assms(8) by auto
  then have "j \<in> set (subtree fuel' (imem x') 0)"
    by (rule descendant_in_subtree [OF _ tree(1) pos tz(3)])
  with b assms(10) have known: "key_known y (cstr_of (name (imem x' j)))" by simp
  from b obtain m where y: "y = ?z\<lparr>path_inode_map := m\<rparr>" by (auto simp: map_built_def)
  have "path_inode_map y \<noteq> None" using b by (simp add: map_built_def)
  then obtain m' where m': "m = Some m'" by (auto simp: y)
  have "key_known (x'\<lparr>path_inode_map := Some m'\<rparr>) (cstr_of (name (imem x' j)))"
    using known by (simp add: y m')
  from known_path [OF x assms(4,8,9) this]
  have "get_path_inode x' m' (name (imem x' j)) = Some j" .
  moreover have "get_path_inode y m' = get_path_inode x' m'"
    by (simp add: y get_path_inode_def [abs_def] xal_inode_at_def cong: option.case_cong)
  ultimately show ?thesis using be by (simp add: y m' xal_get_inode_def)
qed

theorem built_map_finds_every_path_witness:
  "\<exists>y. xal_build_lookup_hashmap 4 mini_fs (Some mini_index) = (Inr (), Some y) \<and>
     xal_get_inode (Some y) (Some (bytes_of ''/m/b'')) = Inr 2"
proof -
  have r: "xal_be_fiemap_index 3 mini_fs mini_xal = (Inr (), mini_index)" by (rule mini_run) simp
  have b: "be_type mini_index = XAL_BACKEND_FIEMAP" "root_idx mini_index = 0"
    by (simp_all add: mini_index_def mini_defs)
  have m: "imem mini_index = mini_tree" by (simp add: mini_index_def)
  have four: "(4::nat) = Suc (Suc (Suc (Suc 0)))" and two: "[0..<2] = [0, 1]" by (simp_all add: upt_rec)
  have put: "put_path_inode mini_fs i x = (Inr (), x\<lparr>path_inode_map := Some (pm(cstr_of (name (imem x i)) \<mapsto> i))\<rparr>)"
    if "path_inode_map x = Some pm" for i x pm
    using that by (simp add: put_path_inode_def xal_inode_at_def Let_def)
  obtain y where y: "xal_build_lookup_hashmap 4 mini_fs (Some mini_index) = (Inr (), Some y)"
    unfolding four
    by (simp add: two xal_build_lookup_hashmap_def b mini_facts xal_inode_at_def put m mini_tree_def
        content_defs mini_inode_def xal_inode_is_dir_def)
  have n: "name (imem mini_index 2) = bytes_of ''/m/b''" "0 < namelen (imem mini_index 2)"
    by (simp_all add: m mini_tree_def mini_paths [symmetric] mini_inode_def)
  have "itop mini_index \<le> 4" "2 < itop mini_index" by (simp_all add: mini_index_def)
  with built_map_finds_every_path [OF mini_good mini_facts(1,2) mini_names_ok r _ y, of 2] n y
  show ?thesis by simp
qed

text \<open>
  Note (a path through a file resolves to an unrelated inode). The traversal does not check that the
  inode it descends into is a directory, so for a file it takes the range of its extents for
  positions of inodes: a path that goes through a file with one extent finds the inode at the
  position of that extent, under the name of that inode.
\<close>

theorem lookup_through_file_finds_other_inode:
  assumes "index_start env x" and "is_cstr (mountpoint x)" and "fs_names_ok env"
    and "xal_be_fiemap_index fuel env x = (Inr u, x')" and "j < itop x'" and "j \<noteq> 0"
    and "xal_inode_is_file (imem x' j)" and "extents_count (imem x' j) = 1"
    and "e = basename_of (cstr_of (name (imem x' (extents_idx (imem x' j)))))" and "47 \<notin> set e"
  shows "search_by_traversal x' 0 (name (imem x' j) @ 47 # e) = Inr (extents_idx (imem x' j))"
proof -
  note x = fiemap_index_indexed [OF assms(1,2,4)]
  obtain rest where r: "name (imem x' j) = mountpoint x' @ 47 # rest" "rest \<noteq> []"
    "\<And>more. traverse x' 0 (rest @ 47 # more) = traverse x' j more"
    using traverse_to [OF x assms(3,5,6)] by blast
  have "search_dir x' j e = Some (extents_idx (imem x' j))"
    unfolding search_dir_def
    by (rule bsearch_finds)
      (use assms(8,9) in \<open>simp_all add: content_defs xal_inode_at_def compare_name_to_inode_def\<close>)
  then have "traverse x' 0 (rest @ 47 # e) = Inr (extents_idx (imem x' j))"
    using r(3) assms(10) by (simp add: traverse_last)
  then show ?thesis using r(1,2) by (auto simp: search_by_traversal_def Let_def)
qed

theorem lookup_through_file_finds_other_inode_witness:
  "search_by_traversal mini_index 0 (bytes_of ''/m/b/'') = Inr 0"
proof -
  have r: "xal_be_fiemap_index 3 mini_fs mini_xal = (Inr (), mini_index)" by (rule mini_run) simp
  have "imem mini_index = mini_tree" "itop mini_index = 4" by (simp_all add: mini_index_def)
  then have "search_by_traversal mini_index 0 (mini_b @ 47 # []) = Inr 0"
    using lookup_through_file_finds_other_inode [OF mini_good mini_facts(1) mini_names_ok r, of 2 "[]"]
    by (simp add: mini_tree_def content_defs basename_of_def cstr_of_def)
  moreover have "bytes_of ''/m/b/'' = mini_b @ 47 # []" by code_simp
  ultimately show ?thesis by simp
qed

text \<open>
  Note (lookup before the first index reads outside the pool). The check for a missing root compares a
  pointer into the pool with null, which it never is: before \<open>xal_index\<close>, a path below the
  mountpoint makes the traversal read the inode at position \<open>XAL_POOL_IDX_NONE\<close>.
\<close>

theorem lookup_before_index_reads_out_of_bounds:
  assumes "fs_pools_bounded env" and "xal_be_fiemap_open fuel env (Some path) opts = Inr x"
    and "opt_file_lookupmode opts = XAL_FILE_LOOKUPMODE_TRAVERSE" and "rest \<noteq> []"
  shows "xal_get_inode (Some x) (Some (path @ 47 # rest)) = Inl (Fault OutOfBounds)"
  using fiemap_open_ok [OF assms(1,2)] assms(3,4)
  by (auto simp: xal_get_inode_def search_by_traversal_def Let_def)

theorem lookup_before_index_reads_out_of_bounds_witness:
  "\<exists>x. xal_be_fiemap_open 3 mini_fs (Some mini_m) (mini_opts\<lparr>opt_file_lookupmode := XAL_FILE_LOOKUPMODE_TRAVERSE\<rparr>) = Inr x \<and>
     xal_get_inode (Some x) (Some mini_a) = Inl (Fault OutOfBounds)"
proof -
  let ?o = "mini_opts\<lparr>opt_file_lookupmode := XAL_FILE_LOOKUPMODE_TRAVERSE\<rparr>"
  obtain x where x: "xal_be_fiemap_open 3 mini_fs (Some mini_m) ?o = Inr x"
    by (simp add: xal_be_fiemap_open_def mini_kernel mini_opts_def open_watch_def mini_total
      xal_be_fiemap_inotify_init_def Let_def shm_name_too_long_def open_pools_def shm_part_def
      xal_pool_map_def xal_pool_grow_def open_state_def xal_null_def pool_null_def)
  from lookup_before_index_reads_out_of_bounds [OF mini_bounded x, of "[97]"] x show ?thesis by simp
qed

text \<open>The byte after the mountpoint is skipped without a look at it: it need not be a slash.\<close>

lemma separator_not_checked:
  "search_by_traversal x root (mountpoint x @ c # rest) = search_by_traversal x root (mountpoint x @ 47 # rest)"
  by (simp add: search_by_traversal_def Let_def)

end
