(* ===== verification/Xal_Watch.thy ===== *)
theory Xal_Watch
  imports Xal_Lookup
begin

text \<open>
  Watching the file system (src/xal_be_fiemap_inotify.c from \<open>check_events\<close> on): the events of
  inotify, the background thread with its lock and its dirty flag, and the two functions that start
  and stop it. The events of one \<open>read\<close> are a list, \<open>[]\<close> standing for a result that is not positive;
  the thread, \<open>xal_index\<close> and their interleaving are a step relation over the atomic accesses of
  \<open>seq_lock\<close> and \<open>dirty\<close>.
\<close>

section \<open>Events\<close>

record inotify_event =
  ev_wd :: int
  ev_mask :: u32
  ev_name :: cstr

abbreviation IN_MODIFY :: u32 where "IN_MODIFY \<equiv> 0x2"
abbreviation IN_ATTRIB :: u32 where "IN_ATTRIB \<equiv> 0x4"
abbreviation IN_CLOSE_WRITE :: u32 where "IN_CLOSE_WRITE \<equiv> 0x8"
abbreviation IN_MOVE :: u32 where "IN_MOVE \<equiv> 0xC0"
abbreviation IN_CREATE :: u32 where "IN_CREATE \<equiv> 0x100"
abbreviation IN_DELETE :: u32 where "IN_DELETE \<equiv> 0x200"
abbreviation IN_UNMOUNT :: u32 where "IN_UNMOUNT \<equiv> 0x2000"

text \<open>The path built in a buffer of \<open>XAL_PATH_MAXLEN\<close> bytes; the name array ends in zeros.\<close>

definition event_path :: "xal_inode \<Rightarrow> cstr \<Rightarrow> cstr" where
  "event_path dir nm =
     cstr_of (map (\<lambda>k. if k < length (name dir) then name dir ! k else 0) [0..<unat (namelen dir)] @ 47 # nm)"

text \<open>What an event asks for; the update is for the path, below the directory at the position.\<close>

datatype event_action = ActFail fail | ActDirty | ActSkip | ActUpdate nat cstr

definition event_action :: "xal_inotify \<Rightarrow> inotify_event \<Rightarrow> xal \<Rightarrow> event_action" where
  "event_action i ev x =
     (if watch_mode i = XAL_WATCHMODE_DIRTY_DETECTION then ActDirty
      else if ev_mask ev AND IN_UNMOUNT \<noteq> 0 then ActFail (Err (- EINVAL))
      else if ev_mask ev AND (IN_MODIFY OR IN_CLOSE_WRITE) \<noteq> 0 then
        (case inode_map i (ev_wd ev) of
           None \<Rightarrow> ActFail (Err (- EINVAL))
         | Some d \<Rightarrow>
             let dir = xal_inode_at x d
             in if \<not> xal_inode_is_dir dir then ActFail (Err (- EINVAL))
                else if XAL_PATH_MAXLEN < unat (namelen dir) + 1 + length (ev_name ev) + 1
                then ActFail (Err (- EINVAL))
                else ActUpdate d (event_path dir (ev_name ev)))
      else if ev_mask ev AND (IN_CREATE OR IN_DELETE OR IN_MOVE) \<noteq> 0 then ActDirty
      else ActSkip)"

definition find_child :: "xal \<Rightarrow> nat \<Rightarrow> cstr \<Rightarrow> nat option" where
  "find_child x d path =
     map_option (\<lambda>k. dentries_idx (xal_inode_at x d) + k)
       (find (\<lambda>k. cstr_of (name (xal_inode_at x (dentries_idx (xal_inode_at x d) + k))) = path)
         [0..<dentries_count (xal_inode_at x d)])"

section \<open>Updating one file\<close>

text \<open>\<open>atomic_fetch_add(&xal->seq_lock, 1)\<close>\<close>

definition bump :: "xal \<Rightarrow> xal" where
  "bump x = x\<lparr>seq_lock := seq_lock x + 1\<rparr>"

text \<open>The part between the two increments.\<close>

definition update_locked :: "fs_env \<Rightarrow> nat \<Rightarrow> cstr \<Rightarrow> xal \<Rightarrow> (unit, xal) outcome" where
  "update_locked env d path x =
     (case find_child x d path of
        None \<Rightarrow> (Inl (Err (- EINVAL)), x)
      | Some j \<Rightarrow>
          and_then (xal_be_fiemap_process_inode_file env path j x) (\<lambda>_ x.
            case fs_stat env path of
              Inl e \<Rightarrow> (Inl (Err (- e)), x)
            | Inr st \<Rightarrow> (Inr (), mod_inode j (\<lambda>n. n\<lparr>isize := st_size st\<rparr>) x)))"

definition update_file :: "fs_env \<Rightarrow> nat \<Rightarrow> cstr \<Rightarrow> xal \<Rightarrow> (unit, xal) outcome" where
  "update_file env d path x =
     (case update_locked env d path (bump x) of (r, x) \<Rightarrow> (r, bump x))"

text \<open>The result \<open>Inr True\<close> is the return value 1: the tree has changed.\<close>

fun check_buffer :: "fs_env \<Rightarrow> xal_inotify \<Rightarrow> inotify_event list \<Rightarrow> xal \<Rightarrow> (bool, xal) outcome" where
  "check_buffer env i [] x = (Inr False, x)"
| "check_buffer env i (ev # evs) x =
     (case event_action i ev x of
        ActFail e \<Rightarrow> (Inl e, x)
      | ActDirty \<Rightarrow> (Inr True, x)
      | ActSkip \<Rightarrow> check_buffer env i evs x
      | ActUpdate d path \<Rightarrow> and_then (update_file env d path x) (\<lambda>_ x. check_buffer env i evs x))"

definition events_of :: "inotify_event list list \<Rightarrow> inotify_event list" where
  "events_of reads = concat (takeWhile (\<lambda>r. r \<noteq> []) reads)"

definition check_events :: "fs_env \<Rightarrow> inotify_event list list \<Rightarrow> xal_inotify \<Rightarrow> xal \<Rightarrow> (bool, xal) outcome" where
  "check_events env reads i x = check_buffer env i (events_of reads) x"

section \<open>Starting and stopping\<close>

abbreviation XAL_BE_FIEMAP_INOTIFY_RUNNING :: u32 where
  "XAL_BE_FIEMAP_INOTIFY_RUNNING \<equiv> 1"

text \<open>
  \<open>create\<close> is the result of \<open>pthread_create\<close>: an error number, or the new thread. The result tells
  whether a thread was created.
\<close>

definition xal_watch_filesystem :: "bool \<Rightarrow> int + nat \<Rightarrow> xal option \<Rightarrow> (bool, xal option) outcome" where
  "xal_watch_filesystem cb create xo =
     (case xo of
        None \<Rightarrow> (Inl (Err (- EINVAL)), None)
      | Some x \<Rightarrow>
          if be_type x \<noteq> XAL_BACKEND_FIEMAP then (Inl (Err (- EINVAL)), Some x)
          else (case inotify x of
             None \<Rightarrow> (Inl (Err (- EINVAL)), Some x)
           | Some i \<Rightarrow>
               if watch_mode i = XAL_WATCHMODE_NONE then (Inl (Err (- EINVAL)), Some x)
               else if inotify_flag i AND XAL_BE_FIEMAP_INOTIFY_RUNNING \<noteq> 0 then (Inr False, Some x)
               else if root_idx x = XAL_POOL_IDX_NONE then (Inl (Err (- EINVAL)), Some x)
               else let i = i\<lparr>watch_cb := cb\<rparr>
                    in case create of
                         Inl e \<Rightarrow> (Inl (Err (- e)), Some (x\<lparr>inotify := Some i\<rparr>))
                       | Inr t \<Rightarrow> (Inr True, Some (x\<lparr>inotify := Some (i\<lparr>watch_thread := t\<rparr>)\<rparr>))))"

text \<open>
  \<open>cancel\<close> gives the results of \<open>pthread_cancel\<close> for a thread, of the first and of the second call;
  the first is not read.
\<close>

definition xal_stop_watching_filesystem :: "(nat \<Rightarrow> int \<times> int) \<Rightarrow> xal option \<Rightarrow> (unit, xal option) outcome" where
  "xal_stop_watching_filesystem cancel xo =
     (case xo of
        None \<Rightarrow> (Inl (Err (- EINVAL)), None)
      | Some x \<Rightarrow>
          if be_type x \<noteq> XAL_BACKEND_FIEMAP then (Inl (Err (- EINVAL)), Some x)
          else (case inotify x of
             None \<Rightarrow> (Inl (Err (- EINVAL)), Some x)
           | Some i \<Rightarrow>
               if watch_mode i = XAL_WATCHMODE_NONE then (Inl (Err (- EINVAL)), Some x)
               else if inotify_flag i AND NOT XAL_BE_FIEMAP_INOTIFY_RUNNING \<noteq> 0 then (Inl (Err (- EINVAL)), Some x)
               else let err = snd (cancel (watch_thread i))
                    in if err \<noteq> 0 then (Inl (Err (- err)), Some x)
                       else (Inr (), Some (x\<lparr>inotify := Some (i\<lparr>inotify_flag :=
                              inotify_flag i AND NOT XAL_BE_FIEMAP_INOTIFY_RUNNING\<rparr>)\<rparr>))))"

section \<open>The events one by one\<close>

lemma bump_simps [simp]:
  "seq_lock (bump x) = seq_lock x + 1" "dirty (bump x) = dirty x" "inodes (bump x) = inodes x"
  "extents (bump x) = extents x" "inotify (bump x) = inotify x" "sb (bump x) = sb x"
  "mountpoint (bump x) = mountpoint x" "path_inode_map (bump x) = path_inode_map x" "root_idx (bump x) = root_idx x"
  "be_type (bump x) = be_type x"
  by (simp_all add: bump_def)

text \<open>What an update leaves alone on every path: the lock, the flag and all of the tree but one file.\<close>

definition same_flags :: "xal \<Rightarrow> xal \<Rightarrow> bool" where
  "same_flags x y \<longleftrightarrow>
     seq_lock y = seq_lock x \<and> dirty y = dirty x \<and> inotify y = inotify x \<and> root_idx y = root_idx x \<and>
     mountpoint y = mountpoint x \<and> sb y = sb x \<and> be_type y = be_type x"

lemma same_flags_refl [simp]: "same_flags x x"
  by (simp add: same_flags_def)

lemma same_flags_trans: "same_flags x y \<Longrightarrow> same_flags y z \<Longrightarrow> same_flags x z"
  by (simp add: same_flags_def)

lemma same_flags_ops [simp]:
  "same_flags x (put_extent i e x)" "same_flags x (mod_inode i f x)" "same_flags x (mod_content i g x)"
  "same_flags x (x\<lparr>path_inode_map := m\<rparr>)" "same_flags x (x\<lparr>extents := p\<rparr>)"
  by (simp_all add: same_flags_def put_extent_def mod_inode_def mod_content_def put_inode_def)

lemma same_flags_and_then:
  assumes "same_flags x (snd r)" and "\<And>a y. r = (Inr a, y) \<Longrightarrow> same_flags y (snd (k a y))"
  shows "same_flags x (snd (and_then r k))"
  using assms same_flags_trans by (cases r; cases "fst r") fastforce+

lemma same_flags_for_each:
  assumes "\<And>a y. same_flags y (snd (f a y))"
  shows "same_flags x (snd (for_each f as x))"
proof (induction "as" arbitrary: x)
  case (Cons a xs)
  have "same_flags x (snd (and_then (f a x) (\<lambda>_. for_each f xs)))"
    by (rule same_flags_and_then [OF assms Cons.IH])
  then show ?case by simp
qed simp

lemma same_flags_put_path: "same_flags x (snd (put_path_inode env i x))"
  by (simp add: put_path_inode_def Let_def split: option.split)

lemma same_flags_claim: "same_flags x (snd (fs_claim_extents env n x))"
  by (simp add: fs_claim_extents_def split: prod.split)

lemma same_flags_file: "same_flags x (snd (xal_be_fiemap_process_inode_file env path j x))"
proof -
  have "same_flags x (snd (store_fiemap env m es j x))" for m es x
  proof (cases "m = 0")
    case False
    have loop: "same_flags y (snd (for_each (\<lambda>i x. and_then (lift_s (nth_fiemap_extent es i x) x) (\<lambda>e x.
              (Inr (), put_extent (unat idx + i) e x))) [0..<unat m]
            (mod_content j (\<lambda>_. \<lparr>c_idx = idx, c_count = m\<rparr>) y)))" for idx y
      by (rule same_flags_trans [OF _ same_flags_for_each])
        (auto intro!: same_flags_and_then simp: lift_s_def)
    show ?thesis
      using False loop by (auto simp: store_fiemap_def intro!: same_flags_and_then same_flags_claim)
  qed (simp add: store_fiemap_def)
  then show ?thesis
    by (auto simp: xal_be_fiemap_process_inode_file_def lift_s_def intro!: same_flags_and_then same_flags_put_path)
qed

lemma same_flags_locked: "same_flags x (snd (update_locked env d path x))"
  unfolding update_locked_def
  by (auto split: option.split sum.split intro!: same_flags_and_then same_flags_file)

lemma update_file_keeps:
  assumes "update_file env d path x = (r, y)"
  shows "seq_lock y = seq_lock x + 2 \<and> dirty y = dirty x \<and> inotify y = inotify x \<and> mountpoint y = mountpoint x \<and>
    root_idx y = root_idx x"
proof -
  obtain z where "update_locked env d path (bump x) = (r, z)" "y = bump z"
    using assms by (auto simp: update_file_def split: prod.splits)
  with same_flags_locked [of "bump x" env d path] show ?thesis by (simp add: same_flags_def)
qed

text \<open>
  C13 (every change is announced by the lock). Whatever the events are and however the loop ends, the
  lock has advanced by two for every update, so that it is even again when it was even, and a state
  with the same lock is the same state: readers that compare the lock see every change. The dirty
  flag is left to the caller.
\<close>

theorem check_events_advances_lock:
  shows "\<exists>k \<le> length (events_of reads).
    seq_lock (snd (check_events env reads i x)) = seq_lock x + 2 * of_nat k \<and>
    (k = 0 \<longrightarrow> snd (check_events env reads i x) = x) \<and>
    dirty (snd (check_events env reads i x)) = dirty x"
proof -
  have "\<exists>k \<le> length evs. seq_lock (snd (check_buffer env i evs x)) = seq_lock x + 2 * of_nat k \<and>
      (k = 0 \<longrightarrow> snd (check_buffer env i evs x) = x) \<and> dirty (snd (check_buffer env i evs x)) = dirty x" for evs
  proof (induction evs arbitrary: x)
    case (Cons ev evs)
    show ?case
    proof (cases "event_action i ev x")
      case ActSkip
      then show ?thesis using Cons.IH [of x] le_SucI by fastforce
    next
      case (ActUpdate d path)
      obtain r y where u: "update_file env d path x = (r, y)" by fastforce
      note f = update_file_keeps [OF u]
      show ?thesis
      proof (cases r)
        case (Inl e)
        with ActUpdate u f show ?thesis by (intro exI [of _ 1]) simp
      next
        case (Inr a)
        obtain k where "k \<le> length evs" "seq_lock (snd (check_buffer env i evs y)) = seq_lock y + 2 * of_nat k"
            "dirty (snd (check_buffer env i evs y)) = dirty y"
          using Cons.IH [of y] by blast
        with Inr ActUpdate u f show ?thesis
          by (intro exI [of _ "Suc k"]) (simp add: algebra_simps)
      qed
    qed (auto intro: exI [of _ 0])
  qed simp
  then show ?thesis by (simp add: check_events_def)
qed

section \<open>Updates of an indexed tree\<close>

lemma name_length:
  assumes x: "indexed env x" and j: "j < itop x" "j \<noteq> 0"
  shows "unat (namelen (imem x j)) = length (name (imem x j)) \<and> length (name (imem x j)) \<le> XAL_INODE_NAME_MAXLEN"
proof -
  obtain p k where p: "p < j" "xal_inode_is_dir (imem x p)" "k < dentries_count (imem x p)"
      "j = dentries_idx (imem x p) + k"
    using indexed_parent [OF x j] by blast
  have "dir_mirrors env x p" using x j p(1,2) by (auto simp: indexed_def mirrors_def)
  then obtain ds where ds: "dentries_count (imem x p) = length (dir_names ds)"
    and n: "\<And>k. k < length (dir_names ds) \<Longrightarrow>
        name (imem x (dentries_idx (imem x p) + k)) = path_of x p @ 47 # dir_names ds ! k \<and>
        length (path_of x p @ 47 # dir_names ds ! k) \<le> XAL_INODE_NAME_MAXLEN \<and>
        namelen (imem x (dentries_idx (imem x p) + k)) = of_nat (length (path_of x p @ 47 # dir_names ds ! k))"
    unfolding dir_mirrors_def by blast
  from n [of k] p ds have "namelen (imem x j) = of_nat (length (name (imem x j)))"
      "length (name (imem x j)) \<le> XAL_INODE_NAME_MAXLEN" by (metis, metis)
  then show ?thesis by (simp add: unat_of_nat)
qed

lemma event_path_entry:
  assumes x: "indexed env x" "fs_names_ok env" and p: "p < itop x" "p \<noteq> 0" and nm: "is_cstr nm"
  shows "event_path (imem x p) nm = name (imem x p) @ 47 # nm"
proof -
  note len = name_length [OF x(1) p] and c = name_cstr [OF x p]
  have "map (\<lambda>k. if k < length (name (imem x p)) then name (imem x p) ! k else 0) [0..<length (name (imem x p))]
      = name (imem x p)"
    by (rule nth_equalityI) simp_all
  moreover have "is_cstr (name (imem x p))" using c is_cstr_cstr_of by metis
  ultimately show ?thesis
    using len nm by (simp add: event_path_def cstr_of_id is_cstr_def)
qed

lemma entry_in_tree:
  assumes x: "indexed env x" "fs_names_ok env" and p: "p < itop x" "xal_inode_is_dir (imem x p)"
    and k: "k < dentries_count (imem x p)"
  shows "dentries_idx (imem x p) + k < itop x" "dentries_idx (imem x p) + k \<noteq> 0"
    "cstr_of (name (imem x (dentries_idx (imem x p) + k))) = name (imem x (dentries_idx (imem x p) + k))"
    "name (imem x (dentries_idx (imem x p) + k)) \<noteq> []"
proof -
  show j: "dentries_idx (imem x p) + k < itop x" "dentries_idx (imem x p) + k \<noteq> 0"
    using tree_child [of "imem x" "itop x" p k] x(1) p k by (auto simp: indexed_def)
  from name_cstr [OF x j]
  show "cstr_of (name (imem x (dentries_idx (imem x p) + k))) = name (imem x (dentries_idx (imem x p) + k))"
    "name (imem x (dentries_idx (imem x p) + k)) \<noteq> []" by simp_all
qed

lemma find_child_entry:
  assumes x: "indexed env x" "fs_names_ok env" and p: "p < itop x" "xal_inode_is_dir (imem x p)"
    and k: "k < dentries_count (imem x p)"
  shows "find_child x p (name (imem x (dentries_idx (imem x p) + k))) = Some (dentries_idx (imem x p) + k)"
proof -
  let ?f = "dentries_idx (imem x p)" and ?n = "dentries_count (imem x p)"
  note entry = entry_in_tree [OF x p]
  have uniq: "l = k" if l: "l < ?n" "name (imem x (?f + l)) = name (imem x (?f + k))" for l
    using names_distinct [OF x entry(1,2) [OF l(1)] entry(1,2) [OF k] l(2)] by simp
  have "find (\<lambda>l. cstr_of (name (imem x (?f + l))) = name (imem x (?f + k))) [0..<?n] = Some k"
    unfolding find_Some_iff
  proof (intro exI conjI allI impI)
    fix l
    assume "l < k"
    with k have l: "l < ?n" by simp
    with uniq [OF this] \<open>l < k\<close> entry(3) [OF l]
    show "cstr_of (name (imem x (?f + [0..<?n] ! l))) \<noteq> name (imem x (?f + k))" by auto
  qed (use k entry in simp_all)
  then show ?thesis by (simp add: find_child_def xal_inode_at_def)
qed

lemma reprocess_file_ok:
  assumes good: "fs_good env x" and j: "j < itop x" and alloc: "fs_alloc_ok env AllocFiemap"
    and run: "xal_be_fiemap_process_inode_file env path j x = (Inr u, y)"
  shows "xal_inode_is_file (imem x j) \<and>
    (\<exists>m es. read_fiemap env path = Inr (m, es) \<and>
      (m = 0 \<longrightarrow> imem y = imem x \<and> memory (extents y) = memory (extents x)) \<and>
      (m \<noteq> 0 \<longrightarrow> extents_count (imem y j) = unat m \<and> extents_idx (imem y j) = etop x \<and>
         (\<forall>n < unat m. memory (extents y) (etop x + n) = fiemap_to_extent (blocksize (sb x)) (es ! n)))) \<and>
    (\<exists>c. imem y j = (imem x j)\<lparr>content := c\<rparr>) \<and> (\<forall>q. q \<noteq> j \<longrightarrow> imem y q = imem x q) \<and>
    (\<forall>e < etop x. memory (extents y) e = memory (extents x) e) \<and> itop y = itop x"
proof -
  have reg: "xal_inode_is_file (imem x j)"
    using run by (auto simp: xal_be_fiemap_process_inode_file_def xal_inode_at_def split: if_splits)
  with run alloc obtain m es z where rf: "read_fiemap env path = Inr (m, es)"
    and sf: "store_fiemap env m es j x = (Inr (), z)" and put: "put_path_inode env j z = (Inr u, y)"
    by (auto simp: xal_be_fiemap_process_inode_file_def xal_inode_at_def lift_s_def
        elim!: and_then_InrE split: if_splits)
  have y: "inodes y = inodes z" "extents y = extents z"
    using put by (auto simp: put_path_inode_def Let_def split: option.splits if_splits)
  show ?thesis
  proof (cases "m = 0")
    case True
    with sf have "z = x" by (simp add: store_fiemap_def)
    with True rf reg y show ?thesis by (auto intro!: exI [of _ "content (imem x j)"])
  next
    case False
    note s = store_fiemap_ok [OF good j sf False]
    obtain idx where "imem z j = (imem x j)\<lparr>content := \<lparr>c_idx = idx, c_count = m\<rparr>\<rparr>" "unat idx = etop x"
        "\<forall>i < unat m. memory (extents z) (unat idx + i) = fiemap_to_extent (blocksize (sb x)) (es ! i)"
      using s by blast
    moreover have "memory (extents z) e = memory (extents x) e" if "e < etop x" for e
      using s that by (simp add: grows_def)
    ultimately show ?thesis using False rf reg y s by (auto simp: content_defs)
  qed
qed


text \<open>The event of a write to an entry of a directory of the tree.\<close>

definition write_event :: "inotify_event \<Rightarrow> bool" where
  "write_event ev \<longleftrightarrow> ev_mask ev AND IN_UNMOUNT = 0 \<and> ev_mask ev AND (IN_MODIFY OR IN_CLOSE_WRITE) \<noteq> 0"

lemma write_event_action:
  assumes x: "indexed env x" "fs_names_ok env" and p: "p < itop x" "p \<noteq> 0" "xal_inode_is_dir (imem x p)"
    and k: "k < dentries_count (imem x p)" and ev: "write_event ev" "inode_map i (ev_wd ev) = Some p"
    and mode: "watch_mode i = XAL_WATCHMODE_EXTENT_UPDATE"
    and nm: "name (imem x (dentries_idx (imem x p) + k)) = name (imem x p) @ 47 # ev_name ev"
    and len: "length (name (imem x (dentries_idx (imem x p) + k))) < XAL_PATH_MAXLEN"
  shows "event_action i ev x = ActUpdate p (name (imem x (dentries_idx (imem x p) + k)))"
proof -
  let ?j = "dentries_idx (imem x p) + k"
  have "is_cstr (name (imem x ?j))" using entry_in_tree(3) [OF x p(1,3) k] is_cstr_cstr_of by metis
  then have "is_cstr (ev_name ev)" by (simp add: nm is_cstr_def)
  from event_path_entry [OF x p(1,2) this] show ?thesis
    using name_length [OF x(1) p(1,2)] ev mode p(3) nm len
    by (simp add: event_action_def write_event_def xal_inode_at_def Let_def)
qed

text \<open>
  C12 (a write refreshes the extents in place). In the mode \<open>XAL_WATCHMODE_EXTENT_UPDATE\<close>, the event
  of a write to a file below a watched directory other than the mountpoint makes \<open>check_events\<close> read
  the size and the extents the file has now, and leaves every other inode, every extent that was
  claimed before and the dirty flag as they were; the lock advances by two.
\<close>

theorem write_refreshes_file:
  assumes "indexed env0 x" "fs_names_ok env0" and "fs_good env x" "fs_alloc_ok env AllocFiemap"
    and "p < itop x" "p \<noteq> 0" "xal_inode_is_dir (imem x p)" "k < dentries_count (imem x p)"
    and "write_event ev" "inode_map i (ev_wd ev) = Some p" "watch_mode i = XAL_WATCHMODE_EXTENT_UPDATE"
    and j: "j = dentries_idx (imem x p) + k" "name (imem x j) = name (imem x p) @ 47 # ev_name ev"
      "length (name (imem x j)) < XAL_PATH_MAXLEN"
    and run: "check_events env [[ev]] i x = (Inr b, x')"
  shows "\<not> b \<and> seq_lock x' = seq_lock x + 2 \<and>
    (\<exists>st. fs_stat env (name (imem x j)) = Inr st \<and> imem x' j = (imem x j)\<lparr>isize := st_size st, content := content (imem x' j)\<rparr>) \<and>
    (\<exists>m es. read_fiemap env (name (imem x j)) = Inr (m, es) \<and>
      (m \<noteq> 0 \<longrightarrow> extents_count (imem x' j) = unat m \<and>
         (\<forall>n < unat m. memory (extents x') (extents_idx (imem x' j) + n)
            = fiemap_to_extent (blocksize (sb x)) (es ! n)))) \<and>
    (\<forall>q. q \<noteq> j \<longrightarrow> imem x' q = imem x q) \<and> (\<forall>e < etop x. memory (extents x') e = memory (extents x) e)"
proof -
  let ?path = "name (imem x j)"
  have act: "event_action i ev x = ActUpdate p ?path"
    unfolding j(1) by (rule write_event_action) (use assms in \<open>simp_all flip: j(1)\<close>)
  have child: "find_child (bump x) p ?path = Some j"
    using find_child_entry [OF assms(1,2,5,7,8)] by (simp add: find_child_def xal_inode_at_def j(1))
  have jt: "j < itop (bump x)"
    using tree_child [of "imem x" "itop x" p k] assms(1,5,7,8) by (simp add: indexed_def j(1))
  have good: "fs_good env (bump x)" using assms(3) by (simp add: bump_def)
  from run act obtain y where u: "update_file env p ?path x = (Inr (), y)" and y: "\<not> b" "x' = y"
    by (auto simp: check_events_def events_of_def elim!: and_then_InrE)
  from u child obtain z st where
    pr: "xal_be_fiemap_process_inode_file env ?path j (bump x) = (Inr (), z)"
    and st: "fs_stat env ?path = Inr st" "y = bump (mod_inode j (\<lambda>n. n\<lparr>isize := st_size st\<rparr>) z)"
    by (auto simp: update_file_def update_locked_def elim!: and_then_InrE split: prod.splits sum.splits)
  note r = reprocess_file_ok [OF good jt assms(4) pr]
  have mem: "imem y = (imem z)(j := (imem z j)\<lparr>isize := st_size st\<rparr>)" "extents y = extents z"
    by (simp_all add: st mod_inode_def put_inode_def xal_inode_at_def)
  have "seq_lock y = seq_lock x + 2" using update_file_keeps [OF u] by simp
  moreover have "imem y j = (imem x j)\<lparr>isize := st_size st, content := content (imem y j)\<rparr>"
    using r by (auto simp: mem)
  moreover obtain m es where "read_fiemap env ?path = Inr (m, es)"
      "m \<noteq> 0 \<longrightarrow> extents_count (imem y j) = unat m \<and> (\<forall>n < unat m.
         memory (extents y) (extents_idx (imem y j) + n) = fiemap_to_extent (blocksize (sb x)) (es ! n))"
    using r by (auto simp: mem content_defs)
  moreover have "\<forall>q. q \<noteq> j \<longrightarrow> imem y q = imem x q" "\<forall>e < etop x. memory (extents y) e = memory (extents x) e"
    using r by (simp_all add: mem)
  ultimately show ?thesis using y st(1) by blast
qed

text \<open>The small mount after a write to \<open>/m/a/c\<close>, which the thread sees as an event of descriptor 2.\<close>

definition grown_fs :: fs_env where
  "grown_fs = mini_fs\<lparr>
     fs_stat := (fs_stat mini_fs)(mini_c := Inr (mini_stat 0x81A4 4 4096)),
     fs_fiemap_count := (fs_fiemap_count mini_fs)(mini_c := Inr 1),
     fs_fiemap_extents := (fs_fiemap_extents mini_fs)(mini_c := (\<lambda>_.
       Inr (1, [\<lparr>fe_logical = 0, fe_physical = 0x20000, fe_length = 0x1000, fe_flags = 1\<rparr>])))\<rparr>"

definition mini_watch :: xal_inotify where
  "mini_watch = the (inotify mini_index)"

abbreviation write_c :: inotify_event where
  "write_c \<equiv> \<lparr>ev_wd = 2, ev_mask = IN_MODIFY, ev_name = [99]\<rparr>"

lemma mini_watch_parts [simp]:
  "watch_mode mini_watch = XAL_WATCHMODE_EXTENT_UPDATE" "inode_map mini_watch = [1 \<mapsto> 0, 2 \<mapsto> 1]"
  "inotify mini_index = Some mini_watch"
  by (simp_all add: mini_watch_def mini_index_def mini_defs)

lemma mini_index_parts [simp]: "imem mini_index = mini_tree" "itop mini_index = 4" "mountpoint mini_index = mini_m"
  by (simp_all add: mini_index_def)

lemma mini_index_indexed: "indexed mini_fs mini_index"
proof -
  have r: "xal_be_fiemap_index 3 mini_fs mini_xal = (Inr (), mini_index)" by (rule mini_run) simp
  show ?thesis by (rule fiemap_index_indexed [OF mini_good mini_facts(1) r])
qed

lemma grown_good: "fs_good grown_fs mini_index"
  by (simp add: grown_fs_def fs_good_def mini_index_def mini_defs pool_wf_def mprotect_bounded_def
      pool_room_def pool_bytes_def word_le_nat_alt zero_elements_def mini_tree_def mini_extents_def)

lemma mini_entry [simp]:
  "name (mini_tree (Suc 0)) = mini_a" "xal_inode_is_dir (mini_tree (Suc 0))" "dentries_idx (mini_tree (Suc 0)) = 3"
  "dentries_count (mini_tree (Suc 0)) = 1" "name (mini_tree 3) = mini_c" "xal_inode_is_file (mini_tree 3)"
  "namelen (mini_tree (Suc 0)) = 4"
  by (simp_all add: mini_tree_def content_defs mini_inode_def xal_inode_is_dir_def xal_inode_is_file_def)

lemma write_c_action: "event_action mini_watch write_c mini_index = ActUpdate 1 mini_c"
  using write_event_action [OF mini_index_indexed mini_names_ok, of 1 0 write_c mini_watch]
  by (simp add: write_event_def)

lemma grown_locked: "\<exists>y. update_locked grown_fs 1 mini_c (bump mini_index) = (Inr (), y)"
proof -
  have child: "find_child (bump mini_index) 1 mini_c = Some 3"
    using find_child_entry [OF mini_index_indexed mini_names_ok, of 1 0]
    by (simp add: find_child_def xal_inode_at_def)
  let ?e = "\<lparr>fe_logical = 0, fe_physical = 0x20000, fe_length = 0x1000, fe_flags = 1\<rparr>"
  have rf: "read_fiemap grown_fs mini_c = Inr (1, [?e])"
    by (simp add: grown_fs_def mini_fs_def read_fiemap_def Let_def)
  have ops: "fs_open grown_fs p = 0" "fs_alloc_ok grown_fs a" "fs_kh_put_ok grown_fs key"
      "fs_stat grown_fs mini_c = Inr (mini_stat 0x81A4 4 4096)" "fs_extents_os grown_fs = fs_extents_os mini_fs" for p a key
    by (simp_all add: grown_fs_def mini_fs_def)
  have claim: "fs_claim_extents grown_fs 1 (bump mini_index) =
      (Inr 1, (bump mini_index)\<lparr>extents := (extents mini_index)\<lparr>free := 2\<rparr>\<rparr>)"
    by (simp add: fs_claim_extents_def ops xal_pool_claim_extents_def mini_index_def mini_defs bump_def)
  have reg: "xal_inode_is_file (imem (bump mini_index) 3)" by simp
  have blk: "blocksize (sb mini_index) = 4096" by (simp add: mini_index_def mini_defs)
  have put: "\<exists>y. put_path_inode grown_fs 3 x = (Inr (), y)" for x
    by (simp add: put_path_inode_def ops Let_def split: option.split)
  have "\<exists>z. store_fiemap grown_fs 1 [?e] 3 (bump mini_index) = (Inr (), z)"
    by (simp add: store_fiemap_def claim nth_fiemap_extent_def blk mod_content_def mod_inode_def put_inode_def)
  then obtain z where st: "store_fiemap grown_fs 1 [?e] 3 (bump mini_index) = (Inr (), z)" by blast
  obtain w where "put_path_inode grown_fs 3 z = (Inr (), w)" using put by blast
  then show ?thesis
    by (simp add: update_locked_def child [unfolded One_nat_def] xal_be_fiemap_process_inode_file_def xal_inode_at_def ops rf st reg)
qed

lemma grown_run: "\<exists>y. check_events grown_fs [[write_c]] mini_watch mini_index = (Inr False, y)"
proof -
  obtain y where "update_locked grown_fs 1 mini_c (bump mini_index) = (Inr (), y)" using grown_locked by blast
  then show ?thesis by (simp add: check_events_def events_of_def write_c_action update_file_def)
qed

theorem write_refreshes_file_witness:
  "\<exists>x'. check_events grown_fs [[write_c]] mini_watch mini_index = (Inr False, x') \<and> isize (imem x' 3) = 4096"
proof -
  obtain y where y: "check_events grown_fs [[write_c]] mini_watch mini_index = (Inr False, y)"
    using grown_run by blast
  have env: "fs_alloc_ok grown_fs AllocFiemap" "fs_stat grown_fs mini_c = Inr (mini_stat 0x81A4 4 4096)"
    by (simp_all add: grown_fs_def mini_fs_def)
  have w: "write_event write_c" "inode_map mini_watch (ev_wd write_c) = Some 1" by (simp_all add: write_event_def)
  have t: "1 < itop mini_index" "(1::nat) \<noteq> 0" "xal_inode_is_dir (imem mini_index 1)"
    "0 < dentries_count (imem mini_index 1)" "3 = dentries_idx (imem mini_index 1) + 0"
    "name (imem mini_index 3) = name (imem mini_index 1) @ 47 # ev_name write_c"
    "length (name (imem mini_index 3)) < XAL_PATH_MAXLEN" by simp_all
  note write_refreshes_file [OF mini_index_indexed mini_names_ok grown_good env(1) t(1-4) w mini_watch_parts(1) t(5-7) y]
  then have "\<exists>st. fs_stat grown_fs (name (imem mini_index 3)) = Inr st \<and>
      imem y 3 = (imem mini_index 3)\<lparr>isize := st_size st, content := content (imem y 3)\<rparr>" by blast
  then obtain st where st: "fs_stat grown_fs mini_c = Inr st"
      "imem y 3 = (imem mini_index 3)\<lparr>isize := st_size st, content := content (imem y 3)\<rparr>" by auto
  then have "isize (imem y 3) = st_size st" by (metis xal_inode.select_convs(2) xal_inode.surjective xal_inode.update_convs)
  then have "isize (imem y 3) = 4096" using st(1) by (auto simp: env mini_stat_def)
  with y show ?thesis by blast
qed

text \<open>
  C24 (a write to a file directly in the mountpoint ends the watch). The root has an empty name, so
  the path of its entries is built without the mountpoint and no entry has it: \<open>check_events\<close> fails,
  which ends the thread, although the documentation promises that such a write refreshes the
  extents of the file.
\<close>

theorem write_in_mountpoint_ends_watch:
  assumes "indexed env0 x" "fs_names_ok env0" and "mountpoint x \<noteq> []"
    and "write_event ev" "inode_map i (ev_wd ev) = Some 0" "watch_mode i = XAL_WATCHMODE_EXTENT_UPDATE"
    and "is_cstr (ev_name ev)" "47 \<notin> set (ev_name ev)"
  shows "fst (check_events env ((ev # evs) # reads) i x) = Inl (Err (- EINVAL))"
proof (cases "XAL_PATH_MAXLEN < unat (namelen (imem x 0)) + 1 + length (ev_name ev) + 1")
  case True
  then have "event_action i ev x = ActFail (Err (- EINVAL))"
    using assms by (simp add: event_action_def write_event_def xal_inode_at_def Let_def)
  then show ?thesis by (simp add: check_events_def events_of_def)
next
  case False
  let ?path = "event_path (imem x 0) (ev_name ev)"
  have root: "name (imem x 0) = []" "xal_inode_is_dir (imem x 0)" "root_idx x = 0"
    using assms(1) by (simp_all add: indexed_def)
  have act: "event_action i ev x = ActUpdate 0 ?path"
    using False assms root by (simp add: event_action_def write_event_def xal_inode_at_def Let_def)
  have path: "?path = [] \<or> ?path = 47 # ev_name ev"
  proof (cases "unat (namelen (imem x 0))")
    case 0
    then show ?thesis using assms(7) by (simp add: event_path_def root cstr_of_id is_cstr_def)
  next
    case (Suc n)
    then show ?thesis by (simp add: event_path_def root cstr_of_def upt_conv_Cons del: upt_Suc)
  qed
  have other: "cstr_of (name (imem x (dentries_idx (imem x 0) + k))) \<noteq> ?path"
    if k: "k < dentries_count (imem x 0)" for k
  proof -
    let ?j = "dentries_idx (imem x 0) + k"
    have pos: "0 < itop x"
      using assms(1) by (cases "itop x") (auto simp: indexed_def intro: descendant.self)
    note entry = entry_in_tree [OF assms(1,2) pos root(2) k]
    obtain rest where "name (imem x ?j) = mountpoint x @ 47 # rest"
      using traverse_to [OF assms(1,2) entry(1,2)] by blast
    moreover have "mountpoint x @ 47 # rest \<noteq> 47 # ev_name ev"
    proof (cases "mountpoint x")
      case (Cons c m)
      have "47 \<in> set (m @ 47 # rest)" by simp
      with assms(8) have "m @ 47 # rest \<noteq> ev_name ev" by metis
      with Cons show ?thesis by simp
    qed (use assms(3) in simp)
    ultimately show ?thesis using entry(3) path by auto
  qed
  have "find_child (bump x) 0 ?path = None"
    using other by (simp add: find_child_def xal_inode_at_def find_None_iff)
  then show ?thesis
    using act by (simp add: check_events_def events_of_def update_file_def update_locked_def)
qed

theorem write_in_mountpoint_ends_watch_witness:
  "fst (check_events mini_fs [[\<lparr>ev_wd = 1, ev_mask = IN_MODIFY, ev_name = [98]\<rparr>]] mini_watch mini_index)
     = Inl (Err (- EINVAL))"
  by (rule write_in_mountpoint_ends_watch [OF mini_index_indexed mini_names_ok])
    (simp_all add: write_event_def is_cstr_def)

text \<open>
  Note (a truncated file keeps its old extents). When a file has no extents any more, reprocessing
  stores none: the inode gets its new size but keeps the range of the extents it had, whose blocks
  the file system may have given to another file.
\<close>

theorem truncated_file_keeps_extents:
  assumes "read_fiemap env path = Inr (0, es)" and "update_file env d path x = (Inr u, x')"
    and "find_child x d path = Some j"
  shows "content (imem x' j) = content (imem x j) \<and> memory (extents x') = memory (extents x) \<and>
    (\<exists>st. fs_stat env path = Inr st \<and> isize (imem x' j) = st_size st)"
proof -
  have child: "find_child (bump x) d path = Some j"
    using assms(3) by (simp add: find_child_def xal_inode_at_def)
  from assms(2) child obtain z st where
    pr: "xal_be_fiemap_process_inode_file env path j (bump x) = (Inr (), z)"
    and st: "fs_stat env path = Inr st" "x' = bump (mod_inode j (\<lambda>n. n\<lparr>isize := st_size st\<rparr>) z)"
    by (auto simp: update_file_def update_locked_def elim!: and_then_InrE split: prod.splits sum.splits)
  have "inodes z = inodes x \<and> extents z = extents x"
    using pr assms(1)
    by (auto simp: xal_be_fiemap_process_inode_file_def lift_s_def store_fiemap_def put_path_inode_def Let_def
        split: if_splits option.splits)
  then show ?thesis by (simp add: st mod_inode_def put_inode_def xal_inode_at_def)
qed

definition truncated_fs :: fs_env where
  "truncated_fs = mini_fs\<lparr>
     fs_stat := (fs_stat mini_fs)(mini_b := Inr (mini_stat 0x81A4 5 0)),
     fs_fiemap_count := (\<lambda>_. Inr 0), fs_fiemap_extents := (\<lambda>_ _. Inr (0, []))\<rparr>"

theorem truncated_file_keeps_extents_witness:
  "\<exists>x'. update_file truncated_fs 0 mini_b mini_index = (Inr (), x') \<and> content (imem x' 2) = content (mini_tree 2)"
proof -
  have rf: "read_fiemap truncated_fs mini_b = Inr (0, [])"
    by (simp add: truncated_fs_def mini_fs_def read_fiemap_def Let_def)
  have ops: "fs_open truncated_fs p = 0" "fs_alloc_ok truncated_fs a" "fs_kh_put_ok truncated_fs key"
      "fs_stat truncated_fs mini_b = Inr (mini_stat 0x81A4 5 0)" for p a key
    by (simp_all add: truncated_fs_def mini_fs_def)
  have t: "(0::nat) < itop mini_index" "xal_inode_is_dir (imem mini_index 0)" "1 < dentries_count (imem mini_index 0)"
    "dentries_idx (imem mini_index 0) + 1 = 2" "name (imem mini_index 2) = mini_b" "xal_inode_is_file (mini_tree 2)"
    by (simp_all add: mini_tree_def mini_inode_def content_defs xal_inode_is_dir_def xal_inode_is_file_def)
  have child: "find_child mini_index 0 mini_b = Some 2"
    using find_child_entry [OF mini_index_indexed mini_names_ok t(1-3)] unfolding t(4,5) .
  have "find_child (bump mini_index) 0 mini_b = Some 2"
    using child by (simp add: find_child_def xal_inode_at_def)
  moreover obtain z where "put_path_inode truncated_fs 2 (bump mini_index) = (Inr (), z)"
    by (cases "put_path_inode truncated_fs 2 (bump mini_index)")
      (auto simp: put_path_inode_def ops Let_def split: option.splits)
  ultimately obtain y where y: "update_file truncated_fs 0 mini_b mini_index = (Inr (), y)"
    by (simp add: update_file_def update_locked_def xal_be_fiemap_process_inode_file_def xal_inode_at_def
        ops rf store_fiemap_def t(6))
  from truncated_file_keeps_extents [OF rf y child] y show ?thesis by simp
qed

theorem check_events_advances_lock_witness:
  "\<exists>k \<le> length (events_of [[write_c]]). seq_lock (snd (check_events grown_fs [[write_c]] mini_watch mini_index)) = 2 + 2 * of_nat k"
  using check_events_advances_lock [of "[[write_c]]" grown_fs mini_watch mini_index]
  by (auto simp: mini_index_def)

end
