(* ===== verification/Xal_Protocol.thy ===== *)
theory Xal_Protocol
  imports Xal_Watch
begin

text \<open>
  The background threads and \<open>xal_index\<close> as a step relation over the atomic accesses of \<open>seq_lock\<close>
  and \<open>dirty\<close> (src/xal_be_fiemap_inotify.c: background_thread_start, check_events,
  xal_watch_filesystem, xal_stop_watching_filesystem; src/xal_be_fiemap.c: xal_be_fiemap_index): the
  parity of the lock counts those who modify the tree, a change raises the dirty flag, and the
  interleavings in which a reader is misled or two writers meet.
\<close>


section \<open>The index does not look at the flags\<close>

text \<open>
  \<open>flags\<close> overwrites the dirty flag, the lock and the flag of the thread. Indexing commutes with it:
  apart from clearing the dirty flag at the very end, it neither reads nor writes them.
\<close>

definition flags :: "bool \<Rightarrow> u32 \<Rightarrow> u32 \<Rightarrow> xal \<Rightarrow> xal" where
  "flags b n r x = x\<lparr>dirty := b, seq_lock := n, inotify := map_option (\<lambda>i. i\<lparr>inotify_flag := r\<rparr>) (inotify x)\<rparr>"

definition blind :: "(xal \<Rightarrow> ('a, xal) outcome) \<Rightarrow> bool" where
  "blind f \<longleftrightarrow> (\<forall>b n r x. f (flags b n r x) = apsnd (flags b n r) (f x))"

named_theorems blind_intros

lemma flags_parts [simp]:
  "inodes (flags b n r x) = inodes x" "extents (flags b n r x) = extents x" "sb (flags b n r x) = sb x"
  "mountpoint (flags b n r x) = mountpoint x" "path_inode_map (flags b n r x) = path_inode_map x"
  "dirty (flags b n r x) = b" "seq_lock (flags b n r x) = n" "root_idx (flags b n r x) = root_idx x"
  "xal_inode_at (flags b n r x) = xal_inode_at x" "xal_inode_idx (flags b n r x) = xal_inode_idx x"
  "inotify (flags b n r x) = map_option (\<lambda>i. i\<lparr>inotify_flag := r\<rparr>) (inotify x)"
  by (simp_all add: flags_def fun_eq_iff xal_inode_at_def xal_inode_idx_def)

lemma flags_update [simp]:
  "(flags b n r x)\<lparr>inodes := p\<rparr> = flags b n r (x\<lparr>inodes := p\<rparr>)"
  "(flags b n r x)\<lparr>extents := q\<rparr> = flags b n r (x\<lparr>extents := q\<rparr>)"
  "(flags b n r x)\<lparr>path_inode_map := m\<rparr> = flags b n r (x\<lparr>path_inode_map := m\<rparr>)"
  "(flags b n r x)\<lparr>root_idx := i\<rparr> = flags b n r (x\<lparr>root_idx := i\<rparr>)"
  by (simp_all add: flags_def)

lemma flags_mod [simp]:
  "mod_inode i f (flags b n r x) = flags b n r (mod_inode i f x)"
  "mod_content i g (flags b n r x) = flags b n r (mod_content i g x)"
  "put_extent i e (flags b n r x) = flags b n r (put_extent i e x)"
  "name_dentry i p s (flags b n r x) = flags b n r (name_dentry i p s x)"
  by (simp_all add: mod_inode_def mod_content_def put_inode_def put_extent_def name_dentry_def)

lemma flags_content [simp]: "content (xal_inode_at (flags b n r x) i) = content (xal_inode_at x i)"
  by simp

lemma blindD: "blind f \<Longrightarrow> f (flags b n r x) = apsnd (flags b n r) (f x)"
  by (simp add: blind_def)

lemma blind_and_then [blind_intros]:
  assumes "blind f" and "\<And>a. blind (k a)"
  shows "blind (\<lambda>x. and_then (f x) k)"
  unfolding blind_def
proof (intro allI)
  fix b n r x
  obtain q y where "f x = (q, y)" by fastforce
  then show "and_then (f (flags b n r x)) k = apsnd (flags b n r) (and_then (f x) k)"
    using blindD [OF assms(1)] blindD [OF assms(2)] by (cases q) simp_all
qed

lemma blind_for_each [blind_intros]:
  assumes "\<And>a. blind (f a)"
  shows "blind (for_each f xs)"
proof (induction xs)
  case (Cons a xs)
  show ?case using blind_and_then [OF assms [of a] Cons.IH] by (simp add: blind_def)
qed (simp add: blind_def)

lemma blind_if [blind_intros]:
  assumes "\<And>b n r x. c (flags b n r x) = c x" and "blind f" and "blind g"
  shows "blind (\<lambda>x. if c x then f x else g x)"
  using assms by (simp add: blind_def)

lemma blind_pure [blind_intros]: "(\<And>b n r x. q (flags b n r x) = q x) \<Longrightarrow> blind (\<lambda>x. (q x, x))"
  by (simp add: blind_def)

lemma blind_lift [blind_intros]: "(\<And>b n r x. q (flags b n r x) = q x) \<Longrightarrow> blind (\<lambda>x. lift_s (q x) x)"
  by (simp add: blind_def lift_s_def)

lemma blind_claims [blind_intros]: "blind (fs_claim_inodes env m)" "blind (fs_claim_extents env m)"
  by (simp_all add: blind_def fs_claim_inodes_def fs_claim_extents_def split: prod.split)

lemma blind_put_path [blind_intros]: "blind (put_path_inode env i)"
  by (simp add: blind_def put_path_inode_def Let_def split: option.split)

lemma blind_watch [blind_intros]: "blind (watch_directory env path i)"
  unfolding blind_def
proof (intro allI)
  fix b n r x
  have "xal_be_fiemap_inotify_add_watcher env path i d (w\<lparr>inotify_flag := r\<rparr>) =
      apsnd (\<lambda>w. w\<lparr>inotify_flag := r\<rparr>) (xal_be_fiemap_inotify_add_watcher env path i d w)" for d w
    by (simp add: xal_be_fiemap_inotify_add_watcher_def split: sum.split)
  then show "watch_directory env path i (flags b n r x) = apsnd (flags b n r) (watch_directory env path i x)"
    by (cases "inotify x") (auto simp: watch_directory_def flags_def xal_inode_at_def split: prod.split)
qed

lemma blind_store [blind_intros]: "blind (store_fiemap env m es i)"
proof -
  have "blind (\<lambda>x. for_each (\<lambda>k x. and_then (lift_s (nth_fiemap_extent es k x) x) (\<lambda>e x.
      (Inr (), put_extent (unat idx + k) e x))) [0..<unat m] (mod_content i c x))" for idx c
  proof -
    have "blind (for_each (\<lambda>k x. and_then (lift_s (nth_fiemap_extent es k x) x) (\<lambda>e x.
        (Inr (), put_extent (unat idx + k) e x))) [0..<unat m])"
      by (intro blind_intros) (simp_all add: nth_fiemap_extent_def blind_def)
    then show ?thesis by (simp add: blind_def)
  qed
  then show ?thesis
    unfolding store_fiemap_def by (cases "m = 0") (auto intro: blind_intros)
qed

lemma blind_file [blind_intros]: "blind (xal_be_fiemap_process_inode_file env path i)"
  unfolding xal_be_fiemap_process_inode_file_def by (intro blind_intros) simp_all

lemma blind_dir [blind_intros]:
  assumes "\<And>path i. blind (pi path i)"
  shows "blind (xal_be_fiemap_process_inode_dir env pi path i)"
proof -
  have entry: "blind (process_dentry pi path i e)" for e
    using assms by (simp add: blind_def process_dentry_def Let_def)
  have "blind (\<lambda>x. for_each (process_dentry pi path i) es (mod_content i c x))" for es c
    using blind_for_each [of "process_dentry pi path i", OF entry] by (simp add: blind_def)
  then show ?thesis
    unfolding xal_be_fiemap_process_inode_dir_def Let_def
    by (cases "fs_opendir env path") (auto intro!: blind_intros)
qed

lemma blind_process_ino: "blind (process_ino_fiemap fuel env path i)"
proof (induction fuel arbitrary: path i)
  case 0
  show ?case by (simp add: blind_def)
next
  case (Suc fuel)
  have "blind (\<lambda>x. xal_be_fiemap_process_inode_dir env (process_ino_fiemap fuel env) path i (mod_inode i f x))"
      "blind (\<lambda>x. xal_be_fiemap_process_inode_file env path i (mod_inode i f x))"
      "blind (\<lambda>x. (Inl e, mod_inode i f x))" for f e
    using blind_dir [OF Suc.IH] blind_file by (simp_all add: blind_def)
  then show ?case
    by (cases "fs_stat env path") (auto simp: Let_def intro!: blind_intros)
qed


lemma blind_locked:
  assumes "fiemap_index_locked fuel env x = (q, y)"
  shows "fiemap_index_locked fuel env (flags b n r x) =
    (q, flags (if q = Inr () then False else b) n r y)"
proof -
  let ?f = "\<lambda>x. and_then (fs_claim_inodes env 1 x) (\<lambda>root x.
         process_ino_fiemap fuel env (mountpoint x) (unat root)
                     (fiemap_root x (unat root) (x\<lparr>root_idx := root\<rparr>)))"
  let ?c = "\<lambda>x :: xal. x\<lparr>inodes := snd (xal_pool_clear (fs_inodes_os env) (inodes x)),
                extents := snd (xal_pool_clear (fs_extents_os env) (extents x)),
                inotify := map_option xal_be_fiemap_inotify_clear_inode_map (inotify x)\<rparr>"
  have clear: "?c (flags b n r x) = flags b n r (?c x)"
    by (cases "inotify x") (simp_all add: flags_def xal_be_fiemap_inotify_clear_inode_map_def)
  have f: "?f (flags b n r z) = apsnd (flags b n r) (?f z)" for z
  proof (rule blindD)
    have "blind (\<lambda>x. process_ino_fiemap fuel env (mountpoint x) i (fiemap_root x i (x\<lparr>root_idx := j\<rparr>)))" for i j
      using blind_process_ino by (simp add: blind_def fiemap_root_def)
    then show "blind ?f" by (intro blind_intros)
  qed
  define F where "F = ?f"
  define C where "C = ?c"
  have clear': "C (flags b n r x) = flags b n r (C x)" and f': "F (flags b n r (C x)) = apsnd (flags b n r) (F (C x))"
    using clear f by (simp_all add: F_def C_def)
  have split: "fiemap_index_locked fuel env w = and_then (F (C w)) (\<lambda>_ x. (Inr (), x\<lparr>dirty := False\<rparr>))" for w
    by (simp add: fiemap_index_locked_def Let_def and_then_assoc F_def C_def)
  obtain p z where z: "F (C x) = (p, z)" by fastforce
  show ?thesis
  proof (cases p)
    case (Inl e)
    with assms z f' show ?thesis unfolding split clear' by auto
  next
    case (Inr u)
    with assms z f' show ?thesis unfolding split clear' by (auto simp: flags_def)
  qed
qed

lemma flags_own:
  "flags (dirty x) (seq_lock x) r x = x\<lparr>inotify := map_option (\<lambda>i. i\<lparr>inotify_flag := r\<rparr>) (inotify x)\<rparr>"
  by (simp add: flags_def)

lemma locked_keeps:
  assumes "fiemap_index_locked fuel env x = (q, y)"
  shows "seq_lock y = seq_lock x \<and> dirty y = (q \<noteq> Inr () \<and> dirty x)"
proof -
  obtain r where r: "flags (dirty x) (seq_lock x) r x = x"
  proof
    show "flags (dirty x) (seq_lock x) (case inotify x of None \<Rightarrow> 0 | Some i \<Rightarrow> inotify_flag i) x = x"
      by (cases x; cases "inotify x") (auto simp: flags_def)
  qed
  from blind_locked [OF assms, of "dirty x" "seq_lock x" r] assms
  have "y = flags (if q = Inr () then False else dirty x) (seq_lock x) r y" by (simp add: r)
  then have "seq_lock y = seq_lock (flags (if q = Inr () then False else dirty x) (seq_lock x) r y)"
      "dirty y = dirty (flags (if q = Inr () then False else dirty x) (seq_lock x) r y)" by simp_all
  then show ?thesis by simp
qed


section \<open>The threads and the index, step by step\<close>

text \<open>
  Where the user's thread stands in \<open>xal_index\<close>, and where a background thread stands: created, at the
  top of its loop, inside \<open>check_events\<close> with the events that are left, between the two increments of
  the lock before and after the update, exited with the value of \<open>err\<close>, or cancelled, between its two
  increments of the lock or not.
\<close>

datatype index_pc = IndexIdle | IndexRunning | IndexDone "fail + unit"

datatype thread_pc =
    Created | Looping | Checking "inotify_event list"
  | Updating nat cstr "inotify_event list" | Updated "fail + unit" "inotify_event list"
  | Exited fail | Cancelled bool

text \<open>A thread, whether it has been asked to end, and the system: a handle with its threads, oldest first.\<close>

record bg_thread =
  tid :: nat
  pc :: thread_pc
  cancel_pending :: bool

record watch_sys =
  shared :: xal
  user :: index_pc
  threads :: "bg_thread list"
  calls :: nat

definition set_running :: "bool \<Rightarrow> xal \<Rightarrow> xal" where
  "set_running on x =
     x\<lparr>inotify := map_option (\<lambda>i. i\<lparr>inotify_flag :=
        (if on then inotify_flag i OR XAL_BE_FIEMAP_INOTIFY_RUNNING
         else inotify_flag i AND NOT XAL_BE_FIEMAP_INOTIFY_RUNNING)\<rparr>) (inotify x)\<rparr>"

definition thread_alive :: "thread_pc \<Rightarrow> bool" where
  "thread_alive p = (case p of Exited _ \<Rightarrow> False | Cancelled _ \<Rightarrow> False | _ \<Rightarrow> True)"

definition holds_lock :: "thread_pc \<Rightarrow> bool" where
  "holds_lock p = (case p of Updating _ _ _ \<Rightarrow> True | Updated _ _ \<Rightarrow> True | Cancelled b \<Rightarrow> b | _ \<Rightarrow> False)"

text \<open>
  The steps of \<open>background_thread_start\<close> and \<open>check_events\<close> over the shared handle, the place of the
  thread and the number of calls of the callback; each step may see another file system.
\<close>

inductive bg_step :: "xal \<times> thread_pc \<times> nat \<Rightarrow> xal \<times> thread_pc \<times> nat \<Rightarrow> bool" where
  thread_begin: "inotify x \<noteq> None \<Longrightarrow> bg_step (x, Created, n) (set_running True x, Looping, n)"
| thread_begin_fail: "inotify x = None \<Longrightarrow> bg_step (x, Created, n) (x, Exited (Fault NullDeref), n)"
| thread_look: "\<not> dirty x \<Longrightarrow> bg_step (x, Looping, n) (x, Checking evs, n)"
| thread_none: "bg_step (x, Checking [], n) (x, Looping, n)"
| thread_skip:
    "inotify x = Some i \<Longrightarrow> event_action i ev x = ActSkip \<Longrightarrow>
     bg_step (x, Checking (ev # evs), n) (x, Checking evs, n)"
| thread_dirty:
    "inotify x = Some i \<Longrightarrow> event_action i ev x = ActDirty \<Longrightarrow>
     bg_step (x, Checking (ev # evs), n) (x\<lparr>dirty := True\<rparr>, Looping, n + (if watch_cb i then 1 else 0))"
| thread_fail:
    "inotify x = Some i \<Longrightarrow> event_action i ev x = ActFail e \<Longrightarrow>
     bg_step (x, Checking (ev # evs), n) (set_running False x, Exited e, n)"
| thread_lock:
    "inotify x = Some i \<Longrightarrow> event_action i ev x = ActUpdate d path \<Longrightarrow>
     bg_step (x, Checking (ev # evs), n) (bump x, Updating d path evs, n)"
| thread_update:
    "update_locked env d path x = (r, y) \<Longrightarrow> bg_step (x, Updating d path evs, n) (y, Updated r evs, n)"
| thread_unlock: "bg_step (x, Updated (Inr ()) evs, n) (bump x, Checking evs, n)"
| thread_unlock_fail: "bg_step (x, Updated (Inl e) evs, n) (set_running False (bump x), Exited e, n)"

definition put_thread :: "nat \<Rightarrow> xal \<Rightarrow> thread_pc \<Rightarrow> nat \<Rightarrow> watch_sys \<Rightarrow> watch_sys" where
  "put_thread k x p n s =
     s\<lparr>shared := x, threads := (threads s)[k := (threads s ! k)\<lparr>pc := p\<rparr>], calls := n\<rparr>"

inductive thread_step :: "nat \<Rightarrow> watch_sys \<Rightarrow> watch_sys \<Rightarrow> bool" where
  thread_moves:
    "k < length (threads s) \<Longrightarrow> bg_step (shared s, pc (threads s ! k), calls s) (x, p, n) \<Longrightarrow>
     thread_step k s (put_thread k x p n s)"

text \<open>
  A pending cancellation takes effect at a cancellation point: \<open>read\<close>, and the \<open>open\<close> and \<open>close\<close> calls of an
  update. The step is allowed everywhere, which covers these points.
\<close>

inductive cancel_step :: "nat \<Rightarrow> watch_sys \<Rightarrow> watch_sys \<Rightarrow> bool" where
  thread_cancelled:
    "k < length (threads s) \<Longrightarrow> cancel_pending (threads s ! k) \<Longrightarrow> thread_alive (pc (threads s ! k)) \<Longrightarrow>
     cancel_step k s (put_thread k (shared s) (Cancelled (holds_lock (pc (threads s ! k)))) (calls s) s)"

text \<open>
  The steps of the user's thread: the three parts of \<open>xal_index\<close>, \<open>xal_watch_filesystem\<close> and
  \<open>xal_stop_watching_filesystem\<close>, under the conditions that the functions check. The ids that
  \<open>pthread_create\<close> gives out are new, since no thread is ever joined.
\<close>

datatype user_op = IndexBegin | IndexWork | IndexEnd | Watch | WatchFails | Stop

inductive user_step :: "user_op \<Rightarrow> watch_sys \<Rightarrow> watch_sys \<Rightarrow> bool" where
  index_begin:
    "user s = IndexIdle \<Longrightarrow> mountpoint (shared s) \<noteq> [] \<Longrightarrow>
     user_step IndexBegin s (s\<lparr>shared := bump (shared s), user := IndexRunning\<rparr>)"
| index_work:
    "user s = IndexRunning \<Longrightarrow> fiemap_index_locked fuel env (shared s) = (r, x) \<Longrightarrow>
     user_step IndexWork s (s\<lparr>shared := x, user := IndexDone r\<rparr>)"
| index_end:
    "user s = IndexDone r \<Longrightarrow> user_step IndexEnd s (s\<lparr>shared := bump (shared s), user := IndexIdle\<rparr>)"
| watch:
    "user s = IndexIdle \<Longrightarrow> t \<notin> tid ` set (threads s) \<Longrightarrow>
     xal_watch_filesystem cb (Inr t) (Some (shared s)) = (Inr True, Some x) \<Longrightarrow>
     user_step Watch s (s\<lparr>shared := x, threads := threads s @ [\<lparr>tid = t, pc = Created, cancel_pending = False\<rparr>]\<rparr>)"
| watch_fails:
    "user s = IndexIdle \<Longrightarrow> xal_watch_filesystem cb (Inl e) (Some (shared s)) = (r, Some x) \<Longrightarrow>
     user_step WatchFails s (s\<lparr>shared := x\<rparr>)"
| stop:
    "user s = IndexIdle \<Longrightarrow> inotify (shared s) = Some i \<Longrightarrow>
     xal_stop_watching_filesystem cancel (Some (shared s)) = (Inr (), Some x) \<Longrightarrow>
     user_step Stop s (s\<lparr>shared := x,
       threads := map (\<lambda>b. if tid b = watch_thread i then b\<lparr>cancel_pending := True\<rparr> else b) (threads s)\<rparr>)"

text \<open>
  The states that a caller reaches who makes a call only where \<open>ok\<close> allows it. \<open>anytime\<close> is every caller.
  A \<open>careful\<close> caller indexes when the flag is dirty, which is when the README asks for it, or when no
  thread is alive; watches only when no thread is alive; and does not stop the watch. The code asks
  for none of this.
\<close>

inductive reach :: "(user_op \<Rightarrow> watch_sys \<Rightarrow> bool) \<Rightarrow> watch_sys \<Rightarrow> watch_sys \<Rightarrow> bool" for ok s0 where
  reach_start: "reach ok s0 s0"
| reach_thread: "reach ok s0 s \<Longrightarrow> thread_step k s t \<Longrightarrow> reach ok s0 t"
| reach_cancel: "reach ok s0 s \<Longrightarrow> cancel_step k s t \<Longrightarrow> reach ok s0 t"
| reach_user: "reach ok s0 s \<Longrightarrow> ok op s \<Longrightarrow> user_step op s t \<Longrightarrow> reach ok s0 t"

definition anytime :: "user_op \<Rightarrow> watch_sys \<Rightarrow> bool" where
  "anytime op s = True"

definition any_alive :: "watch_sys \<Rightarrow> bool" where
  "any_alive s \<longleftrightarrow> (\<exists>b \<in> set (threads s). thread_alive (pc b))"

definition careful :: "user_op \<Rightarrow> watch_sys \<Rightarrow> bool" where
  "careful op s =
     (case op of IndexBegin \<Rightarrow> dirty (shared s) \<or> \<not> any_alive s | Watch \<Rightarrow> \<not> any_alive s
      | WatchFails \<Rightarrow> \<not> any_alive s | Stop \<Rightarrow> False | _ \<Rightarrow> True)"

text \<open>The state after opening: nothing runs, and the lock is even.\<close>

definition quiet :: "watch_sys \<Rightarrow> bool" where
  "quiet s \<longleftrightarrow> user s = IndexIdle \<and> threads s = [] \<and> even (seq_lock (shared s))"

inductive_cases thread_stepE: "thread_step k s t"
inductive_cases cancel_stepE: "cancel_step k s t"
inductive_cases user_stepE: "user_step op s t"
inductive_cases stopE: "user_step Stop s t"

lemma parts_simps [simp]:
  "seq_lock (set_running b x) = seq_lock x" "dirty (set_running b x) = dirty x"
  "holds_lock Created = False" "holds_lock Looping = False" "holds_lock (Checking evs) = False"
  "holds_lock (Updating d p evs) = True" "holds_lock (Updated r evs) = True"
  "holds_lock (Exited e) = False" "holds_lock (Cancelled b) = b"
  "thread_alive Created = True" "thread_alive Looping = True"
  "thread_alive (Checking evs) = True" "thread_alive (Updating d p evs) = True"
  "thread_alive (Updated r evs) = True" "thread_alive (Exited e) = False" "thread_alive (Cancelled b) = False"
  by (simp_all add: set_running_def holds_lock_def thread_alive_def)

lemma put_thread_simps [simp]:
  "shared (put_thread k x p n s) = x" "user (put_thread k x p n s) = user s" "calls (put_thread k x p n s) = n"
  "length (threads (put_thread k x p n s)) = length (threads s)"
  "threads (put_thread k x p n s) = (threads s)[k := (threads s ! k)\<lparr>pc := p\<rparr>]"
  by (simp_all add: put_thread_def)

lemma reach_invariant:
  assumes "reach ok s0 s" and "I s0"
    and "\<And>k s t. thread_step k s t \<Longrightarrow> I s \<Longrightarrow> I t" and "\<And>k s t. cancel_step k s t \<Longrightarrow> I s \<Longrightarrow> I t"
    and "\<And>op s t. user_step op s t \<Longrightarrow> ok op s \<Longrightarrow> I s \<Longrightarrow> I t"
  shows "I s"
  using assms by (induction rule: reach.induct) blast+

section \<open>The lock\<close>

lemma watch_keeps_lock:
  assumes "xal_watch_filesystem cb create (Some x) = (r, Some y)"
  shows "seq_lock y = seq_lock x \<and> dirty y = dirty x"
  using assms by (auto simp: xal_watch_filesystem_def Let_def split: if_splits option.splits sum.splits)

lemma stop_keeps:
  assumes "xal_stop_watching_filesystem cancel (Some x) = (r, Some y)"
  shows "seq_lock y = seq_lock x \<and> mountpoint y = mountpoint x \<and> dirty y = dirty x"
  using assms by (auto simp: xal_stop_watching_filesystem_def Let_def split: if_splits option.splits)

lemma update_locked_keeps:
  assumes "update_locked env d path x = (r, y)"
  shows "seq_lock y = seq_lock x \<and> dirty y = dirty x"
  using same_flags_locked [of x env d path] assms by (simp add: same_flags_def)

text \<open>Who has taken the lock and not released it: the index, and the threads in an update, alive or not.\<close>

definition writers :: "watch_sys \<Rightarrow> nat" where
  "writers s = (if user s = IndexIdle then 0 else 1) + length (filter (\<lambda>b. holds_lock (pc b)) (threads s))"

lemma length_filter_update:
  assumes "k < length xs"
  shows "length (filter P (xs[k := y])) + (if P (xs ! k) then 1 else 0) = length (filter P xs) + (if P y then 1 else 0)"
proof -
  have "length (filter P xs) = length (filter P (take k xs @ xs ! k # drop (Suc k) xs))"
    using id_take_nth_drop [OF assms] by simp
  then show ?thesis using assms by (simp add: upd_conv_take_nth_drop)
qed

definition lock_inv :: "watch_sys \<Rightarrow> bool" where
  "lock_inv s \<longleftrightarrow> (odd (seq_lock (shared s)) \<longleftrightarrow> odd (writers s))"

lemma bg_step_lock:
  "bg_step (x, p, n) (y, q, m) \<Longrightarrow> (odd (seq_lock y) = odd (seq_lock x)) = (holds_lock q = holds_lock p)"
  by (induction "(x, p, n)" "(y, q, m)" rule: bg_step.induct) (auto dest!: update_locked_keeps)

lemma put_thread_lock:
  assumes "k < length (threads s)" and "lock_inv s"
    and "(odd (seq_lock x) = odd (seq_lock (shared s))) = (holds_lock p = holds_lock (pc (threads s ! k)))"
  shows "lock_inv (put_thread k x p n s)"
proof -
  have "length (filter (\<lambda>b. holds_lock (pc b)) ((threads s)[k := (threads s ! k)\<lparr>pc := p\<rparr>])) +
      (if holds_lock (pc (threads s ! k)) then 1 else 0) =
    length (filter (\<lambda>b. holds_lock (pc b)) (threads s)) + (if holds_lock p then 1 else 0)"
    using length_filter_update [OF assms(1), of "\<lambda>b. holds_lock (pc b)"] by simp
  then have "writers (put_thread k x p n s) + (if holds_lock (pc (threads s ! k)) then 1 else 0) =
      writers s + (if holds_lock p then 1 else 0)" by (simp add: writers_def)
  then have "odd (writers (put_thread k x p n s)) =
      (odd (writers s) = (holds_lock p = holds_lock (pc (threads s ! k))))"
    by (cases "holds_lock p"; cases "holds_lock (pc (threads s ! k))"; simp; presburger)
  with assms(2,3) show ?thesis by (auto simp: lock_inv_def)
qed

lemma thread_step_lock: "thread_step k s t \<Longrightarrow> lock_inv s \<Longrightarrow> lock_inv t"
  by (elim thread_stepE) (simp, rule put_thread_lock, auto dest!: bg_step_lock)

lemma cancel_step_lock: "cancel_step k s t \<Longrightarrow> lock_inv s \<Longrightarrow> lock_inv t"
  by (elim cancel_stepE) (simp, rule put_thread_lock, auto)

lemma pending_pc [simp]:
  "(\<lambda>b. P (pc b)) \<circ> (\<lambda>b. if tid b = t then b\<lparr>cancel_pending := True\<rparr> else b) = (\<lambda>b. P (pc b))"
  by (simp add: fun_eq_iff)

lemma user_step_lock: "user_step op s t \<Longrightarrow> lock_inv s \<Longrightarrow> lock_inv t"
  by (induction rule: user_step.induct)
    (auto simp: lock_inv_def writers_def filter_map dest!: locked_keeps watch_keeps_lock stop_keeps)

lemma reach_lock:
  assumes "quiet s0" and "reach ok s0 s"
  shows "lock_inv s"
  by (rule reach_invariant [OF assms(2) _ thread_step_lock cancel_step_lock user_step_lock])
    (use assms(1) in \<open>auto simp: lock_inv_def quiet_def writers_def\<close>)

text \<open>
  C10 (the parity of the lock counts the writers). From a handle with an even lock and nothing running,
  whatever calls of \<open>xal_index\<close>, \<open>xal_watch_filesystem\<close> and \<open>xal_stop_watching_filesystem\<close> the user makes,
  and in every interleaving with any number of background threads, the lock is odd if and only if the
  number of writers that have taken it and not released it is odd. So a reader can trust an odd lock,
  and an even one only where there is at most one writer; a thread that is cancelled during an update
  counts for ever.
\<close>

theorem lock_parity_counts_writers:
  assumes "quiet s0" and "reach ok s0 s"
  shows "odd (seq_lock (shared s)) \<longleftrightarrow> odd (writers s)"
  using reach_lock [OF assms] by (simp add: lock_inv_def)

section \<open>A careful caller\<close>

text \<open>
  Of the threads of a careful caller at most one is alive, none is cancelled, and while the flag is
  dirty the live one is at the top of its loop.
\<close>

definition idle_pc :: "thread_pc \<Rightarrow> bool" where
  "idle_pc p \<longleftrightarrow> p \<in> {Created, Looping} \<or> (\<exists>e. p = Exited e)"


lemma other_dead:
  assumes "length (filter P xs) \<le> 1" and "k < length xs" and "P (xs ! k)" and "j < length xs" and "j \<noteq> k"
  shows "\<not> P (xs ! j)"
proof
  assume j: "P (xs ! j)"
  have "card {k, j} \<le> card {i. i < length xs \<and> P (xs ! i)}"
    by (rule card_mono) (use assms j in auto)
  then show False using assms(1,5) by (simp add: length_filter_conv_card)
qed

lemma bg_step_idle:
  "bg_step (x, p, n) (y, q, m) \<Longrightarrow> thread_alive p \<and> (\<forall>c. q \<noteq> Cancelled c) \<and>
     (dirty x \<longrightarrow> idle_pc p \<longrightarrow> dirty y \<and> idle_pc q) \<and> (dirty y \<longrightarrow> dirty x \<or> idle_pc q)"
  by (induction "(x, p, n)" "(y, q, m)" rule: bg_step.induct) (auto simp: idle_pc_def dest!: update_locked_keeps)







lemma reach_bg:
  assumes "reach ok s0 s" and "k < length (threads s)"
    and "bg_step (shared s, pc (threads s ! k), calls s) (x, p, n)" and "put_thread k x p n s = t"
  shows "reach ok s0 t"
  using reach_thread [OF assms(1) thread_moves [OF assms(2,3)]] assms(4) by simp

text \<open>
  C25 (an update can hide behind the end of an index). \<open>xal_be_fiemap_index\<close> clears the dirty flag
  before it releases the lock. The thread, which waited for that, may take the lock in between; then
  the lock is even while the thread rewrites the extents of a file, and a reader sees no writer, also
  when the caller is careful.
\<close>

theorem update_hidden_by_index_end:
  assumes "user s = IndexIdle" "k < length (threads s)" "pc (threads s ! k) = Looping"
    and "dirty (shared s)" "even (seq_lock (shared s))"
    and "mountpoint (shared s) \<noteq> []" "fiemap_index_locked fuel env (bump (shared s)) = (Inr (), x)"
    and "inotify x = Some i" "event_action i ev x = ActUpdate d path"
  shows "\<exists>t. reach careful s t \<and> user t = IndexDone (Inr ()) \<and> pc (threads t ! k) = Updating d path [] \<and>
    even (seq_lock (shared t))"
proof -
  let ?a = "s\<lparr>shared := bump (shared s), user := IndexRunning\<rparr>"
  let ?b = "?a\<lparr>shared := x, user := IndexDone (Inr ())\<rparr>"
  let ?c = "put_thread k x (Checking [ev]) (calls ?b) ?b"
  let ?d = "put_thread k (bump x) (Updating d path []) (calls ?c) ?c"
  note keep = locked_keeps [OF assms(7)]
  have a: "user_step IndexBegin s ?a" by (rule index_begin) (use assms in simp_all)
  have b: "user_step IndexWork ?a ?b" by (rule index_work [of ?a fuel env]) (use assms in simp_all)
  have "reach careful s ?b"
    by (rule reach_user [OF reach_user [OF reach_start _ a] _ b]) (use assms in \<open>simp_all add: careful_def\<close>)
  then have "reach careful s ?c"
    by (rule reach_bg) (use assms keep in \<open>auto intro: thread_look\<close>)
  then have "reach careful s ?d"
    by (rule reach_bg) (use assms in \<open>auto intro: thread_lock\<close>)
  moreover have "even (seq_lock (shared ?d))" using keep assms(5) by simp
  ultimately show ?thesis using assms(2) by (intro exI [of _ ?d]) simp
qed

section \<open>Callers that are not careful\<close>

lemma event_action_cong:
  "watch_mode i = watch_mode j \<Longrightarrow> inode_map i = inode_map j \<Longrightarrow> imem x = imem y \<Longrightarrow>
   event_action i ev x = event_action j ev y"
  by (auto simp: event_action_def xal_inode_at_def Let_def split: option.split)

text \<open>
  C26 (an index can run into an update). \<open>xal_index\<close> does not look at the dirty flag or at the threads:
  when it is called while a thread has the write to a file ahead, the index and the update can be
  inside the lock together, and then the lock is even, as if nobody wrote.
\<close>

theorem index_races_with_update:
  assumes "user s = IndexIdle" and "k < length (threads s)" and "pc (threads s ! k) = Checking (ev # evs)"
    and "inotify (shared s) = Some i" and "event_action i ev (shared s) = ActUpdate d path"
    and "mountpoint (shared s) \<noteq> []" and "even (seq_lock (shared s))"
  shows "\<exists>t. reach anytime s t \<and> user t = IndexRunning \<and> pc (threads t ! k) = Updating d path evs \<and>
    even (seq_lock (shared t)) \<and> (\<forall>fuel env. \<exists>u. user_step IndexWork t u)"
proof -
  let ?a = "put_thread k (bump (shared s)) (Updating d path evs) (calls s) s"
  let ?b = "?a\<lparr>shared := bump (shared ?a), user := IndexRunning\<rparr>"
  have "reach anytime s ?a"
    by (rule reach_bg [OF reach_start assms(2)]) (use assms in \<open>auto intro: thread_lock\<close>)
  moreover have "user_step IndexBegin ?a ?b" by (rule index_begin) (use assms in simp_all)
  ultimately have "reach anytime s ?b" by (rule reach_user [OF _ anytime_def [THEN iffD2, OF TrueI]])
  moreover have "\<exists>u. user_step IndexWork ?b u" for fuel :: nat and env :: fs_env
  proof -
    obtain r x where "fiemap_index_locked fuel env (shared ?b) = (r, x)" by fastforce
    then show ?thesis using index_work [of ?b fuel env r x] by auto
  qed
  ultimately show ?thesis using assms(2,7) by (intro exI [of _ ?b]) simp
qed

text \<open>
  C27 (two calls start two threads). The flag that a second \<open>xal_watch_filesystem\<close> looks at is set by the
  first thread when it runs, not by the call that creates it: two calls in a row create two threads.
  Both can then update files at the same time, and the lock is even.
\<close>

theorem second_watch_makes_two_writers:
  assumes "quiet s" and "\<not> dirty (shared s)" and "be_type (shared s) = XAL_BACKEND_FIEMAP"
    and "root_idx (shared s) \<noteq> XAL_POOL_IDX_NONE" and "inotify (shared s) = Some i"
    and "watch_mode i \<noteq> XAL_WATCHMODE_NONE" and "inotify_flag i AND XAL_BE_FIEMAP_INOTIFY_RUNNING = 0"
    and "event_action i ev (shared s) = ActUpdate d path" and "event_action i ev' (shared s) = ActUpdate d' path'"
  shows "\<exists>t. reach anytime s t \<and> map pc (threads t) = [Updating d path [], Updating d' path' []] \<and>
    even (seq_lock (shared t))"
proof -
  let ?th = "\<lambda>n p. \<lparr>tid = n, pc = p, cancel_pending = False\<rparr>"
  let ?s = "\<lambda>x ts. s\<lparr>shared := x, threads := ts\<rparr>"
  let ?i = "\<lambda>n. i\<lparr>watch_cb := False, watch_thread := n\<rparr>"
  let ?x1 = "(shared s)\<lparr>inotify := Some (?i 0)\<rparr>"
  let ?x2 = "(shared s)\<lparr>inotify := Some (?i 1)\<rparr>"
  let ?x = "set_running True (set_running True ?x2)"
  have start: "user s = IndexIdle" "threads s = []" "even (seq_lock (shared s))"
    using assms(1) by (simp_all add: quiet_def)
  have w1: "xal_watch_filesystem False (Inr 0) (Some (shared s)) = (Inr True, Some ?x1)"
    using assms(3-7) by (simp add: xal_watch_filesystem_def)
  have w2: "xal_watch_filesystem False (Inr 1) (Some ?x1) = (Inr True, Some ?x2)"
    using assms(3-7) by (simp add: xal_watch_filesystem_def)
  have u1: "user_step Watch s (?s ?x1 [?th 0 Created])"
    using watch [of s 0 False ?x1] w1 start by simp
  have u2: "user_step Watch (?s ?x1 [?th 0 Created]) (?s ?x2 [?th 0 Created, ?th 1 Created])"
    using watch [of "?s ?x1 [?th 0 Created]" 1 False ?x2] w2 start by simp
  have "reach anytime s (?s ?x2 [?th 0 Created, ?th 1 Created])"
    by (rule reach_user [OF reach_user [OF reach_start _ u1] _ u2]) (simp_all add: anytime_def)
  then have "reach anytime s (?s (set_running True ?x2) [?th 0 Looping, ?th 1 Created])"
    by (rule reach_bg [where k = 0]) (auto intro: thread_begin simp: put_thread_def)
  then have "reach anytime s (?s ?x [?th 0 Looping, ?th 1 Looping])"
    by (rule reach_bg [where k = 1]) (auto intro: thread_begin simp: put_thread_def set_running_def)
  moreover have x: "inotify ?x = Some ((?i 1)\<lparr>inotify_flag := inotify_flag i OR XAL_BE_FIEMAP_INOTIFY_RUNNING OR XAL_BE_FIEMAP_INOTIFY_RUNNING\<rparr>)"
      "imem ?x = imem (shared s)" "dirty ?x = dirty (shared s)" "seq_lock ?x = seq_lock (shared s)"
    by (simp_all add: set_running_def)
  moreover obtain y where y: "?x = y" by simp
  ultimately have r: "reach anytime s (?s y [?th 0 Looping, ?th 1 Looping])"
    and y': "inotify y = Some ((?i 1)\<lparr>inotify_flag := inotify_flag i OR XAL_BE_FIEMAP_INOTIFY_RUNNING OR XAL_BE_FIEMAP_INOTIFY_RUNNING\<rparr>)"
      "imem y = imem (shared s)" "\<not> dirty y" "seq_lock y = seq_lock (shared s)"
    using assms(2) by (simp_all only:) simp_all
  have act: "event_action ((?i 1)\<lparr>inotify_flag := f\<rparr>) e z = event_action i e (shared s)"
    if "imem z = imem (shared s)" for f e z
    by (rule event_action_cong) (use that in simp_all)
  from r have "reach anytime s (?s y [?th 0 (Checking [ev]), ?th 1 Looping])"
    by (rule reach_bg [where k = 0]) (auto intro: thread_look simp: put_thread_def y')
  then have "reach anytime s (?s y [?th 0 (Checking [ev]), ?th 1 (Checking [ev'])])"
    by (rule reach_bg [where k = 1]) (auto intro: thread_look simp: put_thread_def y')
  moreover have l1: "bg_step (y, Checking [ev], n) (bump y, Updating d path [], n)" for n
    by (rule thread_lock [OF y'(1)]) (simp add: act [unfolded One_nat_def] y'(2) assms(8))
  moreover have l2: "bg_step (bump y, Checking [ev'], n) (bump (bump y), Updating d' path' [], n)" for n
    by (rule thread_lock [OF trans [OF bump_simps(5) y'(1)]]) (simp add: act [unfolded One_nat_def] y'(2) assms(9))
  ultimately have "reach anytime s (?s (bump y) [?th 0 (Updating d path []), ?th 1 (Checking [ev'])])"
    by (elim reach_bg [where k = 0 and x = "bump y" and p = "Updating d path []" and n = "calls s"]) (simp_all add: put_thread_def)
  then have "reach anytime s (?s (bump (bump y)) [?th 0 (Updating d path []), ?th 1 (Updating d' path' [])])"
    by (rule reach_bg [where k = 1 and x = "bump (bump y)" and p = "Updating d' path' []" and n = "calls s"])
      (simp_all add: put_thread_def l2)
  then show ?thesis using start y' by (intro exI [of _ "?s (bump (bump y)) _"]) auto
qed

subsection \<open>A small run\<close>

definition mini_sys :: watch_sys where
  "mini_sys = \<lparr>shared = mini_xal, user = IndexIdle, threads = [], calls = 0\<rparr>"

lemma mini_quiet: "quiet mini_sys"
  by (simp add: quiet_def mini_sys_def mini_xal_def mini_defs)

definition mini_indexing :: watch_sys where
  "mini_indexing = mini_sys\<lparr>shared := bump mini_xal, user := IndexRunning\<rparr>"

lemma mini_indexing_reached: "reach careful mini_sys mini_indexing"
proof -
  have "user_step IndexBegin mini_sys (mini_sys\<lparr>shared := bump (shared mini_sys), user := IndexRunning\<rparr>)"
    by (rule index_begin) (simp_all add: mini_sys_def mini_xal_def mini_defs)
  moreover have "careful IndexBegin mini_sys" by (simp add: careful_def any_alive_def mini_sys_def)
  ultimately show ?thesis
    unfolding mini_indexing_def using reach_user [OF reach_start] by (simp add: mini_sys_def)
qed

theorem lock_parity_counts_writers_witness: "odd (seq_lock (shared mini_indexing)) \<and> writers mini_indexing = 1"
  using lock_parity_counts_writers [OF mini_quiet mini_indexing_reached]
  by (simp add: mini_indexing_def mini_sys_def writers_def)


abbreviation one_thread :: "thread_pc \<Rightarrow> bg_thread list" where
  "one_thread p \<equiv> [\<lparr>tid = 1, pc = p, cancel_pending = False\<rparr>]"

text \<open>The same mount, dirty, with a thread in its loop.\<close>

definition mini_dirty :: watch_sys where
  "mini_dirty = \<lparr>shared = flags True 0 1 mini_xal, user = IndexIdle, threads = one_thread Looping, calls = 0\<rparr>"

theorem update_hidden_by_index_end_witness:
  "\<exists>t. reach careful mini_dirty t \<and> user t = IndexDone (Inr ()) \<and> pc (threads t ! 0) = Updating 1 mini_c [] \<and>
     even (seq_lock (shared t))"
proof -
  obtain y where y: "fiemap_index_locked (Suc (Suc (Suc 0))) mini_fs (mini_xal\<lparr>seq_lock := 1\<rparr>) = (Inr (), y)"
    "imem y = mini_tree" "inotify y = Some mini_watch"
    by (simp add: mini_locked mini_watch_def mini_index_def mini_defs)
  have bump: "bump (flags True 0 1 mini_xal) = flags True 1 1 (mini_xal\<lparr>seq_lock := 1\<rparr>)"
    by (simp add: bump_def flags_def)
  have run: "fiemap_index_locked (Suc (Suc (Suc 0))) mini_fs (bump (shared mini_dirty)) = (Inr (), flags False 1 1 y)"
    using blind_locked [OF y(1), of True 1 1] by (simp add: mini_dirty_def bump)
  have act: "event_action (mini_watch\<lparr>inotify_flag := 1\<rparr>) write_c (flags False 1 1 y) = ActUpdate 1 mini_c"
    unfolding write_c_action [symmetric] by (rule event_action_cong) (simp_all add: y)
  have start: "user mini_dirty = IndexIdle" "0 < length (threads mini_dirty)" "pc (threads mini_dirty ! 0) = Looping"
    "dirty (shared mini_dirty)" "even (seq_lock (shared mini_dirty))" "mountpoint (shared mini_dirty) \<noteq> []"
    by (simp_all add: mini_dirty_def mini_xal_def mini_defs)
  show ?thesis
    by (rule update_hidden_by_index_end [OF start run _ act]) (simp add: y)
qed

lemma mini_index_clean [simp]: "\<not> dirty mini_index"
  by (simp add: mini_index_def)

lemma mini_rebuilt_parts:
  "inotify mini_index = Some mini_watch" "be_type mini_index = XAL_BACKEND_FIEMAP" "root_idx mini_index = 0"
  "inotify_flag mini_watch = 0" "watch_mode mini_watch \<noteq> XAL_WATCHMODE_NONE" "mountpoint mini_index \<noteq> []"
  "even (seq_lock mini_index)" "imem mini_index = mini_tree"
  by (simp_all add: mini_watch_def mini_index_def mini_defs)

theorem index_races_with_update_witness:
  "\<exists>t. reach anytime \<lparr>shared = mini_index, user = IndexIdle, threads = one_thread (Checking [write_c]), calls = 0\<rparr> t \<and>
     user t = IndexRunning \<and> pc (threads t ! 0) = Updating 1 mini_c [] \<and> even (seq_lock (shared t))"
proof -
  have act: "event_action mini_watch write_c mini_index = ActUpdate 1 mini_c"
    unfolding write_c_action [symmetric] by (rule event_action_cong) (simp_all add: mini_rebuilt_parts)
  show ?thesis
    using index_races_with_update [of "\<lparr>shared = mini_index, user = IndexIdle, threads = one_thread (Checking [write_c]), calls = 0\<rparr>"
      0 write_c "[]", OF _ _ _ _ _ _ _] mini_rebuilt_parts act by simp blast
qed

theorem second_watch_makes_two_writers_witness:
  "\<exists>t. reach anytime (mini_sys\<lparr>shared := mini_index\<rparr>) t \<and>
     map pc (threads t) = [Updating 1 mini_c [], Updating 1 mini_c []] \<and> even (seq_lock (shared t))"
proof (rule second_watch_makes_two_writers)
  show "quiet (mini_sys\<lparr>shared := mini_index\<rparr>)" by (simp add: quiet_def mini_sys_def mini_rebuilt_parts)
  show "event_action mini_watch write_c (shared (mini_sys\<lparr>shared := mini_index\<rparr>)) = ActUpdate 1 mini_c"
    "event_action mini_watch write_c (shared (mini_sys\<lparr>shared := mini_index\<rparr>)) = ActUpdate 1 mini_c"
    unfolding write_c_action [symmetric] by (rule event_action_cong; simp add: mini_rebuilt_parts)+
qed (simp_all add: mini_rebuilt_parts)

section \<open>A change is noticed\<close>

text \<open>
  \<open>leads_to P s\<close>: every run from \<open>s\<close>, of all threads and a careful caller in any order, comes to a state
  with \<open>P\<close>, and none stops before.
\<close>

inductive leads_to :: "(watch_sys \<Rightarrow> bool) \<Rightarrow> watch_sys \<Rightarrow> bool" for P where
  leads_here: "P s \<Longrightarrow> leads_to P s"
| leads_step:
    "thread_step k s t0 \<Longrightarrow> (\<And>j t. thread_step j s t \<Longrightarrow> leads_to P t) \<Longrightarrow>
     (\<And>op t. user_step op s t \<Longrightarrow> careful op s \<Longrightarrow> leads_to P t) \<Longrightarrow> leads_to P s"

text \<open>An event that changes the tree, for the mode of the watch.\<close>

definition change_event :: "xal_inotify \<Rightarrow> inotify_event \<Rightarrow> bool" where
  "change_event i ev \<longleftrightarrow>
     watch_mode i = XAL_WATCHMODE_DIRTY_DETECTION \<or>
     ev_mask ev AND IN_UNMOUNT = 0 \<and> ev_mask ev AND (IN_MODIFY OR IN_CLOSE_WRITE) = 0 \<and>
     ev_mask ev AND (IN_CREATE OR IN_DELETE OR IN_MOVE) \<noteq> 0"

lemma change_event_action: "change_event i ev \<Longrightarrow> event_action i ev x = ActDirty"
  by (auto simp: change_event_def event_action_def)

fun left_events :: "thread_pc \<Rightarrow> inotify_event list" where
  "left_events (Checking evs) = evs"
| "left_events (Updating d path evs) = evs"
| "left_events (Updated r evs) = evs"
| "left_events t = []"

definition pc_rank :: "thread_pc \<Rightarrow> nat" where
  "pc_rank p = 3 * length (left_events p) + (case p of Updating d path evs \<Rightarrow> 2 | Updated r evs \<Rightarrow> 1 | _ \<Rightarrow> 0)"

definition rank :: "nat \<Rightarrow> watch_sys \<Rightarrow> nat" where
  "rank k s = pc_rank (pc (threads s ! k)) + (if user s = IndexIdle then 0 else 1)"

text \<open>The thread, the only one alive, has a change ahead, and the index is not at work.\<close>

definition change_ahead :: "xal_inotify \<Rightarrow> nat \<Rightarrow> watch_sys \<Rightarrow> bool" where
  "change_ahead i k s \<longleftrightarrow>
     inotify (shared s) = Some i \<and> \<not> dirty (shared s) \<and> user s \<noteq> IndexRunning \<and> k < length (threads s) \<and>
     (\<forall>j < length (threads s). j \<noteq> k \<longrightarrow> \<not> thread_alive (pc (threads s ! j))) \<and>
     (\<exists>ev \<in> set (left_events (pc (threads s ! k))). change_event i ev)"

definition noticed :: "nat \<Rightarrow> watch_sys \<Rightarrow> bool" where
  "noticed k s \<longleftrightarrow> dirty (shared s) \<or> (\<exists>e. pc (threads s ! k) = Exited e)"

lemma left_events_alive: "ev \<in> set (left_events p) \<Longrightarrow> thread_alive p"
  by (cases p) auto

lemma ahead_bg_step:
  assumes "bg_step (x, p, n) (y, q, m)" and "inotify x = Some i" and "\<not> dirty x"
    and "\<exists>ev \<in> set (left_events p). change_event i ev"
  shows "dirty y \<or> (\<exists>e. q = Exited e) \<or>
    inotify y = Some i \<and> (\<exists>ev \<in> set (left_events q). change_event i ev) \<and> pc_rank q < pc_rank p"
  using assms
proof (induction "(x, p, n)" "(y, q, m)" rule: bg_step.induct)
  case (thread_update env d path r evs)
  have "inotify y = inotify x"
    using same_flags_locked [of x env d path] thread_update(1) by (simp add: same_flags_def)
  then show ?case using thread_update by (auto simp: pc_rank_def)
next
  case (thread_skip j ev)
  then have "\<not> change_event i ev" using change_event_action by fastforce
  with thread_skip show ?case by (auto simp: pc_rank_def)
next
  case (thread_lock j ev d path evs)
  then have "\<not> change_event i ev" using change_event_action by fastforce
  with thread_lock show ?case by (auto simp: pc_rank_def)
qed (auto simp: pc_rank_def)

lemma ahead_thread_step:
  assumes "thread_step j s t" and ahead: "change_ahead i k s"
  shows "noticed k t \<or> change_ahead i k t \<and> rank k t < rank k s"
proof -
  from assms(1) obtain x p n where j: "j < length (threads s)"
    and b: "bg_step (shared s, pc (threads s ! j), calls s) (x, p, n)" and t: "t = put_thread j x p n s"
    by (elim thread_stepE) blast
  have "j = k" using bg_step_idle [OF b] ahead j by (auto simp: change_ahead_def)
  with b ahead ahead_bg_step [OF b] show ?thesis
    by (auto simp: t change_ahead_def noticed_def rank_def)
qed

lemma ahead_user_step:
  assumes "user_step op s t" and "careful op s" and ahead: "change_ahead i k s"
  shows "change_ahead i k t \<and> rank k t < rank k s"
proof -
  have "any_alive s"
    using ahead left_events_alive by (auto simp: change_ahead_def any_alive_def intro!: bexI [of _ "threads s ! k"])
  with assms show ?thesis
    by (induction rule: user_step.induct) (auto simp: change_ahead_def rank_def careful_def)
qed

lemma ahead_progress:
  assumes "change_ahead i k s"
  shows "\<exists>t. thread_step k s t"
proof -
  have k: "k < length (threads s)" and i: "inotify (shared s) = Some i" using assms by (simp_all add: change_ahead_def)
  let ?p = "pc (threads s ! k)"
  have "\<exists>y. bg_step (shared s, ?p, calls s) y"
  proof (cases ?p)
    case (Checking evs)
    with assms obtain ev more where evs: "evs = ev # more" by (cases evs) (auto simp: change_ahead_def)
    show ?thesis unfolding Checking evs
      by (cases "event_action i ev (shared s)")
        (blast intro: thread_fail [OF i] thread_dirty [OF i] thread_skip [OF i] thread_lock [OF i])+
  next
    case (Updating d path evs)
    obtain r x where "update_locked undefined d path (shared s) = (r, x)" by fastforce
    then show ?thesis unfolding Updating by (intro exI, rule thread_update)
  next
    case (Updated r evs)
    show ?thesis
    proof (cases r)
      case (Inl e)
      show ?thesis unfolding Updated Inl by (intro exI, rule thread_unlock_fail)
    next
      case (Inr u)
      show ?thesis unfolding Updated Inr by (intro exI, simp, rule thread_unlock)
    qed
  qed (use assms in \<open>auto simp: change_ahead_def\<close>)
  then show ?thesis using thread_moves [OF k] by (metis prod_cases3)
qed

text \<open>
  C7 (a change is noticed). Once the thread has read the event of a creation, a deletion or a
  rename, or any event in the mode \<open>XAL_WATCHMODE_DIRTY_DETECTION\<close>, every continuation with a careful
  caller sets the dirty flag or ends the thread with an error; nothing it has to do before, however
  many files it updates first, can keep it from getting there.
\<close>

theorem change_is_noticed:
  assumes "k < length (threads s)" and "pc (threads s ! k) = Checking evs" and "ev \<in> set evs" and "change_event i ev"
    and "\<And>j. j < length (threads s) \<Longrightarrow> j \<noteq> k \<Longrightarrow> \<not> thread_alive (pc (threads s ! j))"
    and "inotify (shared s) = Some i" and "\<not> dirty (shared s)" and "user s \<noteq> IndexRunning"
  shows "leads_to (noticed k) s"
proof -
  have "change_ahead i k s" using assms by (auto simp: change_ahead_def)
  then show ?thesis
  proof (induction "rank k s" arbitrary: s rule: less_induct)
    case less
    obtain t0 where "thread_step k s t0" using ahead_progress [OF less.prems] by blast
    then show ?case
    proof (rule leads_step)
      show "leads_to (noticed k) t" if "thread_step j s t" for j t
        using ahead_thread_step [OF that less.prems] less.hyps leads_here by blast
      show "leads_to (noticed k) t" if "user_step op s t" "careful op s" for op t
        using ahead_user_step [OF that less.prems] less.hyps by blast
    qed
  qed
qed

theorem change_is_noticed_witness:
  "leads_to (noticed 0) (mini_dirty\<lparr>shared := mini_index,
     threads := one_thread (Checking [write_c, \<lparr>ev_wd = 2, ev_mask = IN_CREATE, ev_name = [100]\<rparr>])\<rparr>)"
    (is "leads_to _ ?s")
proof -
  let ?ev = "\<lparr>ev_wd = 2, ev_mask = IN_CREATE, ev_name = [100]\<rparr>"
  have ev: "change_event mini_watch ?ev" by (simp add: change_event_def)
  have "?ev \<in> set [write_c, ?ev]" by (intro list.set_intros)
  from change_is_noticed [of 0 ?s "[write_c, ?ev]" ?ev mini_watch, OF _ _ this ev] show ?thesis
    by (simp add: mini_dirty_def mini_rebuilt_parts)
qed

section \<open>Stopping\<close>

text \<open>
  C28 (stopping during an update leaves the lock odd). \<open>xal_stop_watching_filesystem\<close> cancels the thread
  where it stands. When that is inside the update of a file, by the only writer, no one releases the
  lock: it stays odd although nobody writes any more, and during the next index it is even.
\<close>

theorem stop_during_update_inverts_lock:
  assumes "quiet s0" and "reach ok s0 s" and "user_step Stop s t" and "cancel_step k t u"
    and "pc (threads s ! k) = Updating d path evs" and "writers s = 1" and "mountpoint (shared s) \<noteq> []"
  shows "odd (seq_lock (shared u)) \<and> user u = IndexIdle \<and> pc (threads u ! k) = Cancelled True \<and>
    (\<forall>b \<in> set (threads u). thread_alive (pc b) \<longrightarrow> \<not> holds_lock (pc b)) \<and>
    (\<exists>v. user_step IndexBegin u v \<and> user v = IndexRunning \<and> even (seq_lock (shared v)))"
proof -
  from assms(3) obtain cancel x f where st: "user s = IndexIdle"
      "xal_stop_watching_filesystem cancel (Some (shared s)) = (Inr (), Some x)"
    and t: "t = s\<lparr>shared := x, threads := map f (threads s)\<rparr>" and f: "\<And>b. pc (f b) = pc b"
    by (elim stopE) (rule that, assumption+, simp)
  have k: "k < length (threads s)" and u: "u = put_thread k x (Cancelled True) (calls t) t"
    using assms(4,5) by (auto simp: t f elim!: cancel_stepE)
  note keep = stop_keeps [OF st(2)]
  have odd: "odd (seq_lock (shared u))"
    using reach_lock [OF assms(1,2)] assms(6) keep by (simp add: u lock_inv_def)
  have ul: "mountpoint (shared u) \<noteq> []" "user u = IndexIdle" using keep assms(7) st(1) by (simp_all add: u t)
  have pcs: "map pc (threads u) = (map pc (threads s))[k := Cancelled True]"
    using k by (simp add: u t map_update comp_def f)
  have one: "length (filter (\<lambda>b. holds_lock (pc b)) (threads s)) \<le> 1" using assms(6) st(1) by (simp add: writers_def)
  have "thread_alive (pc b) \<longrightarrow> \<not> holds_lock (pc b)" if b: "b \<in> set (threads u)" for b
  proof -
    obtain j where j: "j < length (threads u)" "pc b = map pc (threads u) ! j" using b by (auto simp: in_set_conv_nth)
    then have j': "j < length (threads s)" by (simp add: u t)
    show ?thesis
    proof (cases "j = k")
      case False
      with other_dead [OF one k _ j' False] assms(5) j j' show ?thesis by (simp add: pcs)
    qed (use j j' in \<open>simp add: pcs\<close>)
  qed
  moreover have "pc (threads u ! k) = Cancelled True" using k by (simp add: u t)
  ultimately show ?thesis using odd ul index_begin [OF ul(2,1)] by fastforce
qed

text \<open>The small mount, indexed, watched, and stopped while the thread updates \<open>/m/a/c\<close>.\<close>

definition mini_watched :: xal where
  "mini_watched = mini_index\<lparr>inotify := Some (mini_watch\<lparr>watch_thread := 1, inotify_flag := 1\<rparr>)\<rparr>"

definition mini_updating :: watch_sys where
  "mini_updating = \<lparr>shared = bump mini_watched, user = IndexIdle, threads = one_thread (Updating 1 mini_c []), calls = 0\<rparr>"

lemma mini_updating_reached: "reach anytime mini_sys mini_updating"
proof -
  let ?sys = "\<lambda>x u ts. \<lparr>shared = x, user = u, threads = ts, calls = 0\<rparr> :: watch_sys"
  let ?y = "mini_index\<lparr>seq_lock := 1\<rparr>"
  let ?w = "mini_index\<lparr>inotify := Some (mini_watch\<lparr>watch_thread := 1\<rparr>)\<rparr>"
  have locked: "fiemap_index_locked (Suc (Suc (Suc 0))) mini_fs (bump mini_xal) = (Inr (), ?y)"
  proof -
    have "bump mini_xal = mini_xal\<lparr>seq_lock := 1\<rparr>" by (simp add: bump_def mini_xal_def mini_defs)
    then show ?thesis by (simp add: mini_locked mini_index_def) (simp add: mini_defs)
  qed
  have "mountpoint mini_xal \<noteq> []" by (simp add: mini_xal_def mini_defs)
  then have 1: "reach anytime mini_sys (?sys (bump mini_xal) IndexRunning [])"
    using reach_user [OF reach_start _ index_begin [of mini_sys], of anytime] by (simp add: mini_sys_def anytime_def)
  have 2: "reach anytime mini_sys (?sys ?y (IndexDone (Inr ())) [])"
    using reach_user [OF 1 _ index_work [of "?sys (bump mini_xal) IndexRunning []", simplified, OF locked]]
    by (simp add: anytime_def)
  have y: "bump ?y = mini_index" by (simp add: bump_def mini_index_def)
  have 3: "reach anytime mini_sys (?sys mini_index IndexIdle [])"
    using reach_user [OF 2 _ index_end] by (simp add: y anytime_def)
  have w: "xal_watch_filesystem False (Inr 1) (Some mini_index) = (Inr True, Some ?w)"
  proof -
    have "mini_watch\<lparr>watch_cb := False\<rparr> = mini_watch" by (simp add: mini_watch_def mini_index_def mini_defs)
    then show ?thesis using mini_rebuilt_parts by (simp add: xal_watch_filesystem_def)
  qed
  have 4: "reach anytime mini_sys (?sys ?w IndexIdle (one_thread Created))"
    using reach_user [OF 3 _ watch [of "?sys mini_index IndexIdle []" 1 False ?w]] w by (simp add: anytime_def)
  have run: "set_running True ?w = mini_watched"
    by (simp add: set_running_def mini_watched_def) (simp add: mini_watch_def mini_index_def mini_defs)
  have 5: "reach anytime mini_sys (?sys mini_watched IndexIdle (one_thread Looping))"
  proof (rule reach_bg [OF 4, of 0])
    have "inotify ?w \<noteq> None" by simp
    from thread_begin [OF this, of 0]
    show "bg_step (shared (?sys ?w IndexIdle (one_thread Created)), pc (threads (?sys ?w IndexIdle (one_thread Created)) ! 0),
        calls (?sys ?w IndexIdle (one_thread Created))) (mini_watched, Looping, 0)"
      unfolding run by simp
  qed (simp_all add: put_thread_def)
  have 6: "reach anytime mini_sys (?sys mini_watched IndexIdle (one_thread (Checking [write_c])))"
    by (rule reach_bg [OF 5, of 0]) (auto simp: put_thread_def mini_watched_def intro!: thread_look)
  have act: "event_action (mini_watch\<lparr>watch_thread := 1, inotify_flag := 1\<rparr>) write_c mini_watched = ActUpdate 1 mini_c"
    unfolding write_c_action [symmetric] by (rule event_action_cong) (simp_all add: mini_watched_def)
  have "inotify mini_watched = Some (mini_watch\<lparr>watch_thread := 1, inotify_flag := 1\<rparr>)"
    by (simp add: mini_watched_def)
  note thread_lock [OF this act, of "[]" 0]
  then show ?thesis
    unfolding mini_updating_def by (intro reach_bg [OF 6, of 0]) (simp_all add: put_thread_def)
qed

theorem stop_during_update_inverts_lock_witness:
  "\<exists>t u. user_step Stop mini_updating t \<and> cancel_step 0 t u \<and> odd (seq_lock (shared u)) \<and>
     pc (threads u ! 0) = Cancelled True"
proof -
  let ?i = "mini_watch\<lparr>watch_thread := 1, inotify_flag := 1\<rparr>"
  have "\<exists>x. xal_stop_watching_filesystem (\<lambda>_. (0, 0)) (Some (shared mini_updating)) = (Inr (), Some x)"
    by (simp add: xal_stop_watching_filesystem_def mini_updating_def mini_watched_def)
      (simp add: mini_index_def mini_defs)
  then obtain x where x: "xal_stop_watching_filesystem (\<lambda>_. (0, 0)) (Some (shared mini_updating)) = (Inr (), Some x)" ..
  let ?t = "mini_updating\<lparr>shared := x,
    threads := map (\<lambda>b. if tid b = watch_thread ?i then b\<lparr>cancel_pending := True\<rparr> else b) (threads mini_updating)\<rparr>"
  have s: "user mini_updating = IndexIdle" "inotify (shared mini_updating) = Some ?i"
    by (simp_all add: mini_updating_def mini_watched_def)
  note t = stop [OF s x]
  have u: "cancel_step 0 ?t (put_thread 0 (shared ?t) (Cancelled (holds_lock (pc (threads ?t ! 0)))) (calls ?t) ?t)"
    by (rule thread_cancelled) (simp_all add: mini_updating_def)
  have p: "pc (threads mini_updating ! 0) = Updating 1 mini_c []" "writers mini_updating = 1"
    "mountpoint (shared mini_updating) \<noteq> []"
    by (simp_all add: mini_updating_def mini_watched_def writers_def)
  from stop_during_update_inverts_lock [OF mini_quiet mini_updating_reached t u p] t u show ?thesis by blast
qed

end
