(* ===== verification/Xal_Device.thy ===== *)
theory Xal_Device
  imports Xal_Types
begin

text \<open>
  Reading from the device (\<open>dev_read\<close> and \<open>dev_read_into\<close> in src/xal_be_xfs.c). The xNVMe
  library, the allocators and khash are not part of the repository; what the XFS backend uses of
  them is the record \<open>xfs_env\<close>: the geometry of the device, a function that gives the data of a
  read command (none when the command or its completion fails), whether \<open>kh_init\<close>, \<open>calloc\<close> and
  \<open>kh_put\<close> succeed, the value \<open>errno\<close> holds when nothing has set it, the value of an uninitialised
  \<open>int err\<close>, and the memory calls of the pools.
\<close>

record xfs_env =
  mdts_nbytes :: u32
  lba_nbytes :: u32
  nvm_read :: "u64 \<Rightarrow> u16 \<Rightarrow> u8 list option"
  kh_init_ok :: bool
  kh_put_ok :: "u64 \<Rightarrow> bool"
  calloc_ok :: bool
  errno_now :: int
  uninit_err :: int
  inodes_os :: pool_os
  extents_os :: pool_os

abbreviation BUF_NBYTES :: nat where
  "BUF_NBYTES \<equiv> 131072"

abbreviation ODF_BLOCK_FS_BYTES_MAX :: nat where
  "ODF_BLOCK_FS_BYTES_MAX \<equiv> 65536"

section \<open>Definitions\<close>

text \<open>
  The state is the I/O buffer. The number of logical blocks of the command is a 16-bit field and
  zero-based. The data is written from the start of the buffer.
\<close>

definition dev_read :: "xfs_env \<Rightarrow> u64 \<Rightarrow> u64 \<Rightarrow> cbuf \<Rightarrow> (unit, cbuf) outcome" where
  "dev_read env count offset buf =
     (let lba = ucast (lba_nbytes env) :: u64
      in if ucast (mdts_nbytes env) < count then (Inl (Err (- EINVAL)), buf)
         else if lba = 0 then (Inl (Fault DivideByZero), buf)
         else if count mod lba \<noteq> 0 then (Inl (Err (- EINVAL)), buf)
         else if offset mod lba \<noteq> 0 then (Inl (Err (- EINVAL)), buf)
         else case wrn buf 0 (replicate (unat count) 0) of
                Inl e \<Rightarrow> (Inl e, buf)
              | Inr zeroed \<Rightarrow>
                  (case nvm_read env (offset div lba) (ucast (count div lba - 1)) of
                     None \<Rightarrow> (Inl (Err (- EIO)), zeroed)
                   | Some data \<Rightarrow>
                       (case wrn zeroed 0 data of
                          Inl e \<Rightarrow> (Inl e, zeroed)
                        | Inr filled \<Rightarrow> (Inr (), filled))))"

text \<open>\<open>dst\<close> is the object that \<open>count\<close> bytes of the I/O buffer are copied to.\<close>

definition dev_read_into ::
  "xfs_env \<Rightarrow> u64 \<Rightarrow> u64 \<Rightarrow> cbuf \<Rightarrow> cbuf \<Rightarrow> (cbuf, cbuf) outcome" where
  "dev_read_into env count offset dst buf =
     and_then (dev_read env count offset buf) (\<lambda>_ buf.
       (sbind (rdn buf 0 (unat count)) (wrn dst 0), buf))"

section \<open>Reads of a disk\<close>

text \<open>
  \<open>reads_disk env disk\<close>: a read command that succeeds returns the bytes of its logical blocks,
  as the NVM command set specifies.
\<close>

definition reads_disk :: "xfs_env \<Rightarrow> (nat \<Rightarrow> u8) \<Rightarrow> bool" where
  "reads_disk env disk \<longleftrightarrow>
     (\<forall>slba nlb data. nvm_read env slba nlb = Some data \<longrightarrow>
        data = map disk [unat slba * unat (lba_nbytes env) ..<
                         (unat slba + unat nlb + 1) * unat (lba_nbytes env)])"

text \<open>What the code needs of a read for its block count to fit the command.\<close>

definition read_fits :: "xfs_env \<Rightarrow> nat \<Rightarrow> bool" where
  "read_fits env n \<longleftrightarrow>
     0 < n \<and> n \<le> unat (mdts_nbytes env) \<and> n div unat (lba_nbytes env) \<le> 65536"

lemma read_command_length:
  assumes "L dvd c" and "0 < c" and "c div L \<le> 65536"
  shows "unat (ucast (of_nat (c div L) - 1 :: u64) :: u16) + 1 = c div L"
proof -
  have q: "1 \<le> c div L" using assms(1,2) by (metis Suc_leI One_nat_def div_greater_zero_iff dvd_imp_le gr_zeroI dvd_0_left_iff less_irrefl)
  have "(of_nat (c div L) - 1 :: u64) = of_nat (c div L - 1)"
    using q by (simp add: of_nat_diff)
  then have "unat (of_nat (c div L) - 1 :: u64) = c div L - 1"
    using assms(3) by (simp add: unat_of_nat_small)
  then show ?thesis using assms(3) q by (simp add: unat_ucast_mod)
qed

lemma dev_read_ok:
  assumes disk: "reads_disk env disk" and fits: "read_fits env (unat count)"
    and run: "dev_read env count offset buf = (Inr u, buf')"
  shows "unat count \<le> cap buf \<and> cap buf' = cap buf \<and>
    rdn buf' 0 (unat count) = Inr (map disk [unat offset ..< unat offset + unat count])"
proof -
  let ?L = "unat (lba_nbytes env)"
  have l: "unat (ucast (lba_nbytes env) :: u64) = ?L"
    by (rule unat_ucast_up_eq) simp
  from run obtain data zeroed where
    cm: "count mod ucast (lba_nbytes env) = 0" and om: "offset mod ucast (lba_nbytes env) = 0"
    and z: "wrn buf 0 (replicate (unat count) 0) = Inr zeroed"
    and d: "nvm_read env (offset div ucast (lba_nbytes env))
              (ucast (count div ucast (lba_nbytes env) - 1)) = Some data"
    and w: "wrn zeroed 0 data = Inr buf'"
    unfolding dev_read_def Let_def by (auto split: if_splits option.splits sum.splits)
  have "?L dvd unat count" "?L dvd unat offset"
    using cm om l by (metis dvd_eq_mod_eq_0 unat_0 unat_mod)+
  then obtain kc ko where kc: "unat count = ?L * kc" and ko: "unat offset = ?L * ko"
    by (auto elim!: dvdE)
  have L: "0 < ?L" using fits kc by (auto simp: read_fits_def)
  have slba: "unat (offset div ucast (lba_nbytes env)) = ko"
    using L by (simp add: unat_div l ko)
  have cdiv: "count div ucast (lba_nbytes env) = of_nat (unat count div ?L)"
    by (metis l unat_div of_nat_unat ucast_id)
  have nlb: "unat (ucast (count div ucast (lba_nbytes env) - 1) :: u16) + 1 = kc"
    unfolding cdiv
    using read_command_length [of ?L "unat count"] fits kc L by (simp add: read_fits_def)
  have "data = map disk [unat offset ..< unat offset + unat count]"
    using disk [unfolded reads_disk_def, rule_format, OF d]
    by (simp only: slba kc ko add.assoc nlb distrib_right mult.commute)
  with w z show ?thesis
    by (auto simp: wrn_def rdn_def split: if_splits intro!: nth_equalityI)
qed

lemma dev_read_into_ok:
  assumes disk: "reads_disk env disk" and fits: "read_fits env (unat count)"
    and run: "dev_read_into env count offset dst buf = (Inr dst', buf')"
  shows "unat count \<le> cap buf \<and> cap buf' = cap buf \<and> cap dst' = cap dst \<and>
    (\<forall>j. bytes dst' j = (if j < unat count then disk (unat offset + j) else bytes dst j))"
proof -
  from run obtain u bs where r: "dev_read env count offset buf = (Inr u, buf')"
    and bs: "rdn buf' 0 (unat count) = Inr bs" and w: "wrn dst 0 bs = Inr dst'"
    by (auto simp: dev_read_into_def elim!: and_then_InrE sbind_InrE)
  note ok = dev_read_ok [OF disk fits r]
  then have "bs = map disk [unat offset ..< unat offset + unat count]" using bs by simp
  with w ok show ?thesis by (auto simp: wrn_def split: if_splits)
qed

text \<open>The result of a read that succeeds, for concrete runs.\<close>

lemma dev_read_into_eq:
  assumes "lba_nbytes env \<noteq> 0" and "count \<le> ucast (mdts_nbytes env)"
    and "count mod ucast (lba_nbytes env) = 0" and "offset mod ucast (lba_nbytes env) = 0"
    and "unat count \<le> cap buf" and "unat count \<le> cap dst"
    and "nvm_read env (offset div ucast (lba_nbytes env))
           (ucast (count div ucast (lba_nbytes env) - 1)) = Some data"
    and "length data = unat count"
  shows "dev_read_into env count offset dst buf =
    (Inr (dst\<lparr>bytes := (\<lambda>j. if j < length data then data ! j else bytes dst j)\<rparr>),
     buf\<lparr>bytes := (\<lambda>j. if j < length data then data ! j else bytes buf j)\<rparr>)"
proof -
  have "unat (ucast (lba_nbytes env) :: u64) = unat (lba_nbytes env)" by (rule unat_ucast_up_eq) simp
  then have "(ucast (lba_nbytes env) :: u64) \<noteq> 0" using assms(1) by (metis unat_0 unat_eq_zero)
  moreover have "map (\<lambda>j. if j < unat count then data ! j else bytes buf j) [0..<unat count] = data"
    using assms(8) by (auto intro: nth_equalityI)
  ultimately show ?thesis
    using assms(2-)
    by (simp add: dev_read_into_def dev_read_def wrn_def rdn_def Let_def not_less cong: if_cong)
qed

lemma dev_read_eq:
  assumes "lba_nbytes env \<noteq> 0" and "count \<le> ucast (mdts_nbytes env)"
    and "count mod ucast (lba_nbytes env) = 0" and "offset mod ucast (lba_nbytes env) = 0"
    and "unat count \<le> cap buf"
    and "nvm_read env (offset div ucast (lba_nbytes env))
           (ucast (count div ucast (lba_nbytes env) - 1)) = Some data"
    and "length data = unat count"
  shows "dev_read env count offset buf =
    (Inr (), buf\<lparr>bytes := (\<lambda>j. if j < length data then data ! j else bytes buf j)\<rparr>)"
  using dev_read_into_eq [OF assms(1-5) assms(5-7)]
  by (auto simp: dev_read_into_def elim!: and_then_InrE)

lemma dev_read_cap: "dev_read env count offset buf = (r, buf') \<Longrightarrow> cap buf' = cap buf"
  by (auto simp: dev_read_def wrn_def Let_def split: if_splits option.splits)

section \<open>Properties\<close>

text \<open>A disk with byte \<open>i mod 251\<close> at offset \<open>i\<close>, in logical blocks of 8 bytes.\<close>

definition demo_disk :: "nat \<Rightarrow> u8" where
  "demo_disk i = of_nat (i mod 251)"

definition demo_env :: xfs_env where
  "demo_env = \<lparr>mdts_nbytes = 64, lba_nbytes = 8,
     nvm_read = (\<lambda>slba nlb. Some (map demo_disk [unat slba * 8 ..< (unat slba + unat nlb + 1) * 8])),
     kh_init_ok = True, kh_put_ok = (\<lambda>_. True), calloc_ok = True, errno_now = 0, uninit_err = 0,
     inodes_os = demo_os, extents_os = demo_os\<rparr>"

lemma demo_env_reads: "reads_disk demo_env demo_disk"
  by (simp add: reads_disk_def demo_env_def)

text \<open>
  Note (a read returns the bytes of the device). On a device that returns the contents
  of the blocks of a command, a successful \<open>dev_read_into\<close> of a positive count within the limits
  of one command has copied exactly the bytes of the device at \<open>offset\<close> to the start of the
  destination and left the rest of the destination alone; the count fitted the I/O buffer.
\<close>

theorem dev_read_into_copies_disk:
  assumes "reads_disk env disk" and "read_fits env (unat count)"
    and "dev_read_into env count offset dst buf = (Inr dst', buf')"
  shows "unat count \<le> cap buf \<and> cap dst' = cap dst \<and>
    (\<forall>j. bytes dst' j = (if j < unat count then disk (unat offset + j) else bytes dst j))"
  using dev_read_into_ok [OF assms] by simp

theorem dev_read_into_copies_disk_witness:
  "\<exists>dst' buf'. dev_read_into demo_env 16 256 (buf_of 32 []) (buf_of 64 []) = (Inr dst', buf') \<and>
     bytes dst' 3 = 8 \<and> bytes dst' 16 = 0"
proof -
  obtain dst' buf' where run:
    "dev_read_into demo_env 16 256 (buf_of 32 []) (buf_of 64 []) = (Inr dst', buf')"
    by (simp add: dev_read_into_def dev_read_def demo_env_def wrn_def rdn_def buf_of_def Let_def)
  from dev_read_into_copies_disk [OF demo_env_reads _ run] run show ?thesis
    by (simp add: read_fits_def demo_env_def demo_disk_def buf_of_def)
qed

text \<open>
  Note (a read of nothing overruns the buffer). The block count of the command is the
  count minus one, so a request for zero bytes (a chunk size or sector size computed as zero)
  becomes a command for 65536 blocks. When the device executes it, its data does not fit any
  buffer below 65536 logical blocks: the outcome is an access out of bounds and not an error.
\<close>

theorem dev_read_zero_count_overruns:
  assumes "reads_disk env disk" and "lba_nbytes env \<noteq> 0" and "offset mod ucast (lba_nbytes env) = 0"
    and "nvm_read env (offset div ucast (lba_nbytes env)) (- 1) = Some data"
    and "cap buf < 65536 * unat (lba_nbytes env)"
  shows "fst (dev_read env 0 offset buf) = Inl (Fault OutOfBounds)"
proof -
  let ?L = "ucast (lba_nbytes env) :: u64"
  have "unat ?L = unat (lba_nbytes env)" by (rule unat_ucast_up_eq) simp
  then have L: "?L \<noteq> 0" using assms(2) by (metis unat_0 unat_eq_zero)
  have nlb: "(ucast (- 1 :: u64) :: u16) = - 1"
    by (rule bit_word_eqI) (simp add: bit_ucast_iff)
  have "unat (- 1 :: u16) = 65535" by (simp add: unsigned_minus_1_eq_mask mask_eq_exp_minus_1)
  then have "length data = 65536 * unat (lba_nbytes env)"
    using assms(1) [unfolded reads_disk_def, rule_format, OF assms(4)] by (simp add: algebra_simps)
  then show ?thesis
    using L assms(3,4,5) by (simp add: dev_read_def nlb wrn_def Let_def)
qed

theorem dev_read_zero_count_overruns_witness:
  "fst (dev_read demo_env 0 8 (buf_of 131072 [])) = Inl (Fault OutOfBounds)"
proof (rule dev_read_zero_count_overruns [OF demo_env_reads])
  show "nvm_read demo_env (8 div ucast (lba_nbytes demo_env)) (- 1) = Some
      (map demo_disk [unat (8 div ucast (lba_nbytes demo_env) :: u64) * 8 ..<
        (unat (8 div ucast (lba_nbytes demo_env) :: u64) + unat (- 1 :: u16) + 1) * 8])"
    by (simp only: demo_env_def xfs_env.simps)
qed (simp_all add: demo_env_def buf_of_def)

end
