(* ===== verification/Xal_Dinodes.thy ===== *)
theory Xal_Dinodes
  imports Xal_Device Xal_Geometry
begin

text \<open>
  Opening a device with the XFS backend and loading its inodes (src/xal_be_xfs.c): decoding the
  superblock and the headers of the allocation groups (\<open>xal_be_xfs_open\<close>), and the traversal of
  the inode B+trees of all allocation groups (\<open>xal_dinodes_retrieve\<close>), which copies every inode
  in use to one array and enters its position in a map under its inode number. Fields of on-disk
  structures are read at their offsets (include/xal_odf.h).
\<close>

section \<open>Superblock and allocation groups\<close>

abbreviation XAL_ODF_AGF_MAGIC :: u32 where "XAL_ODF_AGF_MAGIC \<equiv> 0x58414746"
abbreviation XAL_ODF_AGI_MAGIC :: u32 where "XAL_ODF_AGI_MAGIC \<equiv> 0x58414749"
abbreviation XAL_ODF_IBT_CRC_MAGIC :: u32 where "XAL_ODF_IBT_CRC_MAGIC \<equiv> 0x49414233"
abbreviation XAL_ODF_BMAP_CRC_MAGIC :: u32 where "XAL_ODF_BMAP_CRC_MAGIC \<equiv> 0x424d4133"
abbreviation XAL_ODF_DIR3_BLOCK_MAGIC :: u32 where "XAL_ODF_DIR3_BLOCK_MAGIC \<equiv> 0x58444233"
abbreviation XAL_ODF_DIR3_DATA_MAGIC :: u32 where "XAL_ODF_DIR3_DATA_MAGIC \<equiv> 0x58444433"

text \<open>The part of \<open>struct xal_odf_sb\<close> that is decoded into \<open>struct xal_sb\<close>.\<close>

definition decode_sb :: "cbuf \<Rightarrow> fail + xal_sb" where
  "decode_sb b =
     sbind (be32 b 4) (\<lambda>v_blocksize.
     sbind (be64 b 56) (\<lambda>v_rootino.
     sbind (be32 b 84) (\<lambda>v_agblocks.
     sbind (be32 b 88) (\<lambda>v_agcount.
     sbind (be16 b 102) (\<lambda>v_sectsize.
     sbind (be16 b 104) (\<lambda>v_inodesize.
     sbind (be16 b 106) (\<lambda>v_inopblock.
     sbind (rd8 b 123) (\<lambda>v_inopblog.
     sbind (rd8 b 124) (\<lambda>v_agblklog.
     sbind (be64 b 128) (\<lambda>v_icount.
     sbind (rd8 b 192) (\<lambda>dirblklog.
       if 32 \<le> unat dirblklog then Inl (Fault BadShift)
       else Inr \<lparr>blocksize = v_blocksize, sectsize = v_sectsize, inodesize = v_inodesize,
                 inopblock = v_inopblock, inopblog = v_inopblog, icount = v_icount,
                 nallocated = 0, rootino = v_rootino, agblocks = v_agblocks,
                 agblklog = v_agblklog, agcount = v_agcount,
                 dirblocksize = push_bit (unat dirblklog) v_blocksize, lba_blksze = 0\<rparr>)))))))))))"

definition ag_null :: xal_ag where
  "ag_null = \<lparr>seqno = 0, ag_offset = 0, agf_length = 0, agi_count = 0, agi_root = 0, agi_level = 0\<rparr>"

text \<open>
  The result is the candidate, or none when the function returns 0 without making one, which it
  does when it returns \<open>-errno\<close> while \<open>errno\<close> is 0. The state is the I/O buffer.
\<close>

definition retrieve_and_decode_primary_superblock ::
  "xfs_env \<Rightarrow> cbuf \<Rightarrow> (xal option, cbuf) outcome" where
  "retrieve_and_decode_primary_superblock env buf =
     (let return_errno = (if errno_now env = 0 then Inr None else Inl (Err (- errno_now env)))
      in case dev_read env 4096 0 buf of
           (Inl (Fault f), buf) \<Rightarrow> (Inl (Fault f), buf)
         | (Inl (Err e), buf) \<Rightarrow> (return_errno, buf)
         | (Inr u, buf) \<Rightarrow>
             if \<not> calloc_ok env then (Inl (Err (- ENOMEM)), buf)
             else (sbind (decode_sb buf) (\<lambda>s.
                     Inr (Some (xal_null\<lparr>root_idx := XAL_POOL_IDX_NONE, sb := s,
                                 ags := replicate (unat (agcount s)) ag_null\<rparr>))), buf))"

definition retrieve_and_decode_allocation_group ::
  "xfs_env \<Rightarrow> u32 \<Rightarrow> xal \<Rightarrow> (unit, xal) outcome" where
  "retrieve_and_decode_allocation_group env agno x =
     (let offset = ucast agno * ucast (agblocks (sb x)) * ucast (blocksize (sb x)) :: u64;
          agf = unat (sectsize (sb x));
          agi = unat (sectsize (sb x)) * 2
      in case dev_read env (ucast (sectsize (sb x)) * 4) offset (io_buf x) of
           (Inl e, buf) \<Rightarrow> (Inl e, x\<lparr>io_buf := buf\<rparr>)
         | (Inr u, buf) \<Rightarrow>
             let x = x\<lparr>io_buf := buf\<rparr>
             in case
               sbind (be32 buf (agf + 12)) (\<lambda>len.
               sbind (be32 buf (agi + 16)) (\<lambda>icnt.
               sbind (be32 buf (agi + 24)) (\<lambda>ilevel.
               sbind (be32 buf (agi + 20)) (\<lambda>iroot.
               sbind (be32 buf agf) (\<lambda>agf_magic.
               sbind (be32 buf agi) (\<lambda>agi_magic.
               sbind (be32 buf (agi + 8)) (\<lambda>agi_seqno.
               sbind (be32 buf (agf + 8)) (\<lambda>agf_seqno.
                 Inr (\<lparr>seqno = agno, ag_offset = offset, agf_length = len, agi_count = icnt,
                       agi_root = iroot, agi_level = ilevel\<rparr>,
                      agf_magic = XAL_ODF_AGF_MAGIC \<and> agi_magic = XAL_ODF_AGI_MAGIC \<and>
                      agi_seqno = agno \<and> agf_seqno = agno))))))))) of
               Inl e \<Rightarrow> (Inl e, x)
             | Inr (ag, checks) \<Rightarrow>
                 if unat agno < length (ags x)
                 then (if checks then Inr () else Inl (Fault AssertFailed),
                       x\<lparr>ags := (ags x)[unat agno := ag]\<rparr>)
                 else (Inl (Fault OutOfBounds), x))"

text \<open>One pass of the loop of \<open>xal_be_xfs_open\<close> over the allocation groups.\<close>

definition open_allocation_group :: "xfs_env \<Rightarrow> nat \<Rightarrow> xal \<Rightarrow> (unit, xal) outcome" where
  "open_allocation_group env k x =
     and_then (retrieve_and_decode_allocation_group env (of_nat k) x) (\<lambda>_ x.
       (Inr (), x\<lparr>sb := (sb x)\<lparr>nallocated := nallocated (sb x) + ucast (agi_count (ags x ! k))\<rparr>\<rparr>))"

definition map_inodes :: "xfs_env \<Rightarrow> u64 \<Rightarrow> cstr option \<Rightarrow> xal \<Rightarrow> (unit, xal) outcome" where
  "map_inodes env n shm x =
     (case xal_pool_map (inodes_os env) (inodes x) 40000000 n 312 (map_option (\<lambda>s. s @ bytes_of ''_inodes'') shm)
        of (r, pool) \<Rightarrow> (r, x\<lparr>inodes := pool\<rparr>))"

definition map_extents :: "xfs_env \<Rightarrow> u64 \<Rightarrow> cstr option \<Rightarrow> xal \<Rightarrow> (unit, xal) outcome" where
  "map_extents env n shm x =
     (case xal_pool_map (extents_os env) (extents x) 40000000 n 25 (map_option (\<lambda>s. s @ bytes_of ''_extents'') shm)
        of (r, pool) \<Rightarrow> (r, x\<lparr>extents := pool\<rparr>))"

text \<open>
  On a failure after the superblock, the candidate is closed and freed; what is left is the error.
\<close>

definition xal_be_xfs_open :: "xfs_env \<Rightarrow> xal_opts \<Rightarrow> fail + xal" where
  "xal_be_xfs_open env opts =
     (if \<not> calloc_ok env then Inl (Err (- ENOMEM))
      else case retrieve_and_decode_primary_superblock env (buf_of BUF_NBYTES []) of
        (Inl e, buf) \<Rightarrow> Inl e
      | (Inr None, buf) \<Rightarrow> Inl (Fault NullDeref)
      | (Inr (Some cand), buf) \<Rightarrow>
          fst (and_then
            (for_each (open_allocation_group env) [0..<unat (agcount (sb cand))]
               (cand\<lparr>be_type := XAL_BACKEND_XFS, io_buf := buf\<rparr>))
            (\<lambda>_ cand.
               if (\<exists>s. opt_shm_name opts = Some s \<and> XAL_PATH_MAXLEN < length s)
               then (Inl (Err (- EINVAL)), cand)
               else
                 and_then (map_inodes env (nallocated (sb cand)) (opt_shm_name opts) cand) (\<lambda>_ cand.
                 and_then (map_extents env (nallocated (sb cand)) (opt_shm_name opts) cand) (\<lambda>_ cand.
                   (Inr cand, cand))))))"

section \<open>Layout of B+tree blocks\<close>

text \<open>Maximum number of records, offset of the keys, offset of the pointers (\<open>size_t\<close>).\<close>

definition btree_dinode_meta :: "xal \<Rightarrow> u8 \<Rightarrow> u64 \<times> u64 \<times> u64" where
  "btree_dinode_meta x forkoff =
     (let core_nbytes = 176 :: u64;
          attr_ofz = core_nbytes + ucast forkoff * 8;
          attr_nbytes = ucast (inodesize (sb x)) - attr_ofz;
          data_nbytes = ucast (inodesize (sb x)) - core_nbytes - attr_nbytes;
          mrecs = (data_nbytes - 4) div 16
      in (mrecs, core_nbytes + 2 + 2, core_nbytes + 2 + 2 + mrecs * 8))"

definition btree_lblock_meta :: "xal \<Rightarrow> u64 \<times> u64 \<times> u64" where
  "btree_lblock_meta x =
     (let hdr_nbytes = 72 :: u64;
          mrecs = (ucast (blocksize (sb x)) - hdr_nbytes) div 16
      in (mrecs, hdr_nbytes, hdr_nbytes + mrecs * 8))"

definition btree_sblock_meta :: "xal \<Rightarrow> u64 \<times> u64 \<times> u64" where
  "btree_sblock_meta x =
     (let hdr_nbytes = 56 :: u64;
          mrecs = (ucast (blocksize (sb x)) - hdr_nbytes) div 8
      in (mrecs, hdr_nbytes, hdr_nbytes + mrecs * 4))"

section \<open>Traversing the inode B+tree of an allocation group\<close>

text \<open>
  The block that \<open>read_iab3_block\<close> reads into the caller's array, with its level and number of
  records. The state pairs the xal with the counter of the inodes stored so far.
\<close>

definition read_iab3_block ::
  "xfs_env \<Rightarrow> xal_ag \<Rightarrow> u64 \<Rightarrow> xal \<times> u64 \<Rightarrow> (u16 \<times> u16 \<times> cbuf, xal \<times> u64) outcome" where
  "read_iab3_block env ag blkno s =
     (case s of (x, index) \<Rightarrow>
        (case dev_read_into env (ucast (blocksize (sb x)))
                (xal_agbno_absolute_offset x (seqno ag) blkno)
                (buf_of ODF_BLOCK_FS_BYTES_MAX []) (io_buf x) of
           (Inl e, buf) \<Rightarrow> (Inl e, (x\<lparr>io_buf := buf\<rparr>, index))
         | (Inr block, buf) \<Rightarrow>
             (sbind (be32 block 0) (\<lambda>magic.
              if magic \<noteq> XAL_ODF_IBT_CRC_MAGIC then Inl (Err (- EINVAL))
              else sbind (be16 block 4) (\<lambda>level.
                   sbind (be16 block 6) (\<lambda>numrecs. Inr (level, numrecs, block)))),
              (x\<lparr>io_buf := buf\<rparr>, index))))"

record inobt_rec =
  startino :: u32
  holemask :: u16
  rec_count :: u8
  rec_free :: u64

definition decode_inobt_rec :: "cbuf \<Rightarrow> nat \<Rightarrow> fail + inobt_rec" where
  "decode_inobt_rec b i =
     sbind (be32 b i) (\<lambda>v_startino.
     sbind (be16 b (i + 4)) (\<lambda>v_holemask.
     sbind (rd8 b (i + 6)) (\<lambda>v_count.
     sbind (be64 b (i + 8)) (\<lambda>v_free.
       Inr \<lparr>startino = v_startino, holemask = v_holemask, rec_count = v_count, rec_free = v_free\<rparr>))))"

text \<open>\<open>be->dinodes[index * inodesize]\<close> := the inode at position \<open>k\<close> of the chunk\<close>

definition store_dinode ::
  "xfs_env \<Rightarrow> inobt_rec \<Rightarrow> cbuf \<Rightarrow> nat \<Rightarrow> xal \<times> u64 \<Rightarrow> (unit, xal \<times> u64) outcome" where
  "store_dinode env rec inodechunk k s =
     (case s of (x, index) \<Rightarrow>
        if 64 \<le> k then (Inl (Fault BadShift), s)
        else if bit (holemask rec) k \<or> bit (rec_free rec) k then (Inr (), s)
        else
          let isz = unat (inodesize (sb x));
              at = unat (index * ucast (inodesize (sb x)))
          in case dinodes x of
               None \<Rightarrow> (Inl (Fault NullDeref), s)
             | Some d \<Rightarrow>
                 (case sbind (rdn inodechunk (k * isz) isz) (wrn d at) of
                    Inl e \<Rightarrow> (Inl e, s)
                  | Inr d' \<Rightarrow>
                      let x = x\<lparr>dinodes := Some d'\<rparr>
                      in case be64 d' (at + 152) of
                           Inl e \<Rightarrow> (Inl e, (x, index))
                         | Inr inum \<Rightarrow>
                             if \<not> kh_put_ok env index then (Inl (Err (- EIO)), (x, index))
                             else (Inr (), (x\<lparr>dinodes_map := (dinodes_map x)(inum \<mapsto> at)\<rparr>, index + 1))))"

definition decode_iab3_leaf_record ::
  "xfs_env \<Rightarrow> xal_ag \<Rightarrow> cbuf \<Rightarrow> nat \<Rightarrow> xal \<times> u64 \<Rightarrow> (unit, xal \<times> u64) outcome" where
  "decode_iab3_leaf_record env ag block reci s =
     and_then (lift_s (decode_inobt_rec block (56 + reci * 16)) s) (\<lambda>rec s.
       case s of (x, index) \<Rightarrow>
         (case xal_ino_decode_relative x (startino rec) of (agbno, agbino) \<Rightarrow>
            if agbino \<noteq> 0 then (Inl (Fault AssertFailed), s)
            else if inopblock (sb x) = 0 then (Inl (Fault DivideByZero), s)
            else
              let chunk_nbytes = ucast (of_nat (64 div unat (inopblock (sb x))) * blocksize (sb x)) :: u64;
                  chunk_offset = agbno * ucast (blocksize (sb x)) + ag_offset ag
              in if BUF_NBYTES \<le> unat chunk_nbytes then (Inl (Fault AssertFailed), s)
                 else (case dev_read_into env chunk_nbytes chunk_offset (buf_of BUF_NBYTES []) (io_buf x) of
                         (Inl e, buf) \<Rightarrow> (Inl e, (x\<lparr>io_buf := buf\<rparr>, index))
                       | (Inr inodechunk, buf) \<Rightarrow>
                           for_each (store_dinode env rec inodechunk) [0..<unat (rec_count rec)]
                             (x\<lparr>io_buf := buf\<rparr>, index))))"

definition decode_iab3_leaf_records ::
  "xfs_env \<Rightarrow> xal_ag \<Rightarrow> cbuf \<Rightarrow> u16 \<Rightarrow> xal \<times> u64 \<Rightarrow> (unit, xal \<times> u64) outcome" where
  "decode_iab3_leaf_records env ag block numrecs s =
     for_each (decode_iab3_leaf_record env ag block) [0..<unat numrecs] s"

text \<open>\<open>retrieve\<close> is the recursive call to \<open>retrieve_dinodes_via_iab3\<close>.\<close>

definition decode_iab3_node_records ::
  "(u64 \<Rightarrow> xal \<times> u64 \<Rightarrow> (unit, xal \<times> u64) outcome) \<Rightarrow> cbuf \<Rightarrow> u16 \<Rightarrow> xal \<times> u64
     \<Rightarrow> (unit, xal \<times> u64) outcome" where
  "decode_iab3_node_records retrieve block numrecs s =
     (let x = fst s;
          pointers_ofz = snd (snd (btree_sblock_meta x))
      in and_then
           (lift_s (sbind (rdn block (unat pointers_ofz) (unat (ucast (blocksize (sb x)) - pointers_ofz)))
                      (wrn (buf_of ODF_BLOCK_FS_BYTES_MAX []) 0)) s)
           (\<lambda>pointers s.
              for_each (\<lambda>rec s.
                  and_then (lift_s (be32 pointers (4 * rec)) s) (\<lambda>blkno s. retrieve (ucast blkno) s))
                [0..<unat numrecs] s))"

fun retrieve_dinodes_via_iab3 ::
  "nat \<Rightarrow> xfs_env \<Rightarrow> xal_ag \<Rightarrow> u64 \<Rightarrow> xal \<times> u64 \<Rightarrow> (unit, xal \<times> u64) outcome" where
  "retrieve_dinodes_via_iab3 0 env ag blkno s = (Inl (Fault OutOfFuel), s)"
| "retrieve_dinodes_via_iab3 (Suc fuel) env ag blkno s =
     and_then (read_iab3_block env ag blkno s) (\<lambda>r s.
       case r of (level, numrecs, block) \<Rightarrow>
         if level = 1 then
           decode_iab3_node_records (\<lambda>b t. retrieve_dinodes_via_iab3 fuel env ag b t) block numrecs s
         else if level = 0 then decode_iab3_leaf_records env ag block numrecs s
         else (Inl (Err (- EINVAL)), s))"

text \<open>
  Retrieval of all allocation groups. On a failure the array is freed, and the map, whose values
  pointed into it, stays.
\<close>

definition retrieve_all_groups :: "nat \<Rightarrow> xfs_env \<Rightarrow> xal \<Rightarrow> (unit, xal \<times> u64) outcome" where
  "retrieve_all_groups fuel env x =
     for_each (\<lambda>k s.
         if k < length (ags (fst s)) then
           retrieve_dinodes_via_iab3 fuel env (ags (fst s) ! k) (ucast (agi_root (ags (fst s) ! k))) s
         else (Inl (Fault OutOfBounds), s))
       [0..<unat (agcount (sb x))] (x, 0)"

definition xal_dinodes_retrieve :: "nat \<Rightarrow> xfs_env \<Rightarrow> xal \<Rightarrow> (unit, xal) outcome" where
  "xal_dinodes_retrieve fuel env x =
     (if be_type x \<noteq> XAL_BACKEND_XFS then (Inr (), x)
      else if \<not> kh_init_ok env then (Inl (Err (- EINVAL)), x)
      else if \<not> calloc_ok env then (Inl (Err (- ENOMEM)), x\<lparr>dinodes_map := (\<lambda>_. None), dinodes := None\<rparr>)
      else
        case retrieve_all_groups fuel env
               (x\<lparr>dinodes_map := (\<lambda>_. None),
                  dinodes := Some (buf_of (unat (nallocated (sb x) * ucast (inodesize (sb x)))) [])\<rparr>) of
          (Inl e, (x, index)) \<Rightarrow> (Inl e, x\<lparr>dinodes := None\<rparr>)
        | (Inr u, (x, index)) \<Rightarrow> (Inr (), x))"

text \<open>The position of the inode in the array, in place of the pointer to it.\<close>

definition dinodes_get :: "xal \<Rightarrow> u64 \<Rightarrow> fail + nat" where
  "dinodes_get x i =
     (case dinodes_map x i of None \<Rightarrow> Inl (Err (- EINVAL)) | Some at \<Rightarrow> Inr at)"

section \<open>The map of inodes\<close>

text \<open>
  The invariant of the traversal: every entry of the map is the position of a slot below the
  counter, and the inode stored there has the number it is entered under.
\<close>

definition dinodes_inv :: "xal_sb \<Rightarrow> nat \<Rightarrow> xal \<times> u64 \<Rightarrow> bool" where
  "dinodes_inv s n st \<longleftrightarrow>
     (case st of (x, index) \<Rightarrow>
        sb x = s \<and>
        (\<exists>d. dinodes x = Some d \<and> cap d = n \<and> unat index * unat (inodesize s) \<le> n \<and>
           (\<forall>inum at. dinodes_map x inum = Some at \<longrightarrow>
              (\<exists>i < unat index. at = i * unat (inodesize s)) \<and> be64 d (at + 152) = Inr inum)))"

lemma dinodes_inv_io_buf [simp]:
  "dinodes_inv s n (x\<lparr>io_buf := b\<rparr>, index) = dinodes_inv s n (x, index)"
  by (simp add: dinodes_inv_def)

lemma slot_position:
  fixes index :: u64
  assumes "unat index * unat (isz :: u16) \<le> n" and "n < 2 ^ 64"
  shows "unat (index * ucast isz) = unat index * unat isz"
proof -
  have u: "unat (ucast isz :: u64) = unat isz" by (rule unat_ucast_up_eq) simp
  show ?thesis using assms by (subst unat_mult_no_wrap) (simp_all add: u)
qed

lemma wrn_cap: "wrn b i bs = Inr b' \<Longrightarrow> cap b' = cap b \<and> i + length bs \<le> cap b"
  by (auto simp: wrn_def split: if_splits)

lemma be64_wrn_other:
  assumes "wrn b i bs = Inr b'" and "j + 8 \<le> i \<or> i + length bs \<le> j"
  shows "be64 b' j = be64 b j"
  by (simp add: be64_def rdn_wrn_other [OF assms])

lemma store_dinode_inv:
  assumes inv: "dinodes_inv s n (x, index)" and n: "n < 2 ^ 64" and isz: "176 \<le> unat (inodesize s)"
    and run: "store_dinode env rec chunk k (x, index) = (Inr u, st')"
  shows "dinodes_inv s n st'"
proof (cases "bit (holemask rec) k \<or> bit (rec_free rec) k")
  case True
  with run inv show ?thesis by (auto simp: store_dinode_def split: if_splits)
next
  case False
  let ?isz = "unat (inodesize s)"
  let ?at = "unat (index * ucast (inodesize s))"
  from inv obtain d where sb: "sb x = s" and d: "dinodes x = Some d" "cap d = n"
    and le: "unat index * ?isz \<le> n"
    and ent: "\<And>inum at. dinodes_map x inum = Some at \<Longrightarrow>
      (\<exists>i < unat index. at = i * ?isz) \<and> be64 d (at + 152) = Inr inum"
    by (auto simp: dinodes_inv_def)
  from run False sb d obtain d' inum where
    w: "sbind (rdn chunk (k * ?isz) ?isz) (wrn d ?at) = Inr d'"
    and be: "be64 d' (?at + 152) = Inr inum"
    and st': "st' = (x\<lparr>dinodes := Some d', dinodes_map := (dinodes_map x)(inum \<mapsto> ?at)\<rparr>, index + 1)"
    by (auto simp: store_dinode_def Let_def split: if_splits sum.splits)
  from w obtain bs where bs: "wrn d ?at bs = Inr d'" "length bs = ?isz"
    by (auto elim!: sbind_InrE dest: rdn_length)
  have at: "?at = unat index * ?isz" by (rule slot_position [OF le n])
  have cap: "cap d' = n" and fits: "unat index * ?isz + ?isz \<le> n"
    using wrn_cap [OF bs(1)] bs(2) d(2) at by auto
  have "unat index + 1 \<le> n div ?isz"
    using fits isz by (simp add: less_eq_div_iff_mult_less_eq)
  then have "unat index + unat (1 :: u64) < 2 ^ 64"
    using n le_trans [OF _ div_le_dividend [of n ?isz], of "unat index + 1"] by simp
  then have idx: "unat (index + 1) = unat index + 1"
    using unat_add_no_wrap [of index 1] by simp
  have old: "be64 d' (i * ?isz + 152) = be64 d (i * ?isz + 152)" if "i < unat index" for i
  proof (rule be64_wrn_other [OF bs(1)])
    have "Suc i * ?isz \<le> unat index * ?isz" using that by (intro mult_le_mono1) simp
    then show "i * ?isz + 152 + 8 \<le> ?at \<or> ?at + length bs \<le> i * ?isz + 152"
      using isz at by simp
  qed
  have "(\<exists>i < unat (index + 1). at' = i * ?isz) \<and> be64 d' (at' + 152) = Inr inum'"
    if "((dinodes_map x)(inum \<mapsto> ?at)) inum' = Some at'" for inum' at'
    using that be ent [of inum' at'] old at idx by (auto split: if_splits intro: less_SucI)
  then show ?thesis
    using sb cap fits idx by (simp add: dinodes_inv_def st')
qed

lemma read_iab3_block_inv:
  assumes "dinodes_inv s n st" and "read_iab3_block env ag b st = (r, st')"
  shows "dinodes_inv s n st'"
  using assms by (auto simp: read_iab3_block_def split: prod.splits sum.splits)

lemma decode_iab3_leaf_record_inv:
  assumes inv: "dinodes_inv s n st" and n: "n < 2 ^ 64" and isz: "176 \<le> unat (inodesize s)"
    and run: "decode_iab3_leaf_record env ag block reci st = (Inr u, st')"
  shows "dinodes_inv s n st'"
proof -
  obtain x index where st: "st = (x, index)" by (cases st)
  from run [unfolded st decode_iab3_leaf_record_def] obtain rec chunk buf where
    loop: "for_each (store_dinode env rec chunk) [0..<unat (rec_count rec)] (x\<lparr>io_buf := buf\<rparr>, index)
      = (Inr u, st')"
    by (auto simp: Let_def elim!: and_then_InrE split: prod.splits if_splits sum.splits)
  show ?thesis
  proof (rule for_each_success_invariant [OF loop])
    show "dinodes_inv s n (x\<lparr>io_buf := buf\<rparr>, index)" using inv st by simp
  next
    fix k t t'
    assume "dinodes_inv s n t" "store_dinode env rec chunk k t = (Inr (), t')"
    then show "dinodes_inv s n t'"
      by (cases t) (auto intro: store_dinode_inv [OF _ n isz])
  qed
qed

lemma retrieve_dinodes_inv:
  assumes "dinodes_inv s n st" and n: "n < 2 ^ 64" and isz: "176 \<le> unat (inodesize s)"
    and "retrieve_dinodes_via_iab3 fuel env ag blkno st = (Inr u, st')"
  shows "dinodes_inv s n st'"
  using assms(1,4)
proof (induction fuel arbitrary: blkno st st' u)
  case 0
  then show ?case by simp
next
  case (Suc fuel)
  from Suc.prems(2) obtain level numrecs block st1 where
    r: "read_iab3_block env ag blkno st = (Inr (level, numrecs, block), st1)" and
    k: "(if level = 1 then
           decode_iab3_node_records (\<lambda>b t. retrieve_dinodes_via_iab3 fuel env ag b t) block numrecs st1
         else if level = 0 then decode_iab3_leaf_records env ag block numrecs st1
         else (Inl (Err (- EINVAL)), st1)) = (Inr u, st')"
    by (auto elim!: and_then_InrE)
  have i1: "dinodes_inv s n st1" by (rule read_iab3_block_inv [OF Suc.prems(1) r])
  show ?case
  proof (cases "level = 1")
    case True
    with k obtain ptrs where
      loop: "for_each (\<lambda>rec s. and_then (lift_s (be32 ptrs (4 * rec)) s)
               (\<lambda>blkno s. retrieve_dinodes_via_iab3 fuel env ag (ucast blkno) s)) [0..<unat numrecs] st1
             = (Inr u, st')"
      by (auto simp: decode_iab3_node_records_def Let_def elim!: and_then_InrE)
    show ?thesis
    proof (rule for_each_success_invariant [where P = "dinodes_inv s n", OF loop i1])
      fix k t t'
      assume t: "dinodes_inv s n t" and "and_then (lift_s (be32 ptrs (4 * k)) t)
               (\<lambda>blkno s. retrieve_dinodes_via_iab3 fuel env ag (ucast blkno) s) = (Inr (), t')"
      then show "dinodes_inv s n t'"
        by (auto elim!: and_then_InrE intro: Suc.IH [OF t])
    qed
  next
    case False
    with k have loop: "for_each (decode_iab3_leaf_record env ag block) [0..<unat numrecs] st1 = (Inr u, st')"
      by (auto simp: decode_iab3_leaf_records_def split: if_splits)
    show ?thesis
      by (rule for_each_success_invariant [where P = "dinodes_inv s n", OF loop i1])
        (rule decode_iab3_leaf_record_inv [OF _ n isz])
  qed
qed

lemma dinodes_retrieve_inv:
  assumes be: "be_type x = XAL_BACKEND_XFS" and isz: "176 \<le> unat (inodesize (sb x))"
    and run: "xal_dinodes_retrieve fuel env x = (Inr u, x')"
  shows "\<exists>index. dinodes_inv (sb x) (unat (nallocated (sb x) * ucast (inodesize (sb x)))) (x', index)"
proof -
  let ?n = "unat (nallocated (sb x) * ucast (inodesize (sb x)) :: u64)"
  let ?x = "x\<lparr>dinodes_map := (\<lambda>_. None), dinodes := Some (buf_of ?n [])\<rparr>"
  have n: "?n < 2 ^ 64" using unsigned_less [of "nallocated (sb x) * ucast (inodesize (sb x))"] by simp
  from run be obtain v index where "retrieve_all_groups fuel env ?x = (Inr v, (x', index))"
    by (auto simp: xal_dinodes_retrieve_def split: if_splits prod.splits sum.splits)
  then have loop: "for_each (\<lambda>k s.
         if k < length (ags (fst s)) then
           retrieve_dinodes_via_iab3 fuel env (ags (fst s) ! k) (ucast (agi_root (ags (fst s) ! k))) s
         else (Inl (Fault OutOfBounds), s))
       [0..<unat (agcount (sb x))] (?x, 0) = (Inr v, (x', index))"
    by (simp add: retrieve_all_groups_def)
  have "dinodes_inv (sb x) ?n (x', index)"
  proof (rule for_each_success_invariant [OF loop])
    show "dinodes_inv (sb x) ?n (?x, 0)" by (simp add: dinodes_inv_def buf_of_def)
  next
    fix k t t'
    assume "dinodes_inv (sb x) ?n t"
      and "(if k < length (ags (fst t)) then
             retrieve_dinodes_via_iab3 fuel env (ags (fst t) ! k) (ucast (agi_root (ags (fst t) ! k))) t
           else (Inl (Fault OutOfBounds), t)) = (Inr (), t')"
    then show "dinodes_inv (sb x) ?n t'"
      by (auto split: if_splits intro: retrieve_dinodes_inv [OF _ n isz])
  qed
  then show ?thesis by blast
qed

section \<open>Opening\<close>

lemma retrieve_allocation_group_ok:
  assumes "retrieve_and_decode_allocation_group env agno x = (Inr u, x')"
  shows "\<exists>ag b. unat agno < length (ags x) \<and> x' = x\<lparr>io_buf := b, ags := (ags x)[unat agno := ag]\<rparr> \<and>
    seqno ag = agno \<and> ag_offset ag = ucast agno * ucast (agblocks (sb x)) * ucast (blocksize (sb x))"
  using assms unfolding retrieve_and_decode_allocation_group_def Let_def
  by (auto split: sum.splits prod.splits if_splits elim!: sbind_InrE)

text \<open>What the loop over the first \<open>k\<close> allocation groups has done to the candidate.\<close>

definition groups_opened :: "xal \<Rightarrow> nat \<Rightarrow> xal \<Rightarrow> bool" where
  "groups_opened x0 k x \<longleftrightarrow>
     (\<exists>b gs. x = x0\<lparr>io_buf := b, ags := gs,
                 sb := (sb x0)\<lparr>nallocated := (\<Sum>i<k. ucast (agi_count (gs ! i)))\<rparr>\<rparr> \<and>
        length gs = length (ags x0) \<and>
        (\<forall>i<k. seqno (gs ! i) = of_nat i \<and>
           ag_offset (gs ! i) = of_nat i * ucast (agblocks (sb x0)) * ucast (blocksize (sb x0))))"

lemma open_allocation_group_step:
  assumes k: "k < 2 ^ 32" and inv: "groups_opened x0 k x" and run: "open_allocation_group env k x = (Inr u, x')"
  shows "groups_opened x0 (Suc k) x'"
proof -
  from inv obtain b gs where x: "x = x0\<lparr>io_buf := b, ags := gs,
        sb := (sb x0)\<lparr>nallocated := (\<Sum>i<k. ucast (agi_count (gs ! i)))\<rparr>\<rparr>"
    and len: "length gs = length (ags x0)"
    and old: "\<forall>i<k. seqno (gs ! i) = of_nat i \<and>
           ag_offset (gs ! i) = of_nat i * ucast (agblocks (sb x0)) * ucast (blocksize (sb x0))"
    by (auto simp: groups_opened_def)
  have u: "unat (of_nat k :: u32) = k" using k by (simp add: unat_of_nat_small)
  from run obtain x1 where r: "retrieve_and_decode_allocation_group env (of_nat k) x = (Inr (), x1)"
    and x': "x' = x1\<lparr>sb := (sb x1)\<lparr>nallocated := nallocated (sb x1) + ucast (agi_count (ags x1 ! k))\<rparr>\<rparr>"
    by (auto simp: open_allocation_group_def elim!: and_then_InrE)
  from retrieve_allocation_group_ok [OF r] obtain ag b1 where
    kl: "k < length gs" and x1: "x1 = x\<lparr>io_buf := b1, ags := gs[k := ag]\<rparr>"
    and ag: "seqno ag = of_nat k"
      "ag_offset ag = ucast (of_nat k :: u32) * ucast (agblocks (sb x0)) * ucast (blocksize (sb x0))"
    by (auto simp: u x)
  have uk: "(ucast (of_nat k :: u32) :: u64) = of_nat k"
    using u by (metis of_nat_unat)
  have sum: "(\<Sum>i<k. ucast (agi_count (gs[k := ag] ! i)) :: u64) = (\<Sum>i<k. ucast (agi_count (gs ! i)))"
    by (intro sum.cong) auto
  show ?thesis
    unfolding groups_opened_def
    by (rule exI [of _ b1], rule exI [of _ "gs[k := ag]"])
      (use old kl len ag uk sum in \<open>auto simp: x' x1 x less_Suc_eq nth_list_update\<close>)
qed

lemma groups_opened_start:
  "nallocated (sb x) = 0 \<Longrightarrow> groups_opened x 0 x"
  unfolding groups_opened_def
  by (rule exI [of _ "io_buf x"], rule exI [of _ "ags x"]) simp

lemma decode_sb_nallocated: "decode_sb b = Inr s \<Longrightarrow> nallocated s = 0"
  by (auto simp: decode_sb_def elim!: sbind_InrE split: if_splits)

lemma primary_superblock_cand:
  assumes "retrieve_and_decode_primary_superblock env buf = (Inr (Some cand), buf')"
  shows "\<exists>s. cand = xal_null\<lparr>root_idx := XAL_POOL_IDX_NONE, sb := s, ags := replicate (unat (agcount s)) ag_null\<rparr> \<and>
     nallocated s = 0"
  using assms unfolding retrieve_and_decode_primary_superblock_def
  by (auto simp: Let_def split: prod.splits sum.splits fail.splits if_splits elim!: sbind_InrE
      dest: decode_sb_nallocated)

text \<open>The pools of a freshly opened xal, for kernels that keep protection inside the regions.\<close>

definition pools_bounded :: "xfs_env \<Rightarrow> bool" where
  "pools_bounded env \<longleftrightarrow>
     (\<forall>n. os_mprotect (inodes_os env) n = 0 \<longrightarrow> unat n \<le> 12480000000) \<and>
     (\<forall>n. os_mprotect (extents_os env) n = 0 \<longrightarrow> unat n \<le> 1000001536)"

definition pools_fresh :: "xfs_env \<Rightarrow> u64 \<Rightarrow> cstr option \<Rightarrow> xal \<Rightarrow> bool" where
  "pools_fresh env n shm x \<longleftrightarrow>
     pool_wf (inodes x) \<and> mprotect_bounded (inodes_os env) (inodes x) \<and> free (inodes x) = 0 \<and>
     reserved (inodes x) = 40000000 \<and>
     pool_wf (extents x) \<and> mprotect_bounded (extents_os env) (extents x) \<and> free (extents x) = 0 \<and>
     reserved (extents x) = 40000000 \<and>
     growby (inodes x) = (if shm = None then n else 40000000) \<and>
     growby (extents x) = (if shm = None then n else 40000000)"

lemma map_pools_fresh:
  assumes b: "pools_bounded env" and fresh: "inodes x = pool_null" "extents x = pool_null"
    and m1: "map_inodes env n shm x = (Inr u, x1)" and m2: "map_extents env n shm x1 = (Inr v, x2)"
  shows "pools_fresh env n shm x2 \<and> x2 = x\<lparr>inodes := inodes x2, extents := extents x2\<rparr>"
proof -
  from m1 obtain p where p: "xal_pool_map (inodes_os env) (inodes x) 40000000 n 312
      (map_option (\<lambda>s. s @ bytes_of ''_inodes'') shm) = (Inr u, p)" and x1: "x1 = x\<lparr>inodes := p\<rparr>"
    by (auto simp: map_inodes_def split: prod.splits)
  from m2 obtain q where q: "xal_pool_map (extents_os env) (extents x1) 40000000 n 25
      (map_option (\<lambda>s. s @ bytes_of ''_extents'') shm) = (Inr v, q)" and x2: "x2 = x1\<lparr>extents := q\<rparr>"
    by (auto simp: map_extents_def split: prod.splits)
  have "pool_wf p \<and> mprotect_bounded (inodes_os env) p \<and> free p = 0 \<and> reserved p = 40000000 \<and>
      growby p = (if shm = None then n else 40000000)"
    using map_ok [OF _ _ _ _ _ p] b fresh(1) by (auto simp: pools_bounded_def pool_null_def)
  moreover have "pool_wf q \<and> mprotect_bounded (extents_os env) q \<and> free q = 0 \<and> reserved q = 40000000 \<and>
      growby q = (if shm = None then n else 40000000)"
    using map_ok [OF _ _ _ _ _ q] b fresh(2) by (auto simp: pools_bounded_def pool_null_def x1)
  ultimately show ?thesis by (simp add: pools_fresh_def x1 x2)
qed

lemma xfs_open_ok:
  assumes b: "pools_bounded env" and run: "xal_be_xfs_open env opts = Inr x"
  shows "\<exists>cand x1. be_type cand = XAL_BACKEND_XFS \<and> ags cand = replicate (unat (agcount (sb cand))) ag_null \<and>
     dinodes cand = None \<and> \<not> dirty cand \<and> \<not> shared_view cand \<and> root_idx cand = XAL_POOL_IDX_NONE \<and>
     groups_opened cand (unat (agcount (sb cand))) x1 \<and>
     pools_fresh env (nallocated (sb x1)) (opt_shm_name opts) x \<and>
     x = x1\<lparr>inodes := inodes x, extents := extents x\<rparr>"
proof -
  from run obtain cand0 buf where
    c0: "retrieve_and_decode_primary_superblock env (buf_of BUF_NBYTES []) = (Inr (Some cand0), buf)"
    by (auto simp: xal_be_xfs_open_def split: if_splits prod.splits sum.splits option.splits)
  let ?cand = "cand0\<lparr>be_type := XAL_BACKEND_XFS, io_buf := buf\<rparr>"
  from primary_superblock_cand [OF c0] obtain s where
    cand: "cand0 = xal_null\<lparr>root_idx := XAL_POOL_IDX_NONE, sb := s, ags := replicate (unat (agcount s)) ag_null\<rparr>"
      "nallocated s = 0" by blast
  from run c0 obtain x1 x2 x3 where
    loop: "for_each (open_allocation_group env) [0..<unat (agcount (sb cand0))] ?cand = (Inr (), x1)"
    and m1: "map_inodes env (nallocated (sb x1)) (opt_shm_name opts) x1 = (Inr (), x2)"
    and m2: "map_extents env (nallocated (sb x2)) (opt_shm_name opts) x2 = (Inr (), x3)"
    and x: "x = x3"
    unfolding xal_be_xfs_open_def
    by (auto split: if_splits elim!: and_then_InrE simp: and_then_def split: prod.splits sum.splits)
  have ag32: "unat (agcount (sb cand0)) < 2 ^ 32"
    using unsigned_less [of "agcount (sb cand0)"] by simp
  have g: "groups_opened ?cand (unat (agcount (sb cand0))) x1"
  proof (rule for_each_upt_invariant [OF loop])
    show "groups_opened ?cand 0 ?cand" by (rule groups_opened_start) (simp add: cand)
    show "groups_opened ?cand (Suc k) t'"
      if "k < unat (agcount (sb cand0))" "groups_opened ?cand k t" "open_allocation_group env k t = (Inr (), t')"
      for k t t'
      using that ag32
      by (intro open_allocation_group_step [OF _ that(2,3)]) simp
  qed simp
  have n: "inodes x1 = pool_null" "extents x1 = pool_null"
    using g by (auto simp: groups_opened_def cand xal_null_def)
  have "nallocated (sb x2) = nallocated (sb x1)"
    using m1 by (auto simp: map_inodes_def split: prod.splits)
  with map_pools_fresh [OF b n m1, of "()" x3] m2 x have
    "pools_fresh env (nallocated (sb x1)) (opt_shm_name opts) x \<and> x = x1\<lparr>inodes := inodes x, extents := extents x\<rparr>"
    by simp
  with g show ?thesis
    by (intro exI [of _ ?cand] exI [of _ x1]) (simp add: cand xal_null_def)
qed

section \<open>A small device\<close>

text \<open>
  One inode of 176 bytes with number 2 in an inode chunk at block 2, and the leaf of the inode
  B+tree at block 1, on a device with blocks of 72 bytes.
\<close>

definition inode_disk :: "nat \<Rightarrow> u8" where
  "inode_disk = (\<lambda>_. 0)(72 := 0x49, 73 := 0x41, 74 := 0x42, 75 := 0x33, 79 := 1,
     131 := 2, 134 := 1, 303 := 2)"

definition inode_env :: xfs_env where
  "inode_env = demo_env\<lparr>mdts_nbytes := 1024,
     nvm_read := (\<lambda>slba nlb. Some (map inode_disk [unat slba * 8 ..< (unat slba + unat nlb + 1) * 8]))\<rparr>"

definition inode_sb :: xal_sb where
  "inode_sb = sb_null\<lparr>blocksize := 72, inodesize := 176, inopblock := 21, nallocated := 1,
     agblocks := 100, agblklog := 7, agcount := 1\<rparr>"

definition inode_xal :: xal where
  "inode_xal = xal_null\<lparr>sb := inode_sb, be_type := XAL_BACKEND_XFS, io_buf := buf_of BUF_NBYTES [],
     ags := [ag_null\<lparr>agi_root := 1\<rparr>]\<rparr>"

lemmas inode_simps = inode_env_def inode_sb_def inode_xal_def demo_env_def sb_null_def xal_null_def ag_null_def

lemma inode_fields:
  "sb inode_xal = inode_sb" "be_type inode_xal = XAL_BACKEND_XFS"
  "io_buf inode_xal = buf_of BUF_NBYTES []" "ags inode_xal = [ag_null\<lparr>agi_root := 1\<rparr>]"
  "dinodes_map inode_xal = (\<lambda>_. None)"
  "blocksize inode_sb = 72" "inodesize inode_sb = 176" "inopblock inode_sb = 21" "inopblog inode_sb = 0"
  "nallocated inode_sb = 1" "agblocks inode_sb = 100" "agblklog inode_sb = 7" "agcount inode_sb = 1"
  "seqno ag_null = 0" "ag_offset ag_null = 0" "kh_put_ok inode_env i" "kh_init_ok inode_env" "calloc_ok inode_env"
  by (simp_all add: inode_simps)

lemma inode_read_block: "dev_read_into inode_env 72 72 (buf_of 65536 []) (buf_of BUF_NBYTES []) = 
  (Inr (\<lparr>cap = 65536, bytes = (\<lambda>j. if j < 72 then inode_disk (72 + j) else 0)\<rparr>),
       (\<lparr>cap = 131072, bytes = (\<lambda>j. if j < 72 then inode_disk (72 + j) else 0)\<rparr>))"
  by (subst dev_read_into_eq [where data = "map inode_disk [72..<144]"])
     (simp_all add: inode_simps buf_of_def del: upt_rec_numeral cong: if_cong)

definition inode_block :: cbuf where
  "inode_block = \<lparr>cap = 65536, bytes = (\<lambda>j. if j < 72 then inode_disk (72 + j) else 0)\<rparr>"
definition inode_chunk :: cbuf where
  "inode_chunk = \<lparr>cap = 131072, bytes = (\<lambda>j. if j < 216 then inode_disk (144 + j) else 0)\<rparr>"

lemma inode_read_chunk: "dev_read_into inode_env 216 144 (buf_of BUF_NBYTES []) \<lparr>cap = 131072, bytes = (\<lambda>j. if j < 72 then inode_disk (72 + j) else 0)\<rparr> = 
  (Inr inode_chunk, inode_chunk)"
  by (subst dev_read_into_eq [where data = "map inode_disk [144..<360]"])
     (auto simp add: inode_simps buf_of_def inode_chunk_def simp del: upt_rec_numeral cong: if_cong)

lemma inode_block_fields: "be32 inode_block 0 = Inr XAL_ODF_IBT_CRC_MAGIC" "be16 inode_block 4 = Inr 0" "be16 inode_block 6 = Inr 1"
  by (simp_all add: inode_block_def be_defs rdn_def inode_disk_def be_word_def upt_small)

lemma inode_block_rec: "decode_inobt_rec inode_block 56 = Inr \<lparr>startino = 2, holemask = 0, rec_count = 1, rec_free = 0\<rparr>"
  by (simp add: decode_inobt_rec_def inode_block_def be_defs rdn_def rd8_def inode_disk_def be_word_def)

definition inode_array :: cbuf where
  "inode_array = \<lparr>cap = 176, bytes = (\<lambda>j. if j < 176 then inode_disk (144 + j) else 0)\<rparr>"

lemma inode_array_number: "be64 inode_array 152 = Inr 2"
  by (simp add: inode_array_def be_defs rdn_def inode_disk_def be_word_def)

lemma inode_store_copy: "sbind (rdn inode_chunk 0 176) (wrn (buf_of 176 []) 0) = Inr inode_array"
  by (simp add: rdn_def wrn_def inode_chunk_def inode_array_def buf_of_def del: upt_rec_numeral cong: if_cong)

lemma inode_store: "store_dinode inode_env \<lparr>startino = 2, holemask = 0, rec_count = 1, rec_free = 0\<rparr> inode_chunk 0 
   (inode_xal\<lparr>dinodes_map := (\<lambda>_. None), dinodes := Some (buf_of 176 []), io_buf := inode_chunk\<rparr>, 0) =
  (Inr (), (inode_xal\<lparr>dinodes := Some inode_array, io_buf := inode_chunk, dinodes_map := [2 \<mapsto> 0]\<rparr>, 1))"
  using inode_store_copy inode_array_number by (simp add: store_dinode_def inode_fields)

lemma inode_run: "xal_dinodes_retrieve 1 inode_env inode_xal =
  (Inr (), inode_xal\<lparr>dinodes := Some inode_array, io_buf := inode_chunk, dinodes_map := [2 \<mapsto> 0]\<rparr>)"
proof -
  have m7: "(2 :: u64) AND mask 7 = 2" by (simp add: mask_eq_exp_minus_1 del: exp_minus_1_mask)
  have "retrieve_dinodes_via_iab3 1 inode_env (ag_null\<lparr>agi_root := 1\<rparr>) 1
     (inode_xal\<lparr>dinodes_map := (\<lambda>_. None), dinodes := Some (buf_of 176 [])\<rparr>, 0) =
    (Inr (), (inode_xal\<lparr>dinodes := Some inode_array, io_buf := inode_chunk, dinodes_map := [2 \<mapsto> 0]\<rparr>, 1))"
    using inode_read_block inode_read_chunk inode_block_fields inode_block_rec inode_store m7
   by (simp add: inode_block_def [symmetric] read_iab3_block_def decode_iab3_leaf_records_def decode_iab3_leaf_record_def
    inode_fields xal_agbno_absolute_offset_def xal_ino_decode_relative_def Let_def)
  then show ?thesis
   by (simp add: xal_dinodes_retrieve_def retrieve_all_groups_def inode_fields)
qed

section \<open>Properties\<close>

text \<open>
  C40 (opening an XFS device). When \<open>xal_be_xfs_open\<close> succeeds, on kernels that do not
  protect memory outside of the regions of the pools, both pools are well-formed and empty with
  40 million elements reserved and grow by the number of allocated inodes (or are granted at once
  when shared under a name), that number is the sum of the inode counts of all allocation groups,
  every allocation group has its sequence number and its offset, and the xal is not indexed, not
  dirty and not a shared view.
\<close>

theorem xfs_open_establishes_state:
  assumes "pools_bounded env" and "xal_be_xfs_open env opts = Inr x"
  shows "pools_fresh env (nallocated (sb x)) (opt_shm_name opts) x \<and>
    be_type x = XAL_BACKEND_XFS \<and> root_idx x = XAL_POOL_IDX_NONE \<and> dinodes x = None \<and>
    \<not> dirty x \<and> \<not> shared_view x \<and>
    length (ags x) = unat (agcount (sb x)) \<and>
    nallocated (sb x) = (\<Sum>i<unat (agcount (sb x)). ucast (agi_count (ags x ! i))) \<and>
    (\<forall>i<unat (agcount (sb x)). seqno (ags x ! i) = of_nat i \<and>
       ag_offset (ags x ! i) = of_nat i * ucast (agblocks (sb x)) * ucast (blocksize (sb x)))"
proof -
  from xfs_open_ok [OF assms] obtain cand x1 where
    c: "be_type cand = XAL_BACKEND_XFS" "ags cand = replicate (unat (agcount (sb cand))) ag_null"
      "dinodes cand = None" "\<not> dirty cand" "\<not> shared_view cand" "root_idx cand = XAL_POOL_IDX_NONE"
    and g: "groups_opened cand (unat (agcount (sb cand))) x1"
    and p: "pools_fresh env (nallocated (sb x1)) (opt_shm_name opts) x"
    and x: "x = x1\<lparr>inodes := inodes x, extents := extents x\<rparr>"
    by blast
  have s: "sb x = sb x1" "ags x = ags x1" "be_type x = be_type x1" "root_idx x = root_idx x1"
    "dinodes x = dinodes x1" "dirty x = dirty x1" "shared_view x = shared_view x1"
    by (subst x, simp)+
  from g c p show ?thesis unfolding s groups_opened_def by auto
qed

definition zero_env :: xfs_env where
  "zero_env = demo_env\<lparr>mdts_nbytes := 4096,
     nvm_read := (\<lambda>slba nlb. Some (map (\<lambda>_. 0) [unat slba * 8 ..< (unat slba + unat nlb + 1) * 8]))\<rparr>"

theorem xfs_open_establishes_state_witness:
  "\<exists>x. xal_be_xfs_open zero_env \<lparr>opt_be = XAL_BACKEND_XFS, opt_watch_mode = XAL_WATCHMODE_NONE,
      opt_file_lookupmode = XAL_FILE_LOOKUPMODE_TRAVERSE, opt_shm_name = None\<rparr> = Inr x \<and>
    be_type x = XAL_BACKEND_XFS \<and> pool_wf (inodes x) \<and> free (inodes x) = 0"
proof -
  let ?opts = "\<lparr>opt_be = XAL_BACKEND_XFS, opt_watch_mode = XAL_WATCHMODE_NONE,
      opt_file_lookupmode = XAL_FILE_LOOKUPMODE_TRAVERSE, opt_shm_name = None\<rparr>"
  let ?zero = "\<lparr>cap = BUF_NBYTES, bytes = (\<lambda>_. 0)\<rparr>"
  have "dev_read_into zero_env 4096 0 (buf_of BUF_NBYTES []) (buf_of BUF_NBYTES []) = (Inr ?zero, ?zero)"
    by (subst dev_read_into_eq [where data = "map (\<lambda>_. 0) [0..<4096]"])
      (simp_all add: zero_env_def demo_env_def buf_of_def del: upt_rec_numeral cong: if_cong)
  then have "dev_read zero_env 4096 0 (buf_of BUF_NBYTES []) = (Inr (), ?zero)"
    by (auto simp: dev_read_into_def elim!: and_then_InrE)
  moreover have "decode_sb ?zero = Inr sb_null"
    by (simp add: decode_sb_def be_defs rdn_def rd8_def be_word_def sb_null_def upt_small)
  ultimately obtain x where run: "xal_be_xfs_open zero_env ?opts = Inr x"
    by (simp add: xal_be_xfs_open_def retrieve_and_decode_primary_superblock_def zero_env_def
        demo_env_def sb_null_def map_inodes_def map_extents_def xal_pool_map_def xal_pool_grow_def
        xal_null_def pool_null_def demo_os_def)
  have "pools_bounded zero_env"
    by (auto simp: pools_bounded_def zero_env_def demo_env_def demo_os_def word_le_nat_alt split: if_splits)
  from xfs_open_establishes_state [OF this run] have
    "be_type x = XAL_BACKEND_XFS" "pool_wf (inodes x)" "free (inodes x) = 0"
    by (auto simp: pools_fresh_def)
  with run show ?thesis by blast
qed

text \<open>
  C35 (lookup finds the right inode). After a successful \<open>xal_dinodes_retrieve\<close> on a
  file system whose inodes are at least as large as the inode core, every number that
  \<open>dinodes_get\<close> finds leads to a slot inside the array of inodes, and the inode stored in it
  carries that number: no later copy overwrote it.
\<close>

theorem retrieved_inode_has_its_number:
  assumes "be_type x = XAL_BACKEND_XFS" and "176 \<le> unat (inodesize (sb x))"
    and "xal_dinodes_retrieve fuel env x = (Inr u, x')" and "dinodes_get x' inum = Inr at"
  shows "\<exists>d. dinodes x' = Some d \<and> at mod unat (inodesize (sb x)) = 0 \<and>
    at + unat (inodesize (sb x)) \<le> cap d \<and> be64 d (at + 152) = Inr inum"
proof -
  let ?isz = "unat (inodesize (sb x))"
  from dinodes_retrieve_inv [OF assms(1-3)] obtain index d where
    d: "dinodes x' = Some d" "unat (index :: u64) * ?isz \<le> cap d"
    and ent: "dinodes_map x' inum = Some at \<Longrightarrow>
      (\<exists>i < unat index. at = i * ?isz) \<and> be64 d (at + 152) = Inr inum"
    by (auto simp: dinodes_inv_def)
  have "dinodes_map x' inum = Some at"
    using assms(4) by (simp add: dinodes_get_def split: option.splits)
  from ent [OF this] obtain i where i: "i < unat index" "at = i * ?isz" and be: "be64 d (at + 152) = Inr inum"
    by blast
  have "Suc i * ?isz \<le> unat index * ?isz" using i(1) by (intro mult_le_mono1) simp
  with d i be show ?thesis by auto
qed

theorem retrieved_inode_has_its_number_witness:
  "\<exists>x' d. xal_dinodes_retrieve 1 inode_env inode_xal = (Inr (), x') \<and> dinodes_get x' 2 = Inr 0 \<and>
     dinodes x' = Some d \<and> be64 d 152 = Inr 2"
  using retrieved_inode_has_its_number [OF _ _ inode_run, of 2 0] inode_run
  by (simp add: inode_fields dinodes_get_def)

text \<open>
  Note (layout of the B+tree root in an inode). For an inode with an attribute fork at
  \<open>8 * di_forkoff\<close> bytes that lies inside the inode, \<open>btree_dinode_meta\<close> gives as many key and
  pointer pairs as fit between the four header bytes and the attribute fork, and the pointers
  follow the keys and end inside the data fork.
\<close>

theorem dinode_btree_root_inside_fork:
  assumes "0 < unat forkoff" and "176 + 8 * unat forkoff \<le> unat (inodesize (sb x))"
    and "btree_dinode_meta x forkoff = (maxrecs, keys, pointers)"
  shows "unat maxrecs = (8 * unat forkoff - 4) div 16 \<and> unat keys = 180 \<and>
    unat pointers = unat keys + 8 * unat maxrecs \<and>
    unat pointers + 8 * unat maxrecs \<le> 176 + 8 * unat forkoff"
proof -
  have f: "unat forkoff < 2 ^ 8" using unsigned_less [of forkoff] by simp
  have m: "unat maxrecs = (8 * unat forkoff - 4) div 16"
  proof -
    have "(of_nat (8 * unat forkoff - 4) :: u64) = of_nat (8 * unat forkoff) - 4"
      using assms(1) by (simp add: of_nat_diff)
    then have "maxrecs = of_nat (8 * unat forkoff - 4) div 16"
      using assms(3) by (simp add: btree_dinode_meta_def Let_def mult.commute)
    then show ?thesis using f by (simp add: unat_div unat_of_nat_small)
  qed
  have "unat maxrecs < 2 ^ 8" using m f by simp
  then have p: "unat (180 + maxrecs * 8) = 180 + 8 * unat maxrecs"
    by (simp add: unat_word_ariths)
  have "maxrecs * 8 + 180 = pointers" "keys = 180"
    using assms(3) by (auto simp: btree_dinode_meta_def Let_def)
  moreover have "unat (180 :: u64) = 180" by simp
  moreover have "4 + 16 * ((8 * unat forkoff - 4) div 16) \<le> 8 * unat forkoff"
    using assms(1) by linarith
  ultimately show ?thesis using p m by (simp add: add.commute)
qed

theorem dinode_btree_root_inside_fork_witness:
  "btree_dinode_meta (xal_null\<lparr>sb := sb_null\<lparr>inodesize := 512\<rparr>\<rparr>) 24 = (11, 180, 268) \<and>
   unat (268 :: u64) + 8 * unat (11 :: u64) \<le> 176 + 8 * 24"
  using dinode_btree_root_inside_fork [of 24 "xal_null\<lparr>sb := sb_null\<lparr>inodesize := 512\<rparr>\<rparr>" 11 180 268]
  by (simp add: btree_dinode_meta_def)

text \<open>
  Note (no attribute fork, no B+tree root). For an inode without an attribute fork
  (\<open>di_forkoff\<close> is 0, and the data fork extends to the end of the inode) the size of the data
  fork comes out as zero bytes and the number of records wraps around, so the pointers of the
  root are looked for far outside of any object: reading the first one is an access out of
  bounds, whatever the inode contains.
\<close>

theorem dinode_btree_root_without_attr_fork:
  assumes "btree_dinode_meta x 0 = (maxrecs, keys, pointers)" and "cap d < 2 ^ 62" and "dinode_at < 2 ^ 62"
  shows "unat pointers = 180 + 8 * (2 ^ 60 - 1) \<and> be64 d (dinode_at + unat pointers) = Inl (Fault OutOfBounds)"
proof -
  have "pointers = 180 + (((0 :: u64) - 4) div 16) * 8"
    using assms(1) by (simp add: btree_dinode_meta_def Let_def)
  then have "unat pointers = 180 + 8 * (2 ^ 60 - 1)" by simp
  then show ?thesis using assms(2) by (simp add: be64_def rdn_def)
qed

theorem dinode_btree_root_without_attr_fork_witness:
  "be64 (buf_of 4096 []) (512 + (180 + 8 * (2 ^ 60 - 1))) = Inl (Fault OutOfBounds)"
proof -
  obtain m k p where "btree_dinode_meta (xal_null\<lparr>sb := sb_null\<lparr>inodesize := 512\<rparr>\<rparr>) 0 = (m, k, p)"
    by (cases "btree_dinode_meta (xal_null\<lparr>sb := sb_null\<lparr>inodesize := 512\<rparr>\<rparr>) 0")
  from dinode_btree_root_without_attr_fork [OF this, of "buf_of 4096 []" 512] show ?thesis
    by (auto simp: buf_of_def)
qed

text \<open>
  Note (a hole bit hides the wrong inodes). Each bit of the hole mask stands for four
  inodes of a chunk, but inode \<open>k\<close> is tested against bit \<open>k\<close>: when the last quarter byte of the
  mask marks the inodes 60 to 63 as a hole, the allocated inode 15 is skipped, and of the inodes
  60 to 63 none is skipped unless the free mask says so.
\<close>

theorem hole_mask_bit_skips_wrong_inode:
  assumes "bit (holemask rec) 15" and "\<not> bit (rec_free rec) 15"
  shows "store_dinode env rec inodechunk 15 s = (Inr (), s) \<and>
    (\<forall>k \<in> {60, 61, 62, 63}. store_dinode env (rec\<lparr>holemask := 0\<rparr>) inodechunk k s =
        store_dinode env rec inodechunk k s)"
proof -
  have "\<not> bit (holemask rec) k" if "16 \<le> k" for k
    using that bit_imp_le_length [of "holemask rec" k] by auto
  then show ?thesis
    using assms by (auto simp: store_dinode_def split: prod.splits)
qed

theorem hole_mask_bit_skips_wrong_inode_witness:
  "store_dinode inode_env \<lparr>startino = 0, holemask = 0x8000, rec_count = 60, rec_free = 0xF000000000000000\<rparr>
     inode_chunk 15 (inode_xal, 0) = (Inr (), (inode_xal, 0))"
proof -
  have "bit (0x8000 :: u16) 15" "\<not> bit (0xF000000000000000 :: u64) 15" by simp_all
  then show ?thesis
    using hole_mask_bit_skips_wrong_inode
      [of "\<lparr>startino = 0, holemask = 0x8000, rec_count = 60, rec_free = 0xF000000000000000\<rparr>"]
    by simp
qed

end
