(* ===== verification/Xal_Xfs.thy ===== *)
theory Xal_Xfs
  imports Xal_Dinodes Xal_Core
begin

text \<open>
  Indexing with the XFS backend (src/xal_be_xfs.c): starting from the root inode, every inode is
  looked up in the array of on-disk inodes, directories in short form, with inline extents or with
  a B+tree of extents are decoded into a contiguous range of the inode pool, files with inline
  extents or a B+tree of extents into a contiguous range of the extent pool, and the children of a
  directory are processed in turn. A helper that recurses into \<open>process_ino\<close> takes that call as
  its argument \<open>pi\<close>; the recursion itself and the one over interior B+tree nodes of files carry
  fuel, since neither checks the on-disk links for cycles.
\<close>

section \<open>Claiming and reading\<close>

definition claim_inodes :: "xfs_env \<Rightarrow> u64 \<Rightarrow> xal \<Rightarrow> (u32, xal) outcome" where
  "claim_inodes env n x =
     (case xal_pool_claim_inodes (inodes_os env) (inodes x) n of (r, p) \<Rightarrow> (r, x\<lparr>inodes := p\<rparr>))"

definition claim_extents :: "xfs_env \<Rightarrow> u64 \<Rightarrow> xal \<Rightarrow> (u32, xal) outcome" where
  "claim_extents env n x =
     (case xal_pool_claim_extents (extents_os env) (extents x) n of (r, p) \<Rightarrow> (r, x\<lparr>extents := p\<rparr>))"

definition read_io :: "xfs_env \<Rightarrow> u64 \<Rightarrow> u64 \<Rightarrow> xal \<Rightarrow> (unit, xal) outcome" where
  "read_io env n ofz x = (case dev_read env n ofz (io_buf x) of (r, b) \<Rightarrow> (r, x\<lparr>io_buf := b\<rparr>))"

text \<open>Into a fresh array of \<open>ODF_BLOCK_FS_BYTES_MAX\<close> zero bytes.\<close>

definition read_block :: "xfs_env \<Rightarrow> u64 \<Rightarrow> u64 \<Rightarrow> xal \<Rightarrow> (cbuf, xal) outcome" where
  "read_block env n ofz x =
     (case dev_read_into env n ofz (buf_of ODF_BLOCK_FS_BYTES_MAX []) (io_buf x) of
        (r, b) \<Rightarrow> (r, x\<lparr>io_buf := b\<rparr>))"

definition set_content :: "nat \<Rightarrow> u32 \<Rightarrow> u32 \<Rightarrow> xal \<Rightarrow> xal" where
  "set_content i idx cnt x = mod_inode i (\<lambda>n. n\<lparr>content := \<lparr>c_idx = idx, c_count = cnt\<rparr>\<rparr>) x"

definition set_content_idx :: "nat \<Rightarrow> u32 \<Rightarrow> xal \<Rightarrow> xal" where
  "set_content_idx i idx x = set_content i idx (c_count (content (xal_inode_at x i))) x"

definition add_content_count :: "nat \<Rightarrow> u32 \<Rightarrow> xal \<Rightarrow> xal" where
  "add_content_count i n x =
     set_content i (c_idx (content (xal_inode_at x i))) (c_count (content (xal_inode_at x i)) + n) x"

section \<open>Directory blocks\<close>

text \<open>The size of the entry and the entry; \<open>dentry\<close> comes in zeroed and stays so for a free entry.\<close>

definition decode_dentry :: "cbuf \<Rightarrow> nat \<Rightarrow> fail + (u16 \<times> xal_inode)" where
  "decode_dentry b i =
     sbind (be16 b i) (\<lambda>freetag.
       if freetag = 0xffff then sbind (be16 b (i + 2)) (\<lambda>len. Inr (len, 0))
       else
         sbind (be64 b i) (\<lambda>v_ino.
         sbind (rd8 b (i + 8)) (\<lambda>v_namelen.
         sbind (rdn b (i + 9) (unat v_namelen)) (\<lambda>v_name.
         sbind (rd8 b (i + 9 + unat v_namelen)) (\<lambda>v_ftype.
           Inr ((12 + ucast v_namelen + 7) div 8 * 8,
                0\<lparr>ino := v_ino, namelen := v_namelen, name := v_name, ftype := v_ftype\<rparr>))))))"

definition is_dot_entry :: "xal_inode \<Rightarrow> bool" where
  "is_dot_entry n \<longleftrightarrow>
     namelen n = 1 \<and> take 1 (name n) = [46] \<or> namelen n = 2 \<and> take 2 (name n) = [46, 46]"

definition add_dentry :: "xfs_env \<Rightarrow> nat \<Rightarrow> xal_inode \<Rightarrow> xal \<Rightarrow> (unit, xal) outcome" where
  "add_dentry env self dentry x =
     and_then (claim_inodes env 1 x) (\<lambda>slot x.
       (Inr (), add_content_count self 1
                  (put_inode (unat slot) (dentry\<lparr>parent_idx := xal_inode_idx x self\<rparr>) x)))"

text \<open>
  The loop over the entries of a block, from offset \<open>ofz\<close> to \<open>dirblocksize\<close>; the code has it
  twice. It stops at the first entry with inode number or name length zero; every other entry is
  at least 16 bytes long, so the offset grows.
\<close>

lemma dentry_size_pos:
  assumes "decode_dentry b i = Inr (n, dentry)" and "ino dentry \<noteq> 0"
  shows "16 \<le> unat n"
proof -
  from assms obtain v :: u8 where n: "n = (12 + ucast v + 7) div 8 * 8"
    by (auto simp: decode_dentry_def elim!: sbind_InrE split: if_splits)
  have v: "unat v < 256" using unsigned_less [of v] by simp
  have u: "unat (ucast v :: u16) = unat v" by (rule unat_ucast_up_eq) simp
  have "unat (12 + ucast v + 7 :: u16) = 19 + unat v"
    using v u by (simp add: unat_word_ariths)
  then have "unat ((12 + ucast v + 7 :: u16) div 8) = (19 + unat v) div 8"
    by (simp add: unat_div)
  then have "unat n = (19 + unat v) div 8 * 8"
    using v by (simp add: n unat_word_ariths)
  moreover have "2 \<le> (19 + unat v) div 8" by linarith
  ultimately show ?thesis by simp
qed

function dblock_entries :: "xfs_env \<Rightarrow> nat \<Rightarrow> cbuf \<Rightarrow> nat \<Rightarrow> nat \<Rightarrow> xal \<Rightarrow> (unit, xal) outcome" where
  "dblock_entries env limit dblock self ofz x =
     (if limit \<le> ofz then (Inr (), x)
      else
        case decode_dentry dblock ofz of
          Inl e \<Rightarrow> (Inl e, x)
        | Inr (n, dentry) \<Rightarrow>
            if ino dentry = 0 \<or> namelen dentry = 0 then (Inr (), x)
            else if is_dot_entry dentry then dblock_entries env limit dblock self (ofz + unat n) x
            else and_then (add_dentry env self dentry x) (\<lambda>_ x.
                   dblock_entries env limit dblock self (ofz + unat n) x))"
  by pat_completeness auto

termination
proof (relation "measure (\<lambda>(env, limit, dblock, self, ofz, x). limit - ofz)", goal_cases)
  case 1
  then show ?case by simp
next
  case (2 env limit dblock self ofz x p n dentry)
  with dentry_size_pos [of dblock ofz n dentry] show ?case by auto
next
  case (3 env limit dblock self ofz x p n dentry u y)
  with dentry_size_pos [of dblock ofz n dentry] show ?case by auto
qed

declare dblock_entries.simps [simp del]

text \<open>A block with an unknown magic number is skipped: the code returns \<open>err\<close>, which is 0 there.\<close>

definition process_dinode_dir_extents_dblock ::
  "xfs_env \<Rightarrow> u64 \<Rightarrow> nat \<Rightarrow> xal \<Rightarrow> (unit, xal) outcome" where
  "process_dinode_dir_extents_dblock env fsbno self x =
     and_then (read_block env (ucast (dirblocksize (sb x))) (xal_fsbno_offset x fsbno) x) (\<lambda>dblock x.
     and_then (lift_s (be32 dblock 0) x) (\<lambda>magic x.
       if magic \<noteq> XAL_ODF_DIR3_DATA_MAGIC \<and> magic \<noteq> XAL_ODF_DIR3_BLOCK_MAGIC then (Inr (), x)
       else dblock_entries env (unat (dirblocksize (sb x))) dblock self 64 x))"

text \<open>
  \<open>for (fsblk = 0; fsblk < nblocks; fsblk += step)\<close> over the directory blocks of an extent. With
  step zero (a superblock whose directory block is smaller than its block) the loop stays at the first
  block.
\<close>

definition process_dir_extent ::
  "xfs_env \<Rightarrow> nat \<Rightarrow> u32 \<Rightarrow> xal_extent \<Rightarrow> xal \<Rightarrow> (unit, xal) outcome" where
  "process_dir_extent env self step extent x =
     (if nblocks extent = 0 then (Inr (), x)
      else if step = 0 then
        and_then (process_dinode_dir_extents_dblock env (start_block extent) self x) (\<lambda>_ x. (Inl (Fault NoProgress), x))
      else for_each (\<lambda>k. process_dinode_dir_extents_dblock env
                            (start_block extent + of_nat (k * unat step)) self)
             [0..<(unat (nblocks extent) + unat step - 1) div unat step] x)"

definition fsblk_per_dblk :: "xal \<Rightarrow> fail + u32" where
  "fsblk_per_dblk x =
     (if blocksize (sb x) = 0 then Inl (Fault DivideByZero)
      else Inr (dirblocksize (sb x) div blocksize (sb x)))"

text \<open>\<open>decode_xfs_extent\<close> of the pair of big-endian words at an offset.\<close>

definition extent_at :: "cbuf \<Rightarrow> nat \<Rightarrow> fail + xal_extent" where
  "extent_at b i = sbind (be64 b i) (\<lambda>l0. sbind (be64 b (i + 8)) (\<lambda>l1. Inr (decode_xfs_extent l0 l1)))"

section \<open>Children of a directory\<close>

text \<open>
  The loop over the children of \<open>self\<close> after its entries are decoded. The code reads the count in
  each pass; no call of \<open>process_ino\<close> on another inode changes it (theory Xal_Xfs_Index proves
  it: see \<open>builds\<close>).
\<close>

definition process_children ::
  "(u64 \<Rightarrow> nat \<Rightarrow> xal \<Rightarrow> (unit, xal) outcome) \<Rightarrow> nat \<Rightarrow> xal \<Rightarrow> (unit, xal) outcome" where
  "process_children pi self x =
     (let first = dentries_idx (xal_inode_at x self)
      in for_each (\<lambda>i x. pi (ino (xal_inode_at x (first + i))) (first + i) x)
           [0..<dentries_count (xal_inode_at x self)] x)"

section \<open>Directories with a B+tree of extents\<close>

text \<open>
  The leaf decoder repeats the loops over blocks and entries, but there \<open>return err\<close> on a block with
  an unknown magic number leaves the whole function, with 0: \<open>Inr False\<close> says that the remaining
  blocks and records of the leaf are not looked at.
\<close>

definition leaf_dblock :: "xfs_env \<Rightarrow> u64 \<Rightarrow> nat \<Rightarrow> xal \<Rightarrow> (bool, xal) outcome" where
  "leaf_dblock env fsbno self x =
     and_then (read_block env (ucast (dirblocksize (sb x))) (xal_fsbno_offset x fsbno) x) (\<lambda>dblock x.
     and_then (lift_s (be32 dblock 0) x) (\<lambda>magic x.
       if magic \<noteq> XAL_ODF_DIR3_DATA_MAGIC \<and> magic \<noteq> XAL_ODF_DIR3_BLOCK_MAGIC then (Inr False, x)
       else and_then (dblock_entries env (unat (dirblocksize (sb x))) dblock self 64 x) (\<lambda>_ x. (Inr True, x))))"

definition leaf_extent :: "xfs_env \<Rightarrow> nat \<Rightarrow> u32 \<Rightarrow> xal_extent \<Rightarrow> xal \<Rightarrow> (bool, xal) outcome" where
  "leaf_extent env self step extent x =
     (if nblocks extent = 0 then (Inr True, x)
      else if step = 0 then
        and_then (leaf_dblock env (start_block extent) self x) (\<lambda>go x.
          if go then (Inl (Fault NoProgress), x) else (Inr False, x))
      else for_each_while (\<lambda>k. leaf_dblock env (start_block extent + of_nat (k * unat step)) self)
             [0..<(unat (nblocks extent) + unat step - 1) div unat step] x)"

definition btree_lblock_decode_leaf_records ::
  "xfs_env \<Rightarrow> cbuf \<Rightarrow> u16 \<Rightarrow> u16 \<Rightarrow> nat \<Rightarrow> xal \<Rightarrow> (unit, xal) outcome" where
  "btree_lblock_decode_leaf_records env leaf level numrecs self x =
     and_then (lift_s (fsblk_per_dblk x) x) (\<lambda>step x.
     and_then (lift_s (be32 leaf 0) x) (\<lambda>magic x.
       if magic \<noteq> XAL_ODF_BMAP_CRC_MAGIC then (Inl (Err (- EINVAL)), x)
       else if level \<noteq> 0 then (Inl (Err (- EINVAL)), x)
       else and_then (for_each_while (\<lambda>rec x.
              and_then (lift_s (extent_at leaf (72 + 16 * rec)) x) (\<lambda>extent x.
                leaf_extent env self step extent x))
              [0..<unat numrecs] x) (\<lambda>_ x. (Inr (), x))))"

definition btree_lblock_process :: "xfs_env \<Rightarrow> u64 \<Rightarrow> nat \<Rightarrow> xal \<Rightarrow> (unit, xal) outcome" where
  "btree_lblock_process env fsbno self x =
     and_then (read_block env (ucast (blocksize (sb x))) (xal_fsbno_offset x fsbno) x) (\<lambda>block x.
     and_then (lift_s (be16 block 4) x) (\<lambda>level x.
     and_then (lift_s (be16 block 6) x) (\<lambda>numrecs x.
       if level = 0 then btree_lblock_decode_leaf_records env block level numrecs self x
       else (Inl (Err (- ENOSYS)), x))))"

text \<open>The number of records is read from the same two bytes as the level.\<close>

definition process_dinode_dir_btree_root ::
  "xfs_env \<Rightarrow> (u64 \<Rightarrow> nat \<Rightarrow> xal \<Rightarrow> (unit, xal) outcome) \<Rightarrow> cbuf \<Rightarrow> nat \<Rightarrow> nat \<Rightarrow> xal
     \<Rightarrow> (unit, xal) outcome" where
  "process_dinode_dir_btree_root env pi d at self x =
     and_then (lift_s (be16 d (at + 176)) x) (\<lambda>level x.
     and_then (lift_s (be16 d (at + 176)) x) (\<lambda>numrecs x.
       if level < 1 then (Inl (Err (- EINVAL)), x)
       else
         and_then (lift_s (rd8 d (at + 82)) x) (\<lambda>forkoff x.
           let ofz_ptr = snd (snd (btree_dinode_meta x forkoff))
           in if dentries_count (xal_inode_at x self) \<noteq> 0 then (Inl (Err (- EINVAL)), x)
              else
                and_then
                  (for_each (\<lambda>rec x.
                      and_then (lift_s (be64 d (at + unat ofz_ptr + 8 * rec)) x) (\<lambda>fsbno x.
                        btree_lblock_process env fsbno self x))
                    [0..<unat numrecs] (set_content_idx self (ucast (free (inodes x))) x))
                  (\<lambda>_ x. process_children pi self x))))"

section \<open>Files with a B+tree of extents\<close>

definition process_file_btree_leaf :: "xfs_env \<Rightarrow> u64 \<Rightarrow> nat \<Rightarrow> xal \<Rightarrow> (unit, xal) outcome" where
  "process_file_btree_leaf env fsbno self x =
     and_then (read_io env (ucast (blocksize (sb x))) (xal_fsbno_offset x fsbno) x) (\<lambda>_ x.
     and_then (lift_s (be32 (io_buf x) 0) x) (\<lambda>magic x.
       if magic \<noteq> XAL_ODF_BMAP_CRC_MAGIC then (Inl (Err (- EINVAL)), x)
       else
         and_then (lift_s (be16 (io_buf x) 4) x) (\<lambda>level x.
           if level \<noteq> 0 then (Inl (Err (- EINVAL)), x)
           else
             and_then (lift_s (be16 (io_buf x) 6) x) (\<lambda>numrecs x.
             and_then (claim_extents env (ucast numrecs) x) (\<lambda>extent_start x.
               for_each (\<lambda>rec x.
                   and_then (lift_s (extent_at (io_buf x) (72 + 16 * rec)) x) (\<lambda>e x.
                     (Inr (), put_extent (unat extent_start + rec) e x)))
                 [0..<unat numrecs] (add_content_count self (ucast numrecs) x))))))"

fun process_file_btree_node :: "nat \<Rightarrow> xfs_env \<Rightarrow> u64 \<Rightarrow> nat \<Rightarrow> xal \<Rightarrow> (unit, xal) outcome" where
  "process_file_btree_node 0 env fsbno self x = (Inl (Fault OutOfFuel), x)"
| "process_file_btree_node (Suc fuel) env fsbno self x =
     (if ODF_BLOCK_FS_BYTES_MAX < unat (blocksize (sb x)) then (Inl (Err (- EINVAL)), x)
      else
        let bs = ucast (blocksize (sb x)) :: u64;
            pointers_ofz = snd (snd (btree_lblock_meta x))
        in and_then (read_io env bs (xal_fsbno_offset x fsbno) x) (\<lambda>_ x.
           and_then (lift_s (sbind (rdn (io_buf x) (unat pointers_ofz) (unat (bs - pointers_ofz)))
                               (wrn (buf_of ODF_BLOCK_FS_BYTES_MAX []) 0)) x) (\<lambda>pointers x.
           and_then (lift_s (be32 (io_buf x) 0) x) (\<lambda>magic x.
             if magic \<noteq> XAL_ODF_BMAP_CRC_MAGIC then (Inl (Err (- EINVAL)), x)
             else
               and_then (lift_s (be16 (io_buf x) 4) x) (\<lambda>level x.
                 if level = 0 then (Inl (Err (- EINVAL)), x)
                 else
                   and_then (lift_s (be16 (io_buf x) 6) x) (\<lambda>numrecs x.
                     for_each (\<lambda>rec x.
                         and_then (lift_s (be64 pointers (8 * rec)) x) (\<lambda>pointer x.
                           if level = 1 then process_file_btree_leaf env pointer self x
                           else process_file_btree_node fuel env pointer self x))
                       [0..<unat numrecs] x))))))"

definition process_dinode_file_btree_root ::
  "nat \<Rightarrow> xfs_env \<Rightarrow> cbuf \<Rightarrow> nat \<Rightarrow> nat \<Rightarrow> xal \<Rightarrow> (unit, xal) outcome" where
  "process_dinode_file_btree_root fuel env d at self x =
     and_then (lift_s (be16 d (at + 176)) x) (\<lambda>level x.
     and_then (lift_s (be16 d (at + 178)) x) (\<lambda>numrecs x.
       if level < 1 then (Inl (Err (- EINVAL)), x)
       else
         and_then (lift_s (rd8 d (at + 82)) x) (\<lambda>forkoff x.
           let ofz_ptr = snd (snd (btree_dinode_meta x forkoff))
           in if extents_count (xal_inode_at x self) \<noteq> 0 then (Inl (Err (- EINVAL)), x)
              else
                for_each (\<lambda>rec x.
                    and_then (lift_s (be64 d (at + unat ofz_ptr + 8 * rec)) x) (\<lambda>pointer x.
                      if level = 1 then process_file_btree_leaf env pointer self x
                      else process_file_btree_node fuel env pointer self x))
                  [0..<unat numrecs] (set_content_idx self (ucast (free (extents x))) x))))"

section \<open>Short-form directories\<close>

text \<open>
  The entries of a short-form directory: the loop counter runs over \<open>n\<close> more entries, the next
  one is stored at position \<open>slot\<close> and starts at \<open>cursor\<close>; \<open>i8count\<close> counts down.
\<close>

fun sf_entries :: "cbuf \<Rightarrow> nat \<Rightarrow> nat \<Rightarrow> nat \<Rightarrow> u8 \<Rightarrow> xal \<Rightarrow> (unit, xal) outcome" where
  "sf_entries d 0 slot cursor i8count x = (Inr (), x)"
| "sf_entries d (Suc n) slot cursor i8count x =
     and_then (lift_s (rd8 d cursor) x) (\<lambda>v_namelen x.
     and_then (lift_s (rdn d (cursor + 3) (unat v_namelen)) x) (\<lambda>v_name x.
     and_then (lift_s (rd8 d (cursor + 3 + unat v_namelen)) x) (\<lambda>v_ftype x.
       let at_ino = cursor + 3 + unat v_namelen + 1
       in and_then
            (lift_s (if i8count \<noteq> 0 then be64 d at_ino
                     else sbind (be32 d at_ino) (\<lambda>w. Inr (ucast w))) x)
            (\<lambda>v_ino x.
               sf_entries d n (slot + 1) (at_ino + (if i8count \<noteq> 0 then 8 else 4))
                 (if i8count \<noteq> 0 then i8count - 1 else i8count)
                 (mod_inode slot (\<lambda>dentry. dentry\<lparr>namelen := v_namelen,
                    name := v_name @ drop (unat v_namelen) (name dentry),
                    ftype := v_ftype, ino := v_ino\<rparr>) x)))))"

definition process_dinode_dir_local ::
  "xfs_env \<Rightarrow> (u64 \<Rightarrow> nat \<Rightarrow> xal \<Rightarrow> (unit, xal) outcome) \<Rightarrow> cbuf \<Rightarrow> nat \<Rightarrow> nat \<Rightarrow> xal
     \<Rightarrow> (unit, xal) outcome" where
  "process_dinode_dir_local env pi d at self x =
     and_then (lift_s (rd8 d (at + 176)) x) (\<lambda>count x.
     and_then (lift_s (rd8 d (at + 177)) x) (\<lambda>i8count x.
       let cursor = at + 178 + (if i8count \<noteq> 0 then 8 else 4);
           x = set_content self (c_idx (content (xal_inode_at x self))) (ucast count) x
       in and_then (claim_inodes env (ucast count) x) (\<lambda>idx x.
          and_then (sf_entries d (unat count) (unat idx) cursor i8count (set_content_idx self idx x)) (\<lambda>_ x.
            for_each (\<lambda>i x.
                let x = mod_inode (unat idx + i) (\<lambda>n. n\<lparr>parent_idx := xal_inode_idx x self\<rparr>) x
                in pi (ino (xal_inode_at x (unat idx + i))) (unat idx + i) x)
              [0..<unat count] x))))"

section \<open>Inline extents\<close>

definition process_dinode_file_extents ::
  "xfs_env \<Rightarrow> cbuf \<Rightarrow> nat \<Rightarrow> nat \<Rightarrow> xal \<Rightarrow> (unit, xal) outcome" where
  "process_dinode_file_extents env d at self x =
     and_then (lift_s (be32 d (at + 76)) x) (\<lambda>di_nextents x.
     and_then (lift_s (if di_nextents \<noteq> 0 then Inr (ucast di_nextents) else be64 d (at + 24)) x)
       (\<lambda>nextents x.
     and_then (claim_extents env nextents x) (\<lambda>idx x.
       for_each (\<lambda>rec x.
           and_then (lift_s (extent_at d (at + 176 + 16 * rec)) x) (\<lambda>e x.
             (Inr (), put_extent (unat idx + rec) e x)))
         [0..<unat nextents] (set_content self idx (ucast nextents) x))))"

text \<open>
  The loop \<open>(nbytes > 0) && (i < nextents)\<close>; \<open>nbytes\<close> is signed. The result says whether a
  directory block was processed, that is whether \<open>err\<close> was assigned.
\<close>

function dir_extents_loop ::
  "xfs_env \<Rightarrow> cbuf \<Rightarrow> nat \<Rightarrow> nat \<Rightarrow> u32 \<Rightarrow> nat \<Rightarrow> nat \<Rightarrow> u64 \<Rightarrow> bool \<Rightarrow> xal \<Rightarrow> (bool, xal) outcome" where
  "dir_extents_loop env d at self step nextents i nbytes seen x =
     (if 0 < sint nbytes \<and> i < nextents then
        and_then (lift_s (extent_at d (at + 176 + 16 * i)) x) (\<lambda>extent x.
        and_then (process_dir_extent env self step extent x) (\<lambda>_ x.
          dir_extents_loop env d at self step nextents (i + 1)
            (nbytes - nblocks extent * ucast (blocksize (sb x))) (seen \<or> nblocks extent \<noteq> 0) x))
      else (Inr seen, x))"
  by pat_completeness auto

termination
  by (relation "measure (\<lambda>(env, d, at, self, step, nextents, i, nbytes, seen, x). nextents - i)") auto

declare dir_extents_loop.simps [simp del]

definition process_dinode_dir_extents ::
  "xfs_env \<Rightarrow> (u64 \<Rightarrow> nat \<Rightarrow> xal \<Rightarrow> (unit, xal) outcome) \<Rightarrow> cbuf \<Rightarrow> nat \<Rightarrow> nat \<Rightarrow> xal
     \<Rightarrow> (unit, xal) outcome" where
  "process_dinode_dir_extents env pi d at self x =
     and_then (lift_s (fsblk_per_dblk x) x) (\<lambda>step x.
     and_then (lift_s (be32 d (at + 76)) x) (\<lambda>di_nextents x.
     and_then (lift_s (be64 d (at + 56)) x) (\<lambda>nbytes x.
     and_then (lift_s (if di_nextents \<noteq> 0 then Inr (ucast di_nextents) else be64 d (at + 24)) x)
       (\<lambda>nextents x.
     and_then (dir_extents_loop env d at self step (unat (nextents :: u64)) 0 nbytes False
                 (set_content_idx self (ucast (free (inodes x))) x)) (\<lambda>seen x.
     and_then (process_children pi self x) (\<lambda>_ y.
       if seen \<or> dentries_count (xal_inode_at x self) \<noteq> 0 \<or> uninit_err env = 0 then (Inr (), y)
       else (Inl (Err (uninit_err env)), y)))))))"

section \<open>Inodes\<close>

abbreviation XAL_DINODE_FMT_DEV :: u8 where "XAL_DINODE_FMT_DEV \<equiv> 0"
abbreviation XAL_DINODE_FMT_LOCAL :: u8 where "XAL_DINODE_FMT_LOCAL \<equiv> 1"
abbreviation XAL_DINODE_FMT_EXTENTS :: u8 where "XAL_DINODE_FMT_EXTENTS \<equiv> 2"
abbreviation XAL_DINODE_FMT_BTREE :: u8 where "XAL_DINODE_FMT_BTREE \<equiv> 3"
abbreviation XAL_DINODE_FMT_UUID :: u8 where "XAL_DINODE_FMT_UUID \<equiv> 4"

definition ftype_of_mode :: "u16 \<Rightarrow> fail + u8" where
  "ftype_of_mode mode =
     (if mode AND 0xF000 = 0x4000 then Inr XAL_ODF_DIR3_FT_DIR
      else if mode AND 0xF000 = 0x8000 then Inr XAL_ODF_DIR3_FT_REG_FILE
      else Inl (Err (- EINVAL)))"

text \<open>The first part of \<open>process_ino\<close>: the fields every inode has. The result is the format.\<close>

definition fill_inode :: "cbuf \<Rightarrow> nat \<Rightarrow> nat \<Rightarrow> xal \<Rightarrow> (u8, xal) outcome" where
  "fill_inode d at self x =
     and_then (lift_s (if ftype (xal_inode_at x self) = 0 then sbind (be16 d (at + 2)) ftype_of_mode
                       else Inr (ftype (xal_inode_at x self))) x) (\<lambda>t x.
     and_then (lift_s (be64 d (at + 56)) x) (\<lambda>v_size x.
     and_then (lift_s (be64 d (at + 152)) x) (\<lambda>v_ino x.
     and_then (lift_s (rd8 d (at + 5)) x) (\<lambda>fmt x.
       (Inr fmt, mod_inode self (\<lambda>n. n\<lparr>ftype := t, isize := v_size, ino := v_ino\<rparr>) x)))))"

text \<open>The \<open>switch\<close> over the format; a format above 4 is not rejected.\<close>

definition process_format ::
  "nat \<Rightarrow> xfs_env \<Rightarrow> (u64 \<Rightarrow> nat \<Rightarrow> xal \<Rightarrow> (unit, xal) outcome) \<Rightarrow> cbuf \<Rightarrow> nat \<Rightarrow> nat \<Rightarrow> u8 \<Rightarrow> xal
     \<Rightarrow> (unit, xal) outcome" where
  "process_format fuel env pi d at self fmt x =
     (let t = ftype (xal_inode_at x self)
      in if fmt = XAL_DINODE_FMT_BTREE then
           if t = XAL_ODF_DIR3_FT_DIR then
             process_dinode_dir_btree_root env pi d at self
               (set_content_idx self (ucast (free (inodes x))) x)
           else if t = XAL_ODF_DIR3_FT_REG_FILE then process_dinode_file_btree_root fuel env d at self x
           else (Inl (Err (- ENOSYS)), x)
         else if fmt = XAL_DINODE_FMT_EXTENTS then
           if t = XAL_ODF_DIR3_FT_DIR then process_dinode_dir_extents env pi d at self x
           else if t = XAL_ODF_DIR3_FT_REG_FILE then process_dinode_file_extents env d at self x
           else (Inl (Err (- ENOSYS)), x)
         else if fmt = XAL_DINODE_FMT_LOCAL then
           if t = XAL_ODF_DIR3_FT_DIR then process_dinode_dir_local env pi d at self x
           else (Inl (Err (- ENOSYS)), x)
         else if fmt = XAL_DINODE_FMT_DEV \<or> fmt = XAL_DINODE_FMT_UUID then (Inl (Err (- ENOSYS)), x)
         else (Inr (), x))"

fun process_ino :: "nat \<Rightarrow> xfs_env \<Rightarrow> u64 \<Rightarrow> nat \<Rightarrow> xal \<Rightarrow> (unit, xal) outcome" where
  "process_ino 0 env inum self x = (Inl (Fault OutOfFuel), x)"
| "process_ino (Suc fuel) env inum self x =
     and_then (lift_s (dinodes_get x inum) x) (\<lambda>at x.
       case dinodes x of
         None \<Rightarrow> (Inl (Fault NullDeref), x)
       | Some d \<Rightarrow>
           and_then (fill_inode d at self x) (\<lambda>fmt x.
             process_format fuel env (\<lambda>i s y. process_ino fuel env i s y) d at self fmt x))"

text \<open>The results of the two \<open>xal_pool_clear\<close> calls are not looked at.\<close>

definition xal_be_xfs_index :: "nat \<Rightarrow> xfs_env \<Rightarrow> xal \<Rightarrow> (unit, xal) outcome" where
  "xal_be_xfs_index fuel env x =
     (if dinodes x = None then (Inl (Err (- EINVAL)), x)
      else
        let x = x\<lparr>inodes := snd (xal_pool_clear (inodes_os env) (inodes x)),
                  extents := snd (xal_pool_clear (extents_os env) (extents x))\<rparr>
        in and_then (claim_inodes env 1 x) (\<lambda>root x.
             let x = mod_inode (unat root) (\<lambda>n. n\<lparr>ino := rootino (sb x), ftype := XAL_ODF_DIR3_FT_DIR,
                         namelen := 0, parent_idx := XAL_POOL_IDX_NONE,
                         content := \<lparr>c_idx = c_idx (content n), c_count = 0\<rparr>\<rparr>)
                       (x\<lparr>root_idx := root\<rparr>)
             in and_then (process_ino fuel env (ino (xal_inode_at x (unat root))) (unat root) x) (\<lambda>_ x.
                  (Inr (), x\<lparr>dirty := False\<rparr>))))"

end
