(* ===== verification/Xal_Xfs_Index.thy ===== *)
theory Xal_Xfs_Index
  imports Xal_Xfs Xal_Tree
begin

text \<open>
  What indexing with the XFS backend guarantees. Every function that fills a directory satisfies
  \<open>dir_filled\<close>, every function that reads the extents of a file \<open>file_filled\<close>; \<open>process_ino\<close> is a
  \<open>tree_builder\<close>, so a successful index is a tree whose walk visits every claimed inode once.
\<close>

section \<open>State\<close>

text \<open>All inodes that the map leads to have one of the five formats of the file system.\<close>

definition formats_known :: "xal \<Rightarrow> bool" where
  "formats_known x \<longleftrightarrow>
     (\<forall>inum at d fmt. dinodes_map x inum = Some at \<and> dinodes x = Some d \<and> rd8 d (at + 5) = Inr fmt \<longrightarrow>
        fmt \<le> 4)"

lemma formats_known_simps [simp]:
  "formats_known (x\<lparr>inodes := p\<rparr>) = formats_known x"
  "formats_known (x\<lparr>extents := q\<rparr>) = formats_known x"
  "formats_known (x\<lparr>io_buf := b\<rparr>) = formats_known x"
  "formats_known (x\<lparr>root_idx := r\<rparr>) = formats_known x"
  "formats_known (x\<lparr>dirty := t\<rparr>) = formats_known x"
  by (simp_all add: formats_known_def)

definition xfs_good :: "xfs_env \<Rightarrow> xal \<Rightarrow> bool" where
  "xfs_good env x \<longleftrightarrow>
     pool_wf (inodes x) \<and> mprotect_bounded (inodes_os env) (inodes x) \<and>
     pool_room (inodes x) = unat (reserved (inodes x)) \<and>
     pool_wf (extents x) \<and> mprotect_bounded (extents_os env) (extents x) \<and> formats_known x"

text \<open>What indexing never changes.\<close>

definition fixed_part :: "xal \<Rightarrow> xal_sb \<times> xal_backend \<times> cbuf option \<times> (u64 \<Rightarrow> nat option) \<times> u32" where
  "fixed_part x = (sb x, be_type x, dinodes x, dinodes_map x, root_idx x)"

lemma itop_32: "xfs_good env x \<Longrightarrow> itop x < 2 ^ 32"
  using pool_wf_room [of "inodes x"] by (auto simp: xfs_good_def pool_wf_def)

lemma etop_32: "xfs_good env x \<Longrightarrow> etop x < 2 ^ 32"
  using pool_wf_room [of "extents x"] by (auto simp: xfs_good_def pool_wf_def)

lemma put_inode_parts [simp]:
  "fixed_part (put_inode i v x) = fixed_part x" "io_buf (put_inode i v x) = io_buf x"
  "dinodes (put_inode i v x) = dinodes x" "dinodes_map (put_inode i v x) = dinodes_map x"
  by (simp_all add: put_inode_def fixed_part_def)

lemma put_inode_good: "xfs_good env x \<Longrightarrow> i < itop x \<Longrightarrow> xfs_good env (put_inode i v x)"
  by (auto simp: xfs_good_def put_inode_def pool_wf_def mprotect_bounded_def pool_room_def
      pool_bytes_def formats_known_def)

lemma io_buf_parts [simp]:
  "fixed_part (x\<lparr>io_buf := b\<rparr>) = fixed_part x" "xfs_good env (x\<lparr>io_buf := b\<rparr>) = xfs_good env x"
  by (simp_all add: fixed_part_def xfs_good_def formats_known_def)

lemma fixed_part_fields:
  "fixed_part x' = fixed_part x \<Longrightarrow>
   sb x' = sb x \<and> be_type x' = be_type x \<and> dinodes x' = dinodes x \<and> dinodes_map x' = dinodes_map x \<and>
   root_idx x' = root_idx x"
  by (simp add: fixed_part_def)

lemma claim_inodes_good:
  assumes g: "xfs_good env x" and run: "claim_inodes env n x = (Inr i, x')"
  shows "xfs_good env x' \<and> unat i = itop x \<and> itop x' = itop x + unat n \<and>
    (\<forall>j < itop x. imem x' j = imem x j) \<and> (\<forall>j. itop x \<le> j \<and> j < itop x' \<longrightarrow> imem x' j = 0) \<and>
    fixed_part x' = fixed_part x \<and> extents x' = extents x"
proof -
  from run obtain p where p: "xal_pool_claim_inodes (inodes_os env) (inodes x) n = (Inr i, p)"
    and x': "x' = x\<lparr>inodes := p\<rparr>" by (auto simp: claim_inodes_def split: prod.splits)
  have wf: "pool_wf (inodes x)" "mprotect_bounded (inodes_os env) (inodes x)"
      "pool_room (inodes x) = unat (reserved (inodes x))"
    using g by (simp_all add: xfs_good_def)
  from claim_inodes_fresh [OF wf p] g show ?thesis
    by (auto simp: x' xfs_good_def fixed_part_def formats_known_def)
qed

lemma claim_extents_good:
  assumes g: "xfs_good env x" and run: "claim_extents env n x = (Inr i, x')"
  shows "xfs_good env x' \<and> unat i = etop x \<and> etop x' = etop x + unat n \<and>
    (\<forall>j < etop x. memory (extents x') j = memory (extents x) j) \<and>
    fixed_part x' = fixed_part x \<and> inodes x' = inodes x"
proof -
  from run obtain p where p: "xal_pool_claim_extents (extents_os env) (extents x) n = (Inr i, p)"
    and x': "x' = x\<lparr>extents := p\<rparr>" by (auto simp: claim_extents_def split: prod.splits)
  have wf: "pool_wf (extents x)" "mprotect_bounded (extents_os env) (extents x)"
    using g by (simp_all add: xfs_good_def)
  from claim_extents_ok [OF wf p] g show ?thesis
    by (auto simp: x' xfs_good_def fixed_part_def formats_known_def)
qed

section \<open>Filling a directory\<close>

text \<open>
  From \<open>x\<close> to \<open>x'\<close>, entries were added to the directory \<open>self\<close>: its count grew by what was
  claimed, the new inodes know their parent and have no content yet, all else is as it was.
\<close>

definition dir_filled :: "xfs_env \<Rightarrow> nat \<Rightarrow> xal \<Rightarrow> xal \<Rightarrow> bool" where
  "dir_filled env self x x' \<longleftrightarrow>
     xfs_good env x' \<and> fixed_part x' = fixed_part x \<and> extents x' = extents x \<and> itop x \<le> itop x' \<and>
     (\<forall>j < itop x. j \<noteq> self \<longrightarrow> imem x' j = imem x j) \<and>
     imem x' self = (imem x self)\<lparr>content :=
       \<lparr>c_idx = c_idx (content (imem x self)),
        c_count = c_count (content (imem x self)) + of_nat (itop x' - itop x)\<rparr>\<rparr> \<and>
     (\<forall>j. itop x \<le> j \<and> j < itop x' \<longrightarrow>
        parent_of (imem x') j = self \<and> c_count (content (imem x' j)) = 0)"

lemma dir_filled_refl: "xfs_good env x \<Longrightarrow> dir_filled env self x x"
  by (auto simp: dir_filled_def)

lemma dir_filled_trans:
  assumes "dir_filled env self x y" and "dir_filled env self y z" and "self < itop x"
  shows "dir_filled env self x z"
proof -
  have le: "itop x \<le> itop y" "itop y \<le> itop z" using assms by (auto simp: dir_filled_def)
  have "c + of_nat (itop y - itop x) + of_nat (itop z - itop y) = c + (of_nat (itop z - itop x) :: u32)" for c
    using le by (simp add: of_nat_diff)
  moreover have "parent_of (imem z) j = self \<and> c_count (content (imem z j)) = 0"
    if "itop x \<le> j" "j < itop z" for j
    using assms that by (cases "j < itop y") (auto simp: dir_filled_def parent_of_def)
  ultimately show ?thesis
    using assms le by (auto simp: dir_filled_def)
qed

lemma dir_filled_io_buf [simp]: "dir_filled env self x (y\<lparr>io_buf := b\<rparr>) = dir_filled env self x y"
  by (simp add: dir_filled_def)

lemma read_block_filled:
  "xfs_good env x \<Longrightarrow> read_block env n ofz x = (r, x') \<Longrightarrow> dir_filled env self x x' \<and> inodes x' = inodes x"
  by (auto simp: read_block_def dir_filled_refl split: prod.splits)

lemma add_dentry_filled:
  assumes g: "xfs_good env x" and self: "self < itop x" and c0: "c_count (content dentry) = 0"
    and run: "add_dentry env self dentry x = (Inr u, x')"
  shows "dir_filled env self x x'"
proof -
  from run obtain slot x1 where cl: "claim_inodes env 1 x = (Inr slot, x1)"
    and x': "x' = add_content_count self 1 (put_inode (unat slot) (dentry\<lparr>parent_idx := xal_inode_idx x1 self\<rparr>) x1)"
    by (auto simp: add_dentry_def elim!: and_then_InrE)
  note ok = claim_inodes_good [OF g cl]
  have s32: "unat (of_nat self :: u32) = self"
    using self itop_32 [OF g] by (simp add: unat_of_nat_small)
  have "xfs_good env x'"
    using ok self unfolding x' add_content_count_def set_content_def mod_inode_def
    by (intro put_inode_good) auto
  with ok self c0 s32 show ?thesis
    by (auto simp: dir_filled_def x' add_content_count_def set_content_def mod_inode_def
        xal_inode_at_def xal_inode_idx_def parent_of_def)
qed

lemma dir_filled_step:
  assumes f: "dir_filled env self x y" and self: "self < itop x"
    and step: "xfs_good env y \<Longrightarrow> self < itop y \<Longrightarrow> dir_filled env self y z"
  shows "dir_filled env self x z"
proof (rule dir_filled_trans [OF f _ self])
  show "dir_filled env self y z"
    using f self by (intro step) (auto simp: dir_filled_def)
qed

lemma for_each_filled:
  assumes "for_each body xs x = (Inr u, x')" and "xfs_good env x" and self: "self < itop x"
    and body: "\<And>k y y'. xfs_good env y \<Longrightarrow> self < itop y \<Longrightarrow> body k y = (Inr (), y') \<Longrightarrow>
      dir_filled env self y y'"
  shows "dir_filled env self x x'"
proof (rule for_each_success_invariant [where P = "dir_filled env self x", OF assms(1)])
  show "dir_filled env self x x" by (rule dir_filled_refl [OF assms(2)])
next
  fix k t t'
  assume t: "dir_filled env self x t" and run: "body k t = (Inr (), t')"
  show "dir_filled env self x t'"
    by (rule dir_filled_step [OF t self]) (rule body [OF _ _ run])
qed

lemma decode_dentry_no_content: "decode_dentry b i = Inr (n, dentry) \<Longrightarrow> c_count (content dentry) = 0"
  by (auto simp: decode_dentry_def elim!: sbind_InrE split: if_splits)

lemma dblock_entries_filled:
  "xfs_good env x \<Longrightarrow> self < itop x \<Longrightarrow> dblock_entries env limit b self ofz x = (Inr u, x') \<Longrightarrow>
   dir_filled env self x x'"
proof (induction env limit b self ofz x arbitrary: x' u rule: dblock_entries.induct)
  case (1 env limit b self ofz x)
  note run = 1(5) [unfolded dblock_entries.simps [of env limit b self ofz x]]
  show ?case
  proof (cases "limit \<le> ofz")
    case True
    with run 1(3) show ?thesis by (simp add: dir_filled_refl)
  next
    case lt: False
    with run obtain n dentry where d: "decode_dentry b ofz = Inr (n, dentry)"
      by (auto split: sum.splits)
    show ?thesis
    proof (cases "ino dentry = 0 \<or> namelen dentry = 0")
      case True
      with run lt d 1(3) show ?thesis by (simp add: dir_filled_refl)
    next
      case nz: False
      show ?thesis
      proof (cases "is_dot_entry dentry")
        case True
        with run lt d nz have "dblock_entries env limit b self (ofz + unat n) x = (Inr u, x')" by simp
        with 1(1) [OF lt d refl nz True 1(3,4)] show ?thesis by simp
      next
        case False
        with run lt d nz obtain y where
          y: "add_dentry env self dentry x = (Inr (), y)"
          and r: "dblock_entries env limit b self (ofz + unat n) y = (Inr u, x')"
          by (auto elim!: and_then_InrE)
        show ?thesis
        proof (rule dir_filled_step [OF _ 1(4)])
          show "dir_filled env self x y"
            by (rule add_dentry_filled [OF 1(3,4) decode_dentry_no_content [OF d] y])
          show "dir_filled env self y x'" if "xfs_good env y" "self < itop y"
            using 1(2) [OF lt d refl nz False y that r] .
        qed
      qed
    qed
  qed
qed

lemma dblock_filled:
  assumes g: "xfs_good env x" and self: "self < itop x"
    and run: "process_dinode_dir_extents_dblock env fsbno self x = (Inr u, x')"
  shows "dir_filled env self x x'"
proof -
  from run obtain b y magic where
    r: "read_block env (ucast (dirblocksize (sb x))) (xal_fsbno_offset x fsbno) x = (Inr b, y)"
    and k: "(if magic \<noteq> XAL_ODF_DIR3_DATA_MAGIC \<and> magic \<noteq> XAL_ODF_DIR3_BLOCK_MAGIC then (Inr (), y)
       else dblock_entries env (unat (dirblocksize (sb y))) b self 64 y) = (Inr u, x')"
    by (auto simp: process_dinode_dir_extents_dblock_def elim!: and_then_InrE)
  note y = read_block_filled [OF g r]
  show ?thesis
  proof (rule dir_filled_step [OF conjunct1 [OF y] self])
    show "dir_filled env self y x'" if "xfs_good env y" "self < itop y"
      using k that by (auto split: if_splits intro: dir_filled_refl dblock_entries_filled)
  qed
qed

lemma process_dir_extent_filled:
  assumes "xfs_good env x" and "self < itop x" and "process_dir_extent env self step extent x = (Inr u, x')"
  shows "dir_filled env self x x'"
  using assms by (auto simp: process_dir_extent_def dir_filled_refl split: if_splits
      elim!: and_then_InrE intro: for_each_filled dblock_filled)

lemma dir_extents_loop_filled:
  "xfs_good env x \<Longrightarrow> self < itop x \<Longrightarrow>
   dir_extents_loop env d at self step nextents i nbytes seen x = (Inr r, x') \<Longrightarrow> dir_filled env self x x'"
proof (induction env d at self step nextents i nbytes seen x arbitrary: x' r rule: dir_extents_loop.induct)
  case (1 env d at self step nextents i nbytes seen x)
  note run = 1(4) [unfolded dir_extents_loop.simps [of env d at self step nextents i nbytes seen x]]
  show ?case
  proof (cases "0 < sint nbytes \<and> i < nextents")
    case False
    with run 1(2) show ?thesis by (auto simp: dir_filled_refl)
  next
    case True
    with run obtain e y where e: "lift_s (extent_at d (at + 176 + 16 * i)) x = (Inr e, x)"
      and y: "process_dir_extent env self step e x = (Inr (), y)"
      and r: "dir_extents_loop env d at self step nextents (i + 1)
            (nbytes - nblocks e * ucast (blocksize (sb y))) (seen \<or> nblocks e \<noteq> 0) y = (Inr r, x')"
      by (auto elim!: and_then_InrE)
    show ?thesis
    proof (rule dir_filled_step [OF process_dir_extent_filled [OF 1(2,3) y] 1(3)])
      show "dir_filled env self y x'" if "xfs_good env y" "self < itop y"
        using 1(1) [OF True e y that r] .
    qed
  qed
qed

lemma for_each_while_filled:
  assumes "for_each_while body xs x = (Inr go, x')" and "xfs_good env x" and self: "self < itop x"
    and body: "\<And>k y go y'. xfs_good env y \<Longrightarrow> self < itop y \<Longrightarrow> body k y = (Inr go, y') \<Longrightarrow>
      dir_filled env self y y'"
  shows "dir_filled env self x x'"
proof (rule for_each_while_success_invariant [where P = "dir_filled env self x", OF assms(1)])
  show "dir_filled env self x x" by (rule dir_filled_refl [OF assms(2)])
next
  fix k t go t'
  assume t: "dir_filled env self x t" and run: "body k t = (Inr go, t')"
  show "dir_filled env self x t'"
    by (rule dir_filled_step [OF t self]) (rule body [OF _ _ run])
qed

lemma leaf_dblock_filled:
  assumes g: "xfs_good env x" and self: "self < itop x"
    and run: "leaf_dblock env fsbno self x = (Inr go, x')"
  shows "dir_filled env self x x'"
proof -
  from run obtain b y magic where
    r: "read_block env (ucast (dirblocksize (sb x))) (xal_fsbno_offset x fsbno) x = (Inr b, y)"
    and k: "(if magic \<noteq> XAL_ODF_DIR3_DATA_MAGIC \<and> magic \<noteq> XAL_ODF_DIR3_BLOCK_MAGIC then (Inr False, y)
       else and_then (dblock_entries env (unat (dirblocksize (sb y))) b self 64 y) (\<lambda>_ x. (Inr True, x))) = (Inr go, x')"
    by (auto simp: leaf_dblock_def elim!: and_then_InrE)
  show ?thesis
  proof (rule dir_filled_step [OF conjunct1 [OF read_block_filled [OF g r]] self])
    show "dir_filled env self y x'" if "xfs_good env y" "self < itop y"
      using k that by (auto split: if_splits intro: dir_filled_refl dblock_entries_filled elim!: and_then_InrE)
  qed
qed

lemma leaf_extent_filled:
  assumes "xfs_good env x" and "self < itop x" and "leaf_extent env self step extent x = (Inr go, x')"
  shows "dir_filled env self x x'"
  using assms by (auto simp: leaf_extent_def dir_filled_refl split: if_splits elim!: and_then_InrE
      intro: for_each_while_filled leaf_dblock_filled)

lemma btree_lblock_process_filled:
  assumes g: "xfs_good env x" and self: "self < itop x"
    and run: "btree_lblock_process env fsbno self x = (Inr u, x')"
  shows "dir_filled env self x x'"
proof -
  from run obtain b y level numrecs where
    r: "read_block env (ucast (blocksize (sb x))) (xal_fsbno_offset x fsbno) x = (Inr b, y)"
    and k: "btree_lblock_decode_leaf_records env b level numrecs self y = (Inr u, x')"
    by (auto simp: btree_lblock_process_def elim!: and_then_InrE split: if_splits)
  from k obtain step go where loop: "for_each_while (\<lambda>rec x.
              and_then (lift_s (extent_at b (72 + 16 * rec)) x) (\<lambda>extent x.
                leaf_extent env self step extent x))
              [0..<unat numrecs] y = (Inr go, x')"
    by (auto simp: btree_lblock_decode_leaf_records_def elim!: and_then_InrE split: if_splits)
  show ?thesis
  proof (rule dir_filled_step [OF conjunct1 [OF read_block_filled [OF g r]] self])
    show "dir_filled env self y x'" if "xfs_good env y" "self < itop y"
      by (rule for_each_while_filled [OF loop that])
        (auto elim!: and_then_InrE intro: leaf_extent_filled)
  qed
qed

section \<open>Reading the extents of a file\<close>

lemma with_extents_parts [simp]:
  "fixed_part (with_extents m x) = fixed_part x" "inodes (with_extents m x) = inodes x"
  "free (extents (with_extents m x)) = free (extents x)" "memory (extents (with_extents m x)) = m"
  "io_buf (with_extents m x) = io_buf x" "sb (with_extents m x) = sb x"
  by (simp_all add: with_extents_def fixed_part_def)

lemma with_extents_good:
  assumes "xfs_good env x" and "\<And>j. etop x \<le> j \<Longrightarrow> m j = memory (extents x) j"
  shows "xfs_good env (with_extents m x)"
  using assms by (auto simp: xfs_good_def with_extents_def pool_wf_def mprotect_bounded_def
      pool_room_def pool_bytes_def formats_known_def)

text \<open>From \<open>x\<close> to \<open>x'\<close>, extents were added to the file \<open>self\<close> and nothing else changed.\<close>

definition file_filled :: "xfs_env \<Rightarrow> nat \<Rightarrow> xal \<Rightarrow> xal \<Rightarrow> bool" where
  "file_filled env self x x' \<longleftrightarrow>
     xfs_good env x' \<and> fixed_part x' = fixed_part x \<and> free (inodes x') = free (inodes x) \<and>
     etop x \<le> etop x' \<and>
     (\<forall>j. j \<noteq> self \<longrightarrow> imem x' j = imem x j) \<and>
     (\<forall>e < etop x. memory (extents x') e = memory (extents x) e) \<and>
     imem x' self = (imem x self)\<lparr>content :=
       \<lparr>c_idx = c_idx (content (imem x self)),
        c_count = c_count (content (imem x self)) + of_nat (etop x' - etop x)\<rparr>\<rparr>"

lemma file_filled_refl: "xfs_good env x \<Longrightarrow> file_filled env self x x"
  by (simp add: file_filled_def)

lemma file_filled_trans:
  assumes "file_filled env self x y" and "file_filled env self y z"
  shows "file_filled env self x z"
proof -
  have le: "etop x \<le> etop y" "etop y \<le> etop z" using assms by (auto simp: file_filled_def)
  have "c + of_nat (etop y - etop x) + of_nat (etop z - etop y) = c + (of_nat (etop z - etop x) :: u32)" for c
    using le by (simp add: of_nat_diff)
  with assms le show ?thesis by (auto simp: file_filled_def)
qed

lemma for_each_file_filled:
  assumes "for_each body xs x = (Inr u, x')" and "xfs_good env x" and self: "self < itop x"
    and body: "\<And>k y y'. xfs_good env y \<Longrightarrow> self < itop y \<Longrightarrow> body k y = (Inr (), y') \<Longrightarrow>
      file_filled env self y y'"
  shows "file_filled env self x x'"
proof (rule for_each_success_invariant [where P = "file_filled env self x", OF assms(1)])
  show "file_filled env self x x" by (rule file_filled_refl [OF assms(2)])
next
  fix k t t'
  assume t: "file_filled env self x t" and run: "body k t = (Inr (), t')"
  show "file_filled env self x t'"
    by (rule file_filled_trans [OF t body [OF _ _ run]]) (use t self in \<open>auto simp: file_filled_def\<close>)
qed

lemma add_content_count_filled:
  assumes "xfs_good env x" and "self < itop x"
  shows "xfs_good env (add_content_count self n x)"
  unfolding add_content_count_def set_content_def mod_inode_def by (rule put_inode_good [OF assms])

lemma process_file_btree_leaf_filled:
  assumes g: "xfs_good env x" and self: "self < itop x"
    and run: "process_file_btree_leaf env fsbno self x = (Inr u, x')"
  shows "file_filled env self x x'"
proof -
  from run obtain b n start y where
    cl: "claim_extents env (ucast (n :: u16)) (x\<lparr>io_buf := b\<rparr>) = (Inr start, y)"
    and loop: "for_each (\<lambda>rec x. and_then (lift_s (extent_at (io_buf x) (72 + 16 * rec)) x) (\<lambda>e x.
                     (Inr (), put_extent (unat start + rec) e x)))
                 [0..<unat n] (add_content_count self (ucast n) y) = (Inr u, x')"
    unfolding process_file_btree_leaf_def read_io_def
    by (auto elim!: and_then_InrE split: prod.splits if_splits)
  have "xfs_good env (x\<lparr>io_buf := b\<rparr>)" using g by simp
  note c = claim_extents_good [OF this cl]
  let ?y = "add_content_count self (ucast n) y"
  have gy: "xfs_good env ?y"
    by (rule add_content_count_filled) (use c self in auto)
  obtain m where x': "x' = with_extents m ?y"
    and m: "\<And>j. j < unat start \<or> unat start + unat n \<le> j \<Longrightarrow> m j = memory (extents ?y) j"
    using put_extents_loop [OF loop] by (auto simp: with_extents_parts)
  have ey: "extents ?y = extents y"
    by (simp add: add_content_count_def set_content_def mod_inode_def)
  have n: "unat (ucast n :: u64) = unat n"
    by (rule unat_ucast_up_eq) simp
  have "xfs_good env x'"
    unfolding x'
  proof (rule with_extents_good [OF gy], rule m)
    show "j < unat start \<or> unat start + unat n \<le> j" if "etop ?y \<le> j" for j
      using that c n ey by simp
  qed
  moreover have "\<forall>e < etop x. m e = memory (extents x) e"
    using m c ey by simp
  ultimately show ?thesis
    using c n ey
    by (simp add: file_filled_def x' add_content_count_def set_content_def mod_inode_def xal_inode_at_def)
qed

lemma process_file_btree_node_filled:
  "xfs_good env x \<Longrightarrow> self < itop x \<Longrightarrow> process_file_btree_node fuel env fsbno self x = (Inr u, x') \<Longrightarrow>
   file_filled env self x x'"
proof (induction fuel arbitrary: fsbno x x' u)
  case 0
  then show ?case by simp
next
  case (Suc fuel)
  from Suc.prems(3) obtain b ptrs level n where
    loop: "for_each (\<lambda>rec x. and_then (lift_s (be64 ptrs (8 * rec)) x) (\<lambda>pointer x.
             if level = (1 :: u16) then process_file_btree_leaf env pointer self x
             else process_file_btree_node fuel env pointer self x))
           [0..<n] (x\<lparr>io_buf := b\<rparr>) = (Inr u, x')"
    by (auto simp: Let_def read_io_def elim!: and_then_InrE split: prod.splits if_splits)
  have "file_filled env self (x\<lparr>io_buf := b\<rparr>) x'"
  proof (rule for_each_file_filled [OF loop])
    fix k y y'
    assume y: "xfs_good env y" "self < itop y" and "and_then (lift_s (be64 ptrs (8 * k)) y) (\<lambda>pointer x.
             if level = 1 then process_file_btree_leaf env pointer self x
             else process_file_btree_node fuel env pointer self x) = (Inr (), y')"
    then show "file_filled env self y y'"
      by (auto elim!: and_then_InrE split: if_splits intro: process_file_btree_leaf_filled Suc.IH)
  qed (use Suc.prems in simp_all)
  then show ?case by (simp add: file_filled_def)
qed

section \<open>Files stay inside the extent pool\<close>

definition extents_inside :: "xal \<Rightarrow> bool" where
  "extents_inside x \<longleftrightarrow>
     (\<forall>j < itop x. xal_inode_is_file (imem x j) \<longrightarrow>
        extents_count (imem x j) = 0 \<or> extents_idx (imem x j) + extents_count (imem x j) \<le> etop x)"

lemma extents_inside_same:
  assumes "extents_inside x" and "etop x \<le> etop y"
    and "\<And>j. j < itop y \<Longrightarrow> xal_inode_is_file (imem y j) \<Longrightarrow> extents_count (imem y j) \<noteq> 0 \<Longrightarrow>
      j < itop x \<and> content (imem y j) = content (imem x j) \<and> xal_inode_is_file (imem x j) \<or>
      extents_idx (imem y j) + extents_count (imem y j) \<le> etop y"
  shows "extents_inside y"
  unfolding extents_inside_def
proof (intro allI impI)
  fix j
  assume j: "j < itop y" "xal_inode_is_file (imem y j)"
  show "extents_count (imem y j) = 0 \<or> extents_idx (imem y j) + extents_count (imem y j) \<le> etop y"
    using assms(1,2) assms(3) [OF j] by (fastforce simp: extents_inside_def content_defs)
qed

lemma dir_filled_inside:
  assumes f: "dir_filled env self x y" and x: "extents_inside x" "xal_inode_is_dir (imem x self)"
  shows "extents_inside y"
proof (rule extents_inside_same [OF x(1)])
  show "etop x \<le> etop y" using f by (simp add: dir_filled_def)
  fix j
  assume j: "j < itop y" "xal_inode_is_file (imem y j)" "extents_count (imem y j) \<noteq> 0"
  have "xal_inode_is_dir (imem y self)" using f x(2) by (simp add: dir_filled_def xal_inode_is_dir_def)
  with j(2) have "j \<noteq> self" using not_dir_and_file by blast
  moreover have "j < itop x" using f j by (auto simp: dir_filled_def content_defs not_less [symmetric])
  ultimately show "j < itop x \<and> content (imem y j) = content (imem x j) \<and> xal_inode_is_file (imem x j) \<or>
      extents_idx (imem y j) + extents_count (imem y j) \<le> etop y"
    using f j(2) by (simp add: dir_filled_def)
qed

section \<open>Processing an inode\<close>

text \<open>The recursive call meets the contract of a tree builder, \<open>F\<close> being the fixed part.\<close>

abbreviation xfs_builder ::
  "xfs_env \<Rightarrow> xal_sb \<times> xal_backend \<times> cbuf option \<times> (u64 \<Rightarrow> nat option) \<times> u32 \<Rightarrow>
   (u64 \<Rightarrow> nat \<Rightarrow> xal \<Rightarrow> (unit, xal) outcome) \<Rightarrow> bool" where
  "xfs_builder env F pi \<equiv>
     tree_builder pi imem itop (\<lambda>_ i y. no_content (imem y i)) (\<lambda>y. xfs_good env y \<and> fixed_part y = F \<and> extents_inside y)"

lemma process_children_builds:
  assumes tb: "xfs_builder env F pi"
    and f: "dir_filled env self x0 x" and F: "fixed_part x0 = F" "extents_inside x0"
    and self: "self < itop x0" "xal_inode_is_dir (imem x0 self)" "no_content (imem x0 self)"
      "dentries_idx (imem x0 self) = itop x0"
    and m: "\<And>j. j < itop x0 \<Longrightarrow> j \<noteq> self \<Longrightarrow> imem x0 j = m j" "same_name (imem x0 self) (m self)"
    and run: "process_children pi self x = (Inr u, x')"
  shows "xfs_good env x' \<and> fixed_part x' = F \<and> extents_inside x' \<and> builds m (itop x0) (imem x') (itop x') self"
proof -
  let ?c = "itop x - itop x0"
  have g: "xfs_good env x" and le: "itop x0 \<le> itop x" using f by (auto simp: dir_filled_def)
  have me: "imem x self = (imem x0 self)\<lparr>content := \<lparr>c_idx = c_idx (content (imem x0 self)), c_count = of_nat ?c\<rparr>\<rparr>"
    using f self(3) by (simp add: dir_filled_def no_content_def)
  have cnt: "dentries_count (imem x self) = ?c"
    using me itop_32 [OF g] by (simp add: content_defs unat_of_nat_small del: of_nat_diff)
  have idx: "dentries_idx (imem x self) = itop x0" using me self(4) by (simp add: content_defs)
  have loop: "for_each (\<lambda>i y. pi (ino (imem y (itop x0 + i))) (itop x0 + i) y) [0..<?c] x = (Inr u, x')"
    using run by (simp add: process_children_def xal_inode_at_def cnt idx Let_def)
  let ?inv = "\<lambda>y. xfs_good env y \<and> fixed_part y = F \<and> extents_inside y"
  have inv: "?inv x" using f F dir_filled_inside [OF f F(2) self(2)] by (simp add: dir_filled_def)
  have d: "tree_builder.children_done imem itop ?inv self (itop x0) ?c (\<lambda>_. imem x self) x ?c x'"
  proof (rule tree_builder.children_loop [OF tb, where pre = "\<lambda>i s. s"
        and arg = "\<lambda>i y. ino (imem y (itop x0 + i))", OF loop inv])
    show "itop x0 + ?c = itop x" using le by simp
    show "self < itop x0" by (rule self(1))
  next
    fix i y
    assume y: "i < ?c" "?inv y" "imem y (itop x0 + i) = imem x (itop x0 + i)"
    have "parent_of (imem x) (itop x0 + i) = self \<and> c_count (content (imem x (itop x0 + i))) = 0"
      using f y(1) by (auto simp: dir_filled_def)
    with y show "?inv y \<and> itop y = itop y \<and> (\<forall>j. j \<noteq> itop x0 + i \<longrightarrow> imem y j = imem y j) \<and>
        parent_of (imem y) (itop x0 + i) = self \<and> no_content (imem y (itop x0 + i))"
      by (simp add: parent_of_def no_content_def)
  qed
  have "?inv x'" using d by (simp add: tree_builder.children_done_def [OF tb])
  moreover have "builds m (itop x0) (imem x') (itop x') self"
  proof (rule tree_builder.directory_builds [OF tb d self(1)])
    show "imem x j = m j" if "j < itop x0" "j \<noteq> self" for j
      using f m(1) that by (simp add: dir_filled_def)
    show "same_name (imem x self) (m self)" using m(2) me by simp
    show "xal_inode_is_dir (imem x self)" using self(2) me by (simp add: xal_inode_is_dir_def)
  qed (use cnt idx in simp_all)
  ultimately show ?thesis by simp
qed

lemma imem_set_content [simp]:
  "imem (set_content i idx n x) = (imem x)(i := (imem x i)\<lparr>content := \<lparr>c_idx = idx, c_count = n\<rparr>\<rparr>)"
  "imem (set_content_idx i idx x) =
     (imem x)(i := (imem x i)\<lparr>content := \<lparr>c_idx = idx, c_count = c_count (content (imem x i))\<rparr>\<rparr>)"
  by (simp_all add: set_content_idx_def set_content_def xal_inode_at_def)

lemma mod_inode_parts [simp]:
  "fixed_part (mod_inode i f x) = fixed_part x" "extents (mod_inode i f x) = extents x"
  "free (inodes (mod_inode i f x)) = free (inodes x)" "sb (mod_inode i f x) = sb x"
  "fixed_part (set_content i idx n x) = fixed_part x" "extents (set_content i idx n x) = extents x"
  "free (inodes (set_content i idx n x)) = free (inodes x)" "sb (set_content i idx n x) = sb x"
  "fixed_part (set_content_idx i idx x) = fixed_part x" "extents (set_content_idx i idx x) = extents x"
  "free (inodes (set_content_idx i idx x)) = free (inodes x)" "sb (set_content_idx i idx x) = sb x"
  by (simp_all add: mod_inode_def set_content_def set_content_idx_def)

lemma mod_inode_good [intro]:
  assumes "xfs_good env x" and "i < itop x"
  shows "xfs_good env (mod_inode i f x)" and "xfs_good env (set_content i idx n x)"
    and "xfs_good env (set_content_idx i idx x)"
  using assms by (simp_all add: mod_inode_def set_content_def set_content_idx_def put_inode_good)

lemma ucast_free: "xfs_good env x \<Longrightarrow> unat (ucast (free (inodes x)) :: u32) = itop x"
  using itop_32 [of env x] by (simp add: unat_ucast_mod)

text \<open>Entry points: a directory whose content is reset to start at the top of the pool.\<close>

lemma dir_start:
  assumes g: "xfs_good env x" and self: "self < itop x" "xal_inode_is_dir (imem x self)" "no_content (imem x self)"
  shows "let y = set_content_idx self (ucast (free (inodes x))) x
    in xfs_good env y \<and> fixed_part y = fixed_part x \<and> itop y = itop x \<and>
       xal_inode_is_dir (imem y self) \<and> no_content (imem y self) \<and> dentries_idx (imem y self) = itop x \<and>
       (\<forall>j. j \<noteq> self \<longrightarrow> imem y j = imem x j) \<and> same_name (imem y self) (imem x self) \<and>
       (extents_inside x \<longrightarrow> extents_inside y)"
  using g self ucast_free [OF g]
  by (auto simp: Let_def xal_inode_is_dir_def xal_inode_is_file_def no_content_def content_defs
      extents_inside_def)

lemma dir_extents_builds:
  assumes tb: "xfs_builder env F pi" and g: "xfs_good env x" and F: "fixed_part x = F" "extents_inside x"
    and self: "self < itop x" "xal_inode_is_dir (imem x self)" "no_content (imem x self)"
    and run: "process_dinode_dir_extents env pi d at self x = (Inr u, x')"
  shows "xfs_good env x' \<and> fixed_part x' = F \<and> extents_inside x' \<and> builds (imem x) (itop x) (imem x') (itop x') self"
proof -
  let ?y = "set_content_idx self (ucast (free (inodes x))) x"
  note st = dir_start [OF g self, unfolded Let_def]
  from run obtain step nextents nbytes seen z v where
    l: "dir_extents_loop env d at self step nextents 0 nbytes False ?y = (Inr seen, z)"
    and c: "process_children pi self z = (Inr v, x')"
    unfolding process_dinode_dir_extents_def by (auto elim!: and_then_InrE split: if_splits)
  have f: "dir_filled env self ?y z"
    by (rule dir_extents_loop_filled [OF _ _ l]) (use st self in auto)
  have "xfs_good env x' \<and> fixed_part x' = F \<and> extents_inside x' \<and> builds (imem x) (itop ?y) (imem x') (itop x') self"
    by (rule process_children_builds [OF tb f _ _ _ _ _ _ _ _ c]) (use st self F in auto)
  then show ?thesis using st by simp
qed

lemma dir_btree_builds:
  assumes tb: "xfs_builder env F pi" and g: "xfs_good env x" and F: "fixed_part x = F" "extents_inside x"
    and self: "self < itop x" "xal_inode_is_dir (imem x self)" "no_content (imem x self)"
    and run: "process_dinode_dir_btree_root env pi d at self x = (Inr u, x')"
  shows "xfs_good env x' \<and> fixed_part x' = F \<and> extents_inside x' \<and> builds (imem x) (itop x) (imem x') (itop x') self"
proof -
  let ?y = "set_content_idx self (ucast (free (inodes x))) x"
  note st = dir_start [OF g self, unfolded Let_def]
  from run obtain g1 n z v where
    l: "for_each (\<lambda>rec x. and_then (lift_s (be64 d (g1 rec)) x) (\<lambda>fsbno x.
          btree_lblock_process env fsbno self x)) [0..<n] ?y = (Inr (), z)"
    and c: "process_children pi self z = (Inr v, x')"
    unfolding process_dinode_dir_btree_root_def Let_def
    by (auto elim!: and_then_InrE split: if_splits)
  have f: "dir_filled env self ?y z"
    by (rule for_each_filled [OF l])
      (use st self in \<open>auto elim!: and_then_InrE intro: btree_lblock_process_filled\<close>)
  have "xfs_good env x' \<and> fixed_part x' = F \<and> extents_inside x' \<and> builds (imem x) (itop ?y) (imem x') (itop x') self"
    by (rule process_children_builds [OF tb f _ _ _ _ _ _ _ _ c]) (use st self F in auto)
  then show ?thesis using st by simp
qed

lemma sf_entries_ok:
  "xfs_good env x \<Longrightarrow> slot + n \<le> itop x \<Longrightarrow> sf_entries d n slot cursor i8 x = (Inr u, x') \<Longrightarrow>
   xfs_good env x' \<and> fixed_part x' = fixed_part x \<and> extents x' = extents x \<and> itop x' = itop x \<and>
   (\<forall>j. j < slot \<or> slot + n \<le> j \<longrightarrow> imem x' j = imem x j) \<and>
   (\<forall>j. content (imem x' j) = content (imem x j))"
proof (induction n arbitrary: slot cursor i8 x)
  case 0
  then show ?case by simp
next
  case (Suc n)
  from Suc.prems(3) obtain v_namelen v_name v_ftype v_ino cursor' i8' where
    r0: "sf_entries d n (slot + 1) cursor' i8' (mod_inode slot (\<lambda>dentry. dentry\<lparr>namelen := v_namelen,
       name := v_name @ drop (unat v_namelen) (name dentry), ftype := v_ftype, ino := v_ino\<rparr>) x) = (Inr u, x')"
    by (auto simp: Let_def elim!: and_then_InrE)
  then obtain f where f: "\<And>e. content (f e) = content e"
    and r: "sf_entries d n (slot + 1) cursor' i8' (mod_inode slot f x) = (Inr u, x')"
    using that [of "\<lambda>dentry. dentry\<lparr>namelen := v_namelen,
       name := v_name @ drop (unat v_namelen) (name dentry), ftype := v_ftype, ino := v_ino\<rparr>"] by simp
  have g: "xfs_good env (mod_inode slot f x)" using Suc.prems by (intro mod_inode_good) auto
  have "slot + 1 + n \<le> itop (mod_inode slot f x)" using Suc.prems(2) by simp
  from Suc.IH [OF g this r] f show ?case by auto
qed

lemma dir_local_builds:
  assumes tb: "xfs_builder env F pi" and g: "xfs_good env x" and F: "fixed_part x = F" "extents_inside x"
    and self: "self < itop x" "xal_inode_is_dir (imem x self)"
    and run: "process_dinode_dir_local env pi d at self x = (Inr u, x')"
  shows "xfs_good env x' \<and> fixed_part x' = F \<and> extents_inside x' \<and> builds (imem x) (itop x) (imem x') (itop x') self"
proof -
  let ?inv = "\<lambda>y. xfs_good env y \<and> fixed_part y = F \<and> extents_inside y"
  let ?par = "\<lambda>i k x. mod_inode (i + k) (\<lambda>n. n\<lparr>parent_idx := xal_inode_idx x self\<rparr>) x"
  from run obtain count :: u8 and i8 idx y cursor z where
    cl: "claim_inodes env (ucast count)
           (set_content self (c_idx (content (imem x self))) (ucast count) x) = (Inr idx, y)"
    and sf: "sf_entries d (unat count) (unat idx) cursor i8 (set_content_idx self idx y) = (Inr (), z)"
    and loop: "for_each (\<lambda>k y. pi (ino (imem (?par (unat idx) k y) (unat idx + k))) (unat idx + k) (?par (unat idx) k y))
              [0..<unat count] z = (Inr u, x')"
    unfolding process_dinode_dir_local_def Let_def xal_inode_at_def by (auto elim!: and_then_InrE)
  let ?c = "unat count"
  have g0: "xfs_good env (set_content self (c_idx (content (imem x self))) (ucast count) x)"
    using g self by (intro mod_inode_good)
  note c = claim_inodes_good [OF g0 cl]
  have n: "unat (ucast count :: u64) = ?c" "unat (ucast count :: u32) = ?c"
    by (rule unat_ucast_up_eq, simp)+
  have top: "itop y = itop x + ?c" "unat idx = itop x" using c n by simp_all
  have g1: "xfs_good env (set_content_idx self idx y)"
    using c self by (intro mod_inode_good) auto
  have "unat idx + ?c \<le> itop (set_content_idx self idx y)" using top by simp
  note s = sf_entries_ok [OF g1 this sf]
  have mz: "imem z self = (imem x self)\<lparr>content := \<lparr>c_idx = idx, c_count = ucast count\<rparr>\<rparr>"
    using s c top self by auto
  have other: "imem z j = imem x j" if "j < itop x" "j \<noteq> self" for j
    using s c top that by auto
  have raw: "no_content (imem z (itop x + k))" if "k < ?c" for k
    using s c top that self by (auto simp: no_content_def)
  have "extents_inside z"
  proof (rule extents_inside_same [OF F(2)])
    show "etop x \<le> etop z" using s c by simp
    fix j
    assume j: "j < itop z" "xal_inode_is_file (imem z j)" "extents_count (imem z j) \<noteq> 0"
    have "j \<noteq> self" using j(2) self(2) by (auto simp: mz xal_inode_is_dir_def xal_inode_is_file_def)
    moreover have "j < itop x"
      using raw [of "j - itop x"] j s top by (cases "j < itop x") (auto simp: no_content_def content_defs)
    ultimately show "j < itop x \<and> content (imem z j) = content (imem x j) \<and> xal_inode_is_file (imem x j) \<or>
      extents_idx (imem z j) + extents_count (imem z j) \<le> etop z"
      using other j(2) by auto
  qed
  then have invz: "?inv z" using s c F by simp
  have self32: "unat (of_nat self :: u32) = self"
    using self itop_32 [OF g] by (simp add: unat_of_nat_small)
  have d: "tree_builder.children_done imem itop ?inv self (itop x) ?c (\<lambda>_. imem z self) z ?c x'"
  proof (rule tree_builder.children_loop [OF tb, where pre = "?par (itop x)"
        and arg = "\<lambda>k y. ino (imem (?par (itop x) k y) (itop x + k))"])
    show "for_each (\<lambda>i s. pi (ino (imem (?par (itop x) i s) (itop x + i))) (itop x + i) (?par (itop x) i s))
        [0..<?c] z = (Inr u, x')"
      using loop by (simp only: top(2))
    show "itop x + ?c = itop z" using s top by simp
    show "?inv z" by (rule invz)
    show "self < itop x" by (rule self(1))
  next
    fix i y'
    assume y': "i < ?c" "?inv y'" "itop x + ?c \<le> itop y'" "imem y' (itop x + i) = imem z (itop x + i)"
    have "xfs_good env (?par (itop x) i y')" using y' by (intro mod_inode_good) auto
    moreover have "extents_inside (?par (itop x) i y')"
      using y'(2) by (auto simp: extents_inside_def content_defs xal_inode_is_file_def)
    ultimately show "?inv (?par (itop x) i y') \<and> itop (?par (itop x) i y') = itop y' \<and>
        (\<forall>j. j \<noteq> itop x + i \<longrightarrow> imem (?par (itop x) i y') j = imem y' j) \<and>
        parent_of (imem (?par (itop x) i y')) (itop x + i) = self \<and>
        no_content (imem (?par (itop x) i y') (itop x + i))"
      using y' raw [of i] self32 by (simp add: parent_of_def xal_inode_idx_def no_content_def)
  qed
  have "builds (imem x) (itop x) (imem x') (itop x') self"
  proof (rule tree_builder.directory_builds [OF tb d self(1)])
    show "xal_inode_is_dir (imem z self)" using self(2) mz by (simp add: xal_inode_is_dir_def)
    show "dentries_count (imem z self) = ?c" "dentries_idx (imem z self) \<le> itop x"
      "dentries_idx (imem z self) = itop x"
      using mz n top by (simp_all add: content_defs)
  qed (use mz other in auto)
  moreover have "?inv x'" using d by (simp add: tree_builder.children_done_def [OF tb])
  ultimately show ?thesis by simp
qed

lemma file_extents_ok:
  assumes g: "xfs_good env x" and self: "self < itop x"
    and run: "process_dinode_file_extents env d at self x = (Inr u, x')"
  shows "\<exists>nextents :: u64. \<exists>idx. xfs_good env x' \<and> fixed_part x' = fixed_part x \<and> itop x' = itop x \<and>
    (\<forall>j. j \<noteq> self \<longrightarrow> imem x' j = imem x j) \<and>
    imem x' self = (imem x self)\<lparr>content := \<lparr>c_idx = idx, c_count = ucast nextents\<rparr>\<rparr> \<and>
    unat idx = etop x \<and> etop x' = etop x + unat nextents \<and>
    (\<forall>e < etop x. memory (extents x') e = memory (extents x) e) \<and>
    (\<forall>rec < unat nextents. extent_at d (at + 176 + 16 * rec) = Inr (memory (extents x') (etop x + rec)))"
proof -
  from run obtain nextents :: u64 and idx y where
    cl: "claim_extents env nextents x = (Inr idx, y)"
    and loop: "for_each (\<lambda>rec x. and_then (lift_s (extent_at d (at + 176 + 16 * rec)) x) (\<lambda>e x.
             (Inr (), put_extent (unat idx + rec) e x)))
         [0..<unat nextents] (set_content self idx (ucast nextents) y) = (Inr u, x')"
    unfolding process_dinode_file_extents_def by (auto elim!: and_then_InrE)
  note c = claim_extents_good [OF g cl]
  let ?y = "set_content self idx (ucast nextents) y"
  have gy: "xfs_good env ?y" using c self by (intro mod_inode_good) auto
  obtain m where x': "x' = with_extents m ?y"
    and m: "\<And>j. j < unat idx \<or> unat idx + unat nextents \<le> j \<Longrightarrow> m j = memory (extents ?y) j"
    and v: "\<And>rec. rec < unat nextents \<Longrightarrow> extent_at d (at + 176 + 16 * rec) = Inr (m (unat idx + rec))"
    using put_extents_loop [OF loop] by auto
  have "xfs_good env x'"
    unfolding x'
  proof (rule with_extents_good [OF gy], rule m)
    show "j < unat idx \<or> unat idx + unat nextents \<le> j" if "etop ?y \<le> j" for j
      using that c by simp
  qed
  moreover have "\<forall>e < etop x. m e = memory (extents x) e" using m c by simp
  ultimately show ?thesis
    using c v by (intro exI [of _ nextents] exI [of _ idx]) (simp add: x')
qed

lemma file_btree_filled:
  assumes g: "xfs_good env x" and self: "self < itop x"
    and run: "process_dinode_file_btree_root fuel env d at self x = (Inr u, x')"
  shows "extents_count (imem x self) = 0 \<and> file_filled env self (set_content_idx self (ucast (free (extents x))) x) x'"
proof -
  let ?y = "set_content_idx self (ucast (free (extents x))) x"
  from run obtain ptr level n where
    z: "extents_count (imem x self) = 0" and
    l: "for_each (\<lambda>rec x. and_then (lift_s (be64 d (ptr rec)) x) (\<lambda>pointer x.
            if level = (1 :: u16) then process_file_btree_leaf env pointer self x
            else process_file_btree_node fuel env pointer self x)) [0..<n] ?y = (Inr u, x')"
    unfolding process_dinode_file_btree_root_def Let_def xal_inode_at_def
    by (auto elim!: and_then_InrE split: if_splits)
  have "file_filled env self ?y x'"
    by (rule for_each_file_filled [OF l])
      (use g self in \<open>auto elim!: and_then_InrE split: if_splits
        intro: process_file_btree_leaf_filled process_file_btree_node_filled\<close>)
  with z show ?thesis by simp
qed

lemma inside_after_file:
  assumes x: "extents_inside x" and "etop x \<le> etop x'" and "itop x' = itop x"
    and "\<And>j. j \<noteq> self \<Longrightarrow> imem x' j = imem x j"
    and "extents_idx (imem x' self) + extents_count (imem x' self) \<le> etop x'"
  shows "extents_inside x'"
  by (rule extents_inside_same [OF x assms(2)]) (use assms(3-) in metis)

lemma file_inline_builds:
  assumes g: "xfs_good env x" and F: "fixed_part x = F" "extents_inside x"
    and self: "self < itop x" "xal_inode_is_file (imem x self)"
    and run: "process_dinode_file_extents env d at self x = (Inr u, x')"
  shows "xfs_good env x' \<and> fixed_part x' = F \<and> extents_inside x' \<and> builds (imem x) (itop x) (imem x') (itop x') self"
proof -
  from file_extents_ok [OF g self(1) run] obtain nextents :: u64 and idx where
    ok: "xfs_good env x'" "fixed_part x' = fixed_part x" "itop x' = itop x"
      "\<And>j. j \<noteq> self \<Longrightarrow> imem x' j = imem x j"
    and me: "imem x' self = (imem x self)\<lparr>content := \<lparr>c_idx = idx, c_count = ucast nextents\<rparr>\<rparr>"
    and idx: "unat idx = etop x" "etop x' = etop x + unat nextents" by blast
  have "unat (ucast nextents :: u32) \<le> unat nextents" by (simp add: unat_ucast_mod)
  then have "extents_idx (imem x' self) + extents_count (imem x' self) \<le> etop x'"
    using idx me by (simp add: content_defs)
  then have "extents_inside x'"
    using idx ok by (intro inside_after_file [OF F(2)]) auto
  moreover have "builds (imem x) (itop x) (imem x') (itop x') self"
    by (rule file_builds) (use ok me self in \<open>auto simp: xal_inode_is_file_def\<close>)
  ultimately show ?thesis using ok F by simp
qed

lemma file_btree_builds:
  assumes g: "xfs_good env x" and F: "fixed_part x = F" "extents_inside x"
    and self: "self < itop x" "xal_inode_is_file (imem x self)"
    and run: "process_dinode_file_btree_root fuel env d at self x = (Inr u, x')"
  shows "xfs_good env x' \<and> fixed_part x' = F \<and> extents_inside x' \<and>
    builds (imem x) (itop x) (imem x') (itop x') self \<and>
    extents_idx (imem x' self) = etop x \<and> extents_count (imem x' self) = etop x' - etop x"
proof -
  let ?y = "set_content_idx self (ucast (free (extents x))) x"
  note ok = file_btree_filled [OF g self(1) run]
  have i: "unat (ucast (free (extents x)) :: u32) = etop x"
    using etop_32 [OF g] by (simp add: unat_ucast_mod)
  have f: "file_filled env self ?y x'" using ok by simp
  have e32: "etop x' - etop x < 2 ^ 32" using f etop_32 [of env x'] by (auto simp: file_filled_def)
  have le: "etop x \<le> etop x'" using f by (simp add: file_filled_def)
  have "c_count (content (imem x self)) = 0" using ok by (simp add: content_defs unat_eq_zero)
  then have me: "imem x' self = (imem x self)\<lparr>content :=
      \<lparr>c_idx = ucast (free (extents x)), c_count = of_nat (etop x' - etop x)\<rparr>\<rparr>"
    using f by (simp add: file_filled_def)
  then have range: "extents_idx (imem x' self) = etop x" "extents_count (imem x' self) = etop x' - etop x"
    using i e32 by (simp_all add: content_defs unat_of_nat_small del: of_nat_diff)
  have other: "imem x' j = imem x j" if "j \<noteq> self" for j using f that by (simp add: file_filled_def)
  have "extents_inside x'"
    by (rule inside_after_file [OF F(2) le _ other]) (use f range le in \<open>auto simp: file_filled_def\<close>)
  moreover have "builds (imem x) (itop x) (imem x') (itop x') self"
    by (rule file_builds) (use f other me self in \<open>auto simp: file_filled_def xal_inode_is_file_def\<close>)
  ultimately show ?thesis using f F range by (simp add: file_filled_def)
qed

lemma fill_inode_ok:
  assumes "fill_inode d at self x = (Inr fmt, y)"
  shows "\<exists>t v_size v_ino. y = mod_inode self (\<lambda>n. n\<lparr>ftype := t, isize := v_size, ino := v_ino\<rparr>) x \<and>
    rd8 d (at + 5) = Inr fmt \<and> be64 d (at + 152) = Inr v_ino \<and> be64 d (at + 56) = Inr v_size \<and>
    (ftype (imem x self) \<noteq> 0 \<longrightarrow> t = ftype (imem x self))"
  using assms by (auto simp: fill_inode_def xal_inode_at_def elim!: and_then_InrE split: if_splits)

lemma process_format_builds:
  assumes tb: "xfs_builder env F pi" and g: "xfs_good env x" and F: "fixed_part x = F" "extents_inside x"
    and self: "self < itop x" "no_content (imem x self)" and fmt: "fmt \<le> 4"
    and run: "process_format fuel env pi d at self fmt x = (Inr u, x')"
  shows "xfs_good env x' \<and> fixed_part x' = F \<and> extents_inside x' \<and> builds (imem x) (itop x) (imem x') (itop x') self"
proof -
  have "fmt = 0 \<or> fmt = 1 \<or> fmt = 2 \<or> fmt = 3 \<or> fmt = 4"
  proof -
    have "unat fmt \<le> 4" using fmt by (simp add: word_le_nat_alt)
    then have "unat fmt = 0 \<or> unat fmt = 1 \<or> unat fmt = 2 \<or> unat fmt = 3 \<or> unat fmt = 4" by linarith
    moreover have "fmt = word_of_nat k" if "unat fmt = k" for k using that by auto
    from this [of 0] this [of 1] this [of 2] this [of 3] this [of 4]
    have "unat fmt = 0 \<Longrightarrow> fmt = 0" "unat fmt = 1 \<Longrightarrow> fmt = 1" "unat fmt = 2 \<Longrightarrow> fmt = 2"
      "unat fmt = 3 \<Longrightarrow> fmt = 3" "unat fmt = 4 \<Longrightarrow> fmt = 4" by simp_all
    ultimately show ?thesis by blast
  qed
  with run consider
      (bt_dir) "xal_inode_is_dir (imem x self)"
        "process_dinode_dir_btree_root env pi d at self (set_content_idx self (ucast (free (inodes x))) x) = (Inr u, x')"
    | (bt_file) "xal_inode_is_file (imem x self)" "process_dinode_file_btree_root fuel env d at self x = (Inr u, x')"
    | (ex_dir) "xal_inode_is_dir (imem x self)" "process_dinode_dir_extents env pi d at self x = (Inr u, x')"
    | (ex_file) "xal_inode_is_file (imem x self)" "process_dinode_file_extents env d at self x = (Inr u, x')"
    | (loc) "xal_inode_is_dir (imem x self)" "process_dinode_dir_local env pi d at self x = (Inr u, x')"
    by (auto simp: process_format_def Let_def xal_inode_at_def xal_inode_is_dir_def xal_inode_is_file_def
        split: if_splits)
  then show ?thesis
  proof cases
    case bt_dir
    let ?y = "set_content_idx self (ucast (free (inodes x))) x"
    note st = dir_start [OF g self(1) bt_dir(1) self(2), unfolded Let_def]
    have "xfs_good env x' \<and> fixed_part x' = F \<and> extents_inside x' \<and> builds (imem ?y) (itop ?y) (imem x') (itop x') self"
      by (rule dir_btree_builds [OF tb _ _ _ _ _ _ bt_dir(2)]) (use st F self in auto)
    then show ?thesis using st by (auto intro: builds_from)
  next
    case bt_file
    from file_btree_builds [OF g F self(1) bt_file] show ?thesis by simp
  next
    case ex_dir
    from dir_extents_builds [OF tb g F self(1) ex_dir(1) self(2) ex_dir(2)] show ?thesis .
  next
    case ex_file
    from file_inline_builds [OF g F self(1) ex_file] show ?thesis .
  next
    case loc
    from dir_local_builds [OF tb g F self(1) loc] show ?thesis .
  qed
qed

lemma process_ino_builder: "xfs_builder env F (process_ino fuel env)"
proof (induction fuel)
  case 0
  show ?case by unfold_locales simp_all
next
  case (Suc fuel)
  have step: "(xfs_good env x' \<and> fixed_part x' = F \<and> extents_inside x') \<and>
      builds (imem x) (itop x) (imem x') (itop x') self"
    if inv: "xfs_good env x \<and> fixed_part x = F \<and> extents_inside x" and self: "self < itop x" "no_content (imem x self)"
      and run: "process_ino (Suc fuel) env inum self x = (Inr (), x')" for x inum self x'
  proof -
    from run obtain at d fmt y where at: "dinodes_get x inum = Inr at" and d: "dinodes x = Some d"
      and f: "fill_inode d at self x = (Inr fmt, y)"
      and k: "process_format fuel env (\<lambda>i s y. process_ino fuel env i s y) d at self fmt y = (Inr (), x')"
      by (auto elim!: and_then_InrE split: option.splits)
    from fill_inode_ok [OF f] obtain t v_size v_ino where
      y: "y = mod_inode self (\<lambda>n. n\<lparr>ftype := t, isize := v_size, ino := v_ino\<rparr>) x"
      and fmt: "rd8 d (at + 5) = Inr fmt" and t: "ftype (imem x self) \<noteq> 0 \<longrightarrow> t = ftype (imem x self)" by blast
    have "fmt \<le> 4"
      using inv at d fmt by (auto simp: xfs_good_def formats_known_def dinodes_get_def split: option.splits)
    moreover have "xfs_good env y" using inv self unfolding y by (intro mod_inode_good) auto
    moreover have "extents_inside y"
      using inv self(2) by (auto simp: y extents_inside_def no_content_def content_defs xal_inode_is_file_def)
    ultimately have "xfs_good env x' \<and> fixed_part x' = F \<and> extents_inside x' \<and>
        builds (imem y) (itop y) (imem x') (itop x') self"
      using inv self k by (intro process_format_builds [OF Suc.IH]) (auto simp: y no_content_def)
    moreover have "builds (imem x) (itop x) (imem x') (itop x') self"
      if "builds (imem y) (itop y) (imem x') (itop x') self"
    proof (rule builds_from)
      show "builds (imem y) (itop x) (imem x') (itop x') self" using that by (simp add: y)
    qed (use t in \<open>auto simp: y same_name_def\<close>)
    ultimately show ?thesis by blast
  qed
  show ?case
    by unfold_locales (use step in blast)+
qed

interpretation xfs_tree: tree_builder
  "process_ino fuel env" imem itop "\<lambda>_ i y. no_content (imem y i)"
  "\<lambda>y. xfs_good env y \<and> fixed_part y = F \<and> extents_inside y" for fuel env F
  by (rule process_ino_builder)

section \<open>The whole index\<close>

lemma clear_good:
  assumes g: "xfs_good env x"
    and empty: "free (inodes x) = 0 \<or>
      os_mprotect (inodes_os env) (reserved (inodes x) * element_size (inodes x)) = 0"
  shows "let y = x\<lparr>inodes := snd (xal_pool_clear (inodes_os env) (inodes x)),
                   extents := snd (xal_pool_clear (extents_os env) (extents x))\<rparr>
    in xfs_good env y \<and> itop y = 0 \<and> fixed_part y = fixed_part x"
proof -
  have keep: "pool_wf (snd (xal_pool_clear os p)) \<and> mprotect_bounded os (snd (xal_pool_clear os p)) \<and>
      (pool_room p = unat (reserved p) \<longrightarrow>
        pool_room (snd (xal_pool_clear os p)) = unat (reserved (snd (xal_pool_clear os p))))"
    if "pool_wf p" "mprotect_bounded os p" for os and p :: "'e::zero xal_pool"
    using that clear_ok [of p os "()" "snd (xal_pool_clear os p)"]
    by (auto simp: xal_pool_clear_def Let_def mprotect_bounded_def pool_room_def pool_bytes_def)
  have "free (snd (xal_pool_clear (inodes_os env) (inodes x))) = 0"
    using empty by (auto simp: xal_pool_clear_def Let_def)
  with g keep [of "inodes x" "inodes_os env"] keep [of "extents x" "extents_os env"] show ?thesis
    by (simp add: Let_def xfs_good_def fixed_part_def extents_inside_def)
qed

lemma xfs_index_ok:
  assumes g: "xfs_good env x"
    and empty: "free (inodes x) = 0 \<or>
      os_mprotect (inodes_os env) (reserved (inodes x) * element_size (inodes x)) = 0"
    and run: "xal_be_xfs_index fuel env x = (Inr u, x')"
  shows "xfs_good env x' \<and> extents_inside x' \<and> root_idx x' = 0 \<and> \<not> dirty x' \<and> 1 \<le> itop x' \<and>
    be_type x' = be_type x \<and>
    parent_idx (imem x' 0) = XAL_POOL_IDX_NONE \<and> xal_inode_is_dir (imem x' 0) \<and>
    tree_wf (imem x') (itop x') \<and> {j. descendant (imem x') 0 j} = {0..<itop x'}"
proof -
  let ?y = "x\<lparr>inodes := snd (xal_pool_clear (inodes_os env) (inodes x)),
              extents := snd (xal_pool_clear (extents_os env) (extents x))\<rparr>"
  let ?root = "\<lambda>n :: xal_inode. n\<lparr>ino := rootino (sb x), ftype := XAL_ODF_DIR3_FT_DIR,
      namelen := 0, parent_idx := XAL_POOL_IDX_NONE, content := \<lparr>c_idx = c_idx (content n), c_count = 0\<rparr>\<rparr>"
  from run obtain root z w where
    cl: "claim_inodes env 1 ?y = (Inr root, z)"
    and p: "process_ino fuel env (ino (xal_inode_at (mod_inode (unat root)
              (\<lambda>n. n\<lparr>ino := rootino (sb z), ftype := XAL_ODF_DIR3_FT_DIR, namelen := 0,
                parent_idx := XAL_POOL_IDX_NONE, content := \<lparr>c_idx = c_idx (content n), c_count = 0\<rparr>\<rparr>)
              (z\<lparr>root_idx := root\<rparr>)) (unat root))) (unat root)
            (mod_inode (unat root)
              (\<lambda>n. n\<lparr>ino := rootino (sb z), ftype := XAL_ODF_DIR3_FT_DIR, namelen := 0,
                parent_idx := XAL_POOL_IDX_NONE, content := \<lparr>c_idx = c_idx (content n), c_count = 0\<rparr>\<rparr>)
              (z\<lparr>root_idx := root\<rparr>)) = (Inr (), w)"
    and x': "x' = w\<lparr>dirty := False\<rparr>"
    unfolding xal_be_xfs_index_def Let_def by (auto elim!: and_then_InrE split: if_splits)
  note y = clear_good [OF g empty, unfolded Let_def]
  have gy: "xfs_good env ?y" using y by simp
  note c = claim_inodes_good [OF gy cl]
  have root: "unat root = 0" "itop z = 1" using c y by simp_all
  let ?s = "mod_inode 0 (\<lambda>n. n\<lparr>ino := rootino (sb z), ftype := XAL_ODF_DIR3_FT_DIR, namelen := 0,
                parent_idx := XAL_POOL_IDX_NONE, content := \<lparr>c_idx = c_idx (content n), c_count = 0\<rparr>\<rparr>)
              (z\<lparr>root_idx := root\<rparr>)"
  have gs: "xfs_good env ?s"
    using c root by (intro mod_inode_good) (auto simp: xfs_good_def extents_inside_def)
  have inv: "xfs_good env ?s \<and> fixed_part ?s = fixed_part ?s \<and> extents_inside ?s"
    using gs root by (auto simp: extents_inside_def xal_inode_is_file_def)
  have tree: "(xfs_good env w \<and> fixed_part w = fixed_part ?s \<and> extents_inside w) \<and> 1 \<le> itop w \<and>
      tree_wf (imem w) (itop w) \<and> {j. descendant (imem w) 0 j} = {0..<itop w}"
    by (rule xfs_tree.root_step_tree [OF inv _ _ p [unfolded root]]) (simp_all add: root no_content_def)
  have b: "builds (imem ?s) (itop ?s) (imem w) (itop w) 0"
    by (rule xfs_tree.step_builds [OF inv _ _ p [unfolded root]]) (simp_all add: root no_content_def)
  have dir: "xal_inode_is_dir (imem w 0)"
    using b by (simp add: builds_def same_name_def xal_inode_is_dir_def)
  have "root_idx w = root" "be_type w = be_type z" using tree by (simp_all add: fixed_part_def mod_inode_def put_inode_def)
  moreover have "be_type z = be_type x" using c by (simp add: fixed_part_def)
  moreover have "root = 0" using root(1) by (simp add: unat_eq_zero)
  moreover have "parent_idx (imem w 0) = XAL_POOL_IDX_NONE" using b by (simp add: builds_def same_name_def)
  ultimately show ?thesis
    using tree dir by (simp add: x' xfs_good_def extents_inside_def extents_inside_def)
qed

section \<open>A small file system\<close>

text \<open>
  Two inodes of 256 bytes: the root directory in short form with one entry, \<open>a\<close>, and that file with
  one inline extent of five blocks at block 1. The run of the index is computed step by step.
\<close>

definition two_dinodes :: cbuf where
  "two_dinodes = \<lparr>cap = 512, bytes = (\<lambda>_. 0)(5 := 1, 159 := 2, 176 := 1, 182 := 1, 185 := 97, 186 := 1, 190 := 3,
     261 := 2, 335 := 1, 415 := 3, 445 := 0x20, 447 := 5)\<rparr>"

definition two_env :: xfs_env where
  "two_env = demo_env\<lparr>inodes_os := demo_os\<lparr>os_mprotect := (\<lambda>n. if n \<le> 159744 then 0 else 12)\<rparr>,
     extents_os := demo_os\<lparr>os_mprotect := (\<lambda>n. if n \<le> 4096 then 0 else 12)\<rparr>\<rparr>"

definition two_xal :: xal where
  "two_xal = xal_null\<lparr>be_type := XAL_BACKEND_XFS, root_idx := XAL_POOL_IDX_NONE,
     sb := sb_null\<lparr>rootino := 2, inodesize := 256\<rparr>,
     dinodes := Some two_dinodes, dinodes_map := [2 \<mapsto> 0, 3 \<mapsto> 256],
     inodes := pool_null\<lparr>reserved := 512, growby := 100, element_size := 312\<rparr>,
     extents := pool_null\<lparr>reserved := 100, growby := 50, element_size := 25\<rparr>\<rparr>"

lemmas two_simps = two_env_def two_xal_def demo_env_def demo_os_def xal_null_def pool_null_def sb_null_def

lemma two_good: "xfs_good two_env two_xal"
  by (auto simp: xfs_good_def two_simps pool_wf_def mprotect_bounded_def pool_room_def pool_bytes_def
    formats_known_def two_dinodes_def rd8_def word_le_nat_alt split: if_splits)

lemma two_reads:
  "rd8 two_dinodes 5 = Inr 1" "be64 two_dinodes 56 = Inr 0" "be64 two_dinodes 152 = Inr 2"
  "rd8 two_dinodes 176 = Inr 1" "rd8 two_dinodes 177 = Inr 0" "rd8 two_dinodes 182 = Inr 1"
  "rdn two_dinodes 185 (Suc 0) = Inr [97]" "rd8 two_dinodes 186 = Inr 1" "be32 two_dinodes 187 = Inr 3"
  "rd8 two_dinodes 261 = Inr 2" "be64 two_dinodes 312 = Inr 0" "be64 two_dinodes 408 = Inr 3"
  "be32 two_dinodes 332 = Inr 1" "be64 two_dinodes 432 = Inr 0" "be64 two_dinodes 440 = Inr 0x200005"
  by (simp_all add: two_dinodes_def rd8_def be_defs rdn_def be_word_def)



text \<open>The state after the roots are claimed: \<open>n\<close> inodes with memory \<open>m\<close>, and the extent pool \<open>q\<close>.\<close>

definition two_state :: "u64 \<Rightarrow> (nat \<Rightarrow> xal_inode) \<Rightarrow> xal_extent xal_pool \<Rightarrow> xal" where
  "two_state n m q = \<lparr>
     inodes = \<lparr>reserved = 512, allocated = 100, growby = 100, free = n, element_size = 312, memory = m\<rparr>,
     extents = q, root_idx = 0, sb = sb_null\<lparr>rootino := 2, inodesize := 256\<rparr>, be_type = XAL_BACKEND_XFS,
     io_buf = buf_of 0 [], dinodes = Some two_dinodes, dinodes_map = [2 \<mapsto> 0, 3 \<mapsto> 256], ags = [],
     mountpoint = [], inotify = None, path_inode_map = None, dirty = False, dirty_shm = False,
     seq_lock = 0, shared_view = False\<rparr>"

definition two_extents :: "u64 \<Rightarrow> u64 \<Rightarrow> (nat \<Rightarrow> xal_extent) \<Rightarrow> xal_extent xal_pool" where
  "two_extents a n m = \<lparr>reserved = 100, allocated = a, growby = 50, free = n, element_size = 25, memory = m\<rparr>"

lemma two_claim_root: "xal_pool_claim_inodes (inodes_os two_env) (snd (xal_pool_clear (inodes_os two_env) (inodes two_xal))) 1 =
  (Inr 0, \<lparr>reserved = 512, allocated = 100, growby = 100, free = 1, element_size = 312, memory = (\<lambda>_. 0)\<rparr>)"
  by (simp add: two_simps xal_pool_clear_def xal_pool_claim_inodes_def xal_pool_grow_def Let_def zero_elements_def)
lemma two_claim_child: "claim_inodes two_env 1 (two_state 1 m q) = (Inr 1, two_state 2 m q)"
  by (simp add: claim_inodes_def two_state_def xal_pool_claim_inodes_def)
lemma two_claim_extent: "claim_extents two_env 1 (two_state 2 m (two_extents 0 0 (\<lambda>_. 0))) =
  (Inr 0, two_state 2 m (two_extents 50 1 (\<lambda>_. 0)))"
  by (simp add: claim_extents_def two_state_def two_extents_def two_env_def demo_env_def demo_os_def xal_pool_claim_extents_def xal_pool_grow_def Let_def zero_elements_def)
lemma two_clear_extents: "snd (xal_pool_clear (extents_os two_env) (extents two_xal)) = two_extents 0 0 (\<lambda>_. 0)"
  by (simp add: two_extents_def two_simps xal_pool_clear_def Let_def zero_elements_def)

definition two_root :: "u32 \<Rightarrow> u32 \<Rightarrow> xal_inode" where
  "two_root i n = \<lparr>ino = 2, isize = 0, content = \<lparr>c_idx = i, c_count = n\<rparr>, ftype = 2, namelen = 0, name = [],
     parent_idx = XAL_POOL_IDX_NONE\<rparr>"
definition two_file :: "u32 \<Rightarrow> u32 \<Rightarrow> xal_inode" where
  "two_file n p = \<lparr>ino = 3, isize = 0, content = \<lparr>c_idx = 0, c_count = n\<rparr>, ftype = 1, namelen = 1, name = [97],
     parent_idx = p\<rparr>"

lemma two_put: "put_inode i v (two_state n m q) = two_state n (m(i := v)) q" "xal_inode_at (two_state n m q) i = m i"
   "dinodes_get (two_state n m q) = dinodes_get two_xal" "dinodes (two_state n m q) = Some two_dinodes"
   "put_extent e w (two_state n m (two_extents a k em)) = two_state n m (two_extents a k (em(e := w)))"
  by (simp_all add: put_inode_def put_extent_def two_state_def two_extents_def xal_inode_at_def dinodes_get_def two_xal_def fun_eq_iff)
lemma two_get: "dinodes_get two_xal 2 = Inr 0" "dinodes_get two_xal 3 = Inr 256"
  by (simp_all add: dinodes_get_def two_xal_def)

lemma two_index: "xal_be_xfs_index fuel two_env two_xal = and_then (process_ino fuel two_env 2 0 
    (two_state 1 ((\<lambda>_. 0)(0 := two_root 0 0)) (two_extents 0 0 (\<lambda>_. 0)))) (\<lambda>_ x. (Inr (), x\<lparr>dirty := False\<rparr>))"
  by (simp add: xal_be_xfs_index_def claim_inodes_def two_claim_root two_clear_extents Let_def)
   (simp add: two_simps mod_inode_def put_inode_def xal_inode_at_def two_state_def two_root_def zero_xal_inode_ext_def zero_xal_content_ext_def)

lemmas two_mods = mod_inode_def set_content_def set_content_idx_def two_put two_get two_reads two_claim_child two_claim_extent

lemma two_fill_root: "fill_inode two_dinodes 0 0 (two_state 1 ((\<lambda>_. 0)(0 := two_root 0 0)) q) = 
   (Inr 1, two_state 1 ((\<lambda>_. 0)(0 := two_root 0 0)) q)"
  by (simp add: fill_inode_def two_mods two_root_def)
lemma two_fill_file: "fill_inode two_dinodes 256 (Suc 0) (two_state 2 (m(Suc 0 := two_file 0 0)) q) = 
   (Inr 2, two_state 2 (m(Suc 0 := two_file 0 0)) q)"
  by (simp add: fill_inode_def two_mods two_file_def)

lemma two_file_extents: "process_dinode_file_extents two_env two_dinodes 256 (Suc 0) (two_state 2 (m(Suc 0 := two_file 0 0)) (two_extents 0 0 (\<lambda>_. 0))) =
  (Inr (), two_state 2 (m(Suc 0 := two_file 1 0)) (two_extents 50 1 ((\<lambda>_. 0)(0 := decode_xfs_extent 0 0x200005))))"
  by (simp add: process_dinode_file_extents_def two_mods extent_at_def) (simp add: two_file_def)

lemma two_process_file: "process_ino (Suc n) two_env 3 (Suc 0) (two_state 2 (m(Suc 0 := two_file 0 0)) (two_extents 0 0 (\<lambda>_. 0))) =
  (Inr (), two_state 2 (m(Suc 0 := two_file 1 0)) (two_extents 50 1 ((\<lambda>_. 0)(0 := decode_xfs_extent 0 0x200005))))"
proof -
  have "ftype (two_file 0 0) = 1" by (simp add: two_file_def)
  then show ?thesis by (simp add: two_mods two_fill_file process_format_def two_file_extents)
qed

lemma two_entries: "sf_entries two_dinodes (Suc 0) (Suc 0) 182 0 (two_state 2 m q) = 
  (Inr (), two_state 2 (m(Suc 0 := (m (Suc 0))\<lparr>namelen := 1, name := 97 # drop 1 (name (m (Suc 0))), ftype := 1, ino := 3\<rparr>)) q)"
  by (simp add: two_mods)

lemma two_process_dir: "process_dinode_dir_local two_env (process_ino (Suc n) two_env) two_dinodes 0 0
   (two_state 1 ((\<lambda>_. 0)(0 := two_root 0 0)) (two_extents 0 0 (\<lambda>_. 0))) = 
   (Inr (), two_state 2 ((\<lambda>_. 0)(0 := two_root 1 1, Suc 0 := two_file 1 0)) (two_extents 50 1 ((\<lambda>_. 0)(0 := decode_xfs_extent 0 0x200005))))"
proof -
  have f: "(0 :: xal_inode)\<lparr>namelen := 1, name := [97], ftype := 1, ino := 3, parent_idx := 0\<rparr> = two_file 0 0"
    by (simp add: two_file_def zero_xal_inode_ext_def zero_xal_content_ext_def)
  have r: "(two_root 0 0)\<lparr>content := \<lparr>c_idx = 0, c_count = 1\<rparr>\<rparr> = two_root 0 1" "(two_root 0 1)\<lparr>content := \<lparr>c_idx = 1, c_count = 1\<rparr>\<rparr> = two_root 1 1"
     "c_idx (content (two_root 0 0)) = 0" "c_count (content (two_root 0 1)) = 1"
    by (simp_all add: two_root_def)
  have i: "ino (two_file 0 0) = 3" by (simp add: two_file_def)
  show ?thesis
  by (simp add: process_dinode_dir_local_def two_mods Let_def two_entries r f i xal_inode_idx_def two_process_file del: process_ino.simps sf_entries.simps)
qed
lemma two_run: "xal_be_xfs_index 2 two_env two_xal = (Inr (), two_state 2 ((\<lambda>_. 0)(0 := two_root 1 1, Suc 0 := two_file 1 0)) (two_extents 50 1 ((\<lambda>_. 0)(0 := decode_xfs_extent 0 0x200005))))"
proof -
  have r: "ftype (two_root 0 0) = 2" by (simp add: two_root_def)
  have "process_ino (Suc (Suc 0)) two_env 2 0 (two_state 1 ((\<lambda>_. 0)(0 := two_root 0 0)) (two_extents 0 0 (\<lambda>_. 0))) =
    (Inr (), two_state 2 ((\<lambda>_. 0)(0 := two_root 1 1, Suc 0 := two_file 1 0)) (two_extents 50 1 ((\<lambda>_. 0)(0 := decode_xfs_extent 0 0x200005))))"
   by (simp add: process_ino.simps(2) [of "Suc 0"] two_mods two_fill_root process_format_def two_process_dir r del: process_ino.simps)
  then show ?thesis by (simp add: two_index numeral_2_eq_2 del: process_ino.simps) (simp add: two_state_def)
qed

lemma two_empty: "free (inodes two_xal) = 0"
  by (simp add: two_xal_def pool_null_def)

lemma two_top: "itop (two_state 2 m q) = 2"
  by (simp add: two_state_def)

text \<open>
  An inode whose root names one leaf block, at block 1 of a device with blocks of 88 bytes, which
  holds one extent record.
\<close>

definition leaf_dinode :: cbuf where
  "leaf_dinode = \<lparr>cap = 256, bytes = (\<lambda>_. 0)(82 := 8, 177 := 1, 179 := 1, 211 := 1)\<rparr>"

definition leaf_disk :: "nat \<Rightarrow> u8" where
  "leaf_disk = (\<lambda>_. 0)(88 := 0x42, 89 := 0x4d, 90 := 0x41, 91 := 0x33, 95 := 1, 175 := 5)"

definition leaf_env :: xfs_env where
  "leaf_env = two_env\<lparr>mdts_nbytes := 1024,
     nvm_read := (\<lambda>slba nlb. Some (map leaf_disk [unat slba * 8 ..< (unat slba + unat nlb + 1) * 8]))\<rparr>"

definition leaf_xal :: xal where
  "leaf_xal = xal_null\<lparr>be_type := XAL_BACKEND_XFS, io_buf := buf_of BUF_NBYTES [],
     sb := sb_null\<lparr>inodesize := 256, blocksize := 88, agblocks := 100, agblklog := 7\<rparr>,
     inodes := \<lparr>reserved = 512, allocated = 100, growby = 100, free = 1, element_size = 312,
       memory = (\<lambda>_. 0)(0 := two_file 0 0)\<rparr>,
     extents := two_extents 0 0 (\<lambda>_. 0)\<rparr>"

lemma leaf_good: "xfs_good leaf_env leaf_xal"
  by (auto simp: xfs_good_def leaf_env_def leaf_xal_def two_env_def two_extents_def xal_null_def demo_env_def
      demo_os_def pool_wf_def mprotect_bounded_def pool_room_def pool_bytes_def formats_known_def
      word_le_nat_alt split: if_splits)

lemma leaf_run: "\<exists>x'. process_dinode_file_btree_root 1 leaf_env leaf_dinode 0 0 leaf_xal = (Inr (), x') \<and> etop x' = 1"
proof -
  let ?b = "\<lparr>cap = BUF_NBYTES, bytes = (\<lambda>j. if j < 88 then leaf_disk (88 + j) else 0)\<rparr>"
  have root: "be16 leaf_dinode 176 = Inr 1" "be16 leaf_dinode 178 = Inr 1" "rd8 leaf_dinode 82 = Inr 8"
    "be64 leaf_dinode 204 = Inr 1"
    by (simp_all add: leaf_dinode_def rd8_def be_defs rdn_def be_word_def)
  have blk: "be32 ?b 0 = Inr XAL_ODF_BMAP_CRC_MAGIC" "be16 ?b 4 = Inr 0" "be16 ?b 6 = Inr 1"
    "be64 ?b 72 = Inr 0" "be64 ?b 80 = Inr 5"
    by (simp_all add: leaf_disk_def be_defs rdn_def be_word_def upt_small)
  have rd: "dev_read leaf_env 88 88 (buf_of BUF_NBYTES []) = (Inr (), ?b)"
    by (subst dev_read_eq [where data = "map leaf_disk [88..<176]"])
      (simp_all add: leaf_env_def two_env_def demo_env_def buf_of_def del: upt_rec_numeral cong: if_cong)
  have m: "btree_dinode_meta leaf_xal 8 = (3, 180, 204)"
    by (simp add: btree_dinode_meta_def leaf_xal_def Let_def)
  have ofz: "xal_fsbno_offset y 1 = 88" if "be_type y = XAL_BACKEND_XFS" "sb y = sb leaf_xal" for y
    using that by (simp add: xal_fsbno_offset_def leaf_xal_def agblk_mask_int_eq Let_def
        mask_eq_exp_minus_1 del: exp_minus_1_mask)
  have parts: "extents_count (xal_inode_at leaf_xal 0) = 0" "be_type leaf_xal = XAL_BACKEND_XFS"
    "io_buf leaf_xal = buf_of BUF_NBYTES []" "blocksize (sb leaf_xal) = 88"
    by (simp_all add: leaf_xal_def xal_inode_at_def two_file_def content_defs)
  show ?thesis
    by (simp add: process_dinode_file_btree_root_def root m parts Let_def process_file_btree_leaf_def
        read_io_def set_content_idx_def set_content_def mod_inode_def put_inode_def ofz rd blk extent_at_def
        claim_extents_def)
      (simp add: leaf_xal_def leaf_env_def two_env_def demo_env_def demo_os_def two_extents_def
        xal_pool_claim_extents_def xal_pool_grow_def Let_def add_content_count_def set_content_def
        mod_inode_def put_inode_def put_extent_def blk)
qed

section \<open>Properties\<close>

text \<open>
  C1 (a successful index is a tree). When \<open>xal_be_xfs_index\<close> succeeds on well-formed
  pools (the inode pool being empty or the kernel allowing it to be cleared) and all inodes have a
  known format, the inode pool holds a tree: the root, a directory without parent, is at position
  0, every directory names a range of claimed inodes behind it that know it as their parent, every
  claimed inode is below the root, the extents of every file lie inside the claimed part of the
  extent pool, and the dirty flag is clear. The state is again one that can be indexed.
\<close>

theorem xfs_index_builds_tree:
  assumes "xfs_good env x"
    and "free (inodes x) = 0 \<or>
      os_mprotect (inodes_os env) (reserved (inodes x) * element_size (inodes x)) = 0"
    and "xal_be_xfs_index fuel env x = (Inr u, x')"
  shows "tree_wf (imem x') (itop x') \<and> {j. descendant (imem x') 0 j} = {0..<itop x'} \<and>
    xal_get_root x' = 0 \<and> xal_inode_is_dir (imem x' 0) \<and> parent_idx (imem x' 0) = XAL_POOL_IDX_NONE \<and>
    extents_inside x' \<and> \<not> xal_is_dirty x' \<and> xfs_good env x'"
  using xfs_index_ok [OF assms] by (simp add: xal_get_root_def xal_is_dirty_def)

theorem xfs_index_builds_tree_witness:
  "\<exists>x'. xal_be_xfs_index 2 two_env two_xal = (Inr (), x') \<and> itop x' = 2 \<and>
     tree_wf (imem x') 2 \<and> {j. descendant (imem x') 0 j} = {0..<2}"
  using xfs_index_builds_tree [OF two_good disjI1 [OF two_empty] two_run] two_run two_top by metis

text \<open>
  C2 (walking an index visits every inode once). After a successful index, a walk from
  the root with fuel for the number of claimed inodes is the loop of the callback over a list that
  contains every claimed position exactly once, parents before their children.
\<close>

theorem xfs_index_then_walk:
  assumes "xfs_good env x"
    and "free (inodes x) = 0 \<or>
      os_mprotect (inodes_os env) (reserved (inodes x) * element_size (inodes x)) = 0"
    and "xal_be_xfs_index fuel env x = (Inr u, x')" and "itop x' \<le> wfuel"
  shows "distinct (map fst (tree_order (imem x') (itop x') 0)) \<and>
    set (map fst (tree_order (imem x') (itop x') 0)) = {0..<itop x'} \<and>
    xal_walk wfuel loads x' (xal_get_root x') cb c =
      (case for_each (walk_visit loads x' cb) (tree_order (imem x') (itop x') 0) (c, 0)
         of (r, (c', k)) \<Rightarrow> (r, c'))"
proof -
  note ok = xfs_index_ok [OF assms(1-3)]
  then have wf: "tree_wf (imem x') (itop x')" and pos: "0 < itop x'" by simp_all
  have "xal_get_root x' = 0" using ok by (simp add: xal_get_root_def)
  then show ?thesis
    using xal_walk_tree_order [OF wf pos, of wfuel] tree_order_set [OF wf pos] ok assms(4)
      subtree_distinct [OF wf pos, of "itop x'"]
    by (simp add: tree_order_def preorder_fst)
qed

theorem xfs_index_then_walk_witness:
  "\<exists>x'. xal_be_xfs_index 2 two_env two_xal = (Inr (), x') \<and>
     set (map fst (tree_order (imem x') (itop x') 0)) = {0..<2}"
  using xfs_index_then_walk [OF two_good disjI1 [OF two_empty] two_run, of 2 _ "None :: unit walk_cb option" "()"]
    two_run two_top by (metis order_refl)

text \<open>
  C37 (the extents of a file with a B+tree are one range). When
  \<open>process_dinode_file_btree_root\<close> succeeds, the file names exactly the extents that all leaves of
  its tree together claimed, starting where the pool ended before, at any depth of the tree; the
  extents of the files read before are unchanged and no other inode was touched.
\<close>

theorem file_btree_extents_contiguous:
  assumes "xfs_good env x" and "self < itop x" and "xal_inode_is_file (imem x self)"
    and "process_dinode_file_btree_root fuel env d at self x = (Inr u, x')"
  shows "extents_idx (imem x' self) = etop x \<and> extents_count (imem x' self) = etop x' - etop x \<and>
    (\<forall>e < etop x. memory (extents x') e = memory (extents x) e) \<and>
    (\<forall>j. j \<noteq> self \<longrightarrow> imem x' j = imem x j) \<and> itop x' = itop x"
proof -
  have f: "file_filled env self (set_content_idx self (ucast (free (extents x))) x) x'"
    "extents_count (imem x self) = 0"
    using file_btree_filled [OF assms(1,2,4)] by simp_all
  have i: "unat (ucast (free (extents x)) :: u32) = etop x"
    using etop_32 [OF assms(1)] by (simp add: unat_ucast_mod)
  have "etop x' - etop x < 2 ^ 32" using f(1) etop_32 [of env x'] by (auto simp: file_filled_def)
  with f i show ?thesis
    by (auto simp: file_filled_def content_defs unat_of_nat_small unat_eq_zero simp del: of_nat_diff)
qed

theorem file_btree_extents_contiguous_witness:
  "\<exists>x'. process_dinode_file_btree_root 1 leaf_env leaf_dinode 0 0 leaf_xal = (Inr (), x') \<and>
     extents_idx (imem x' 0) = 0 \<and> extents_count (imem x' 0) = 1"
proof -
  obtain x' where run: "process_dinode_file_btree_root 1 leaf_env leaf_dinode 0 0 leaf_xal = (Inr (), x')"
    and e: "etop x' = 1" using leaf_run by blast
  have "etop leaf_xal = 0" "itop leaf_xal = 1" "xal_inode_is_file (imem leaf_xal 0)"
    by (simp_all add: leaf_xal_def two_extents_def two_file_def xal_inode_is_file_def)
  with file_btree_extents_contiguous [OF leaf_good _ _ run] run e show ?thesis by auto
qed

text \<open>
  Note (inline extents are decoded in order). When \<open>process_dinode_file_extents\<close> succeeds,
  the file names a range of the extent pool that starts where the pool ended before and holds, in
  order, the decoded records of the inode; earlier extents and other inodes are unchanged.
\<close>

theorem file_inline_extents_decoded:
  assumes "xfs_good env x" and "self < itop x"
    and "process_dinode_file_extents env d at self x = (Inr u, x')"
  shows "extents_idx (imem x' self) = etop x \<and>
    (\<forall>rec < etop x' - etop x. extent_at d (at + 176 + 16 * rec) = Inr (memory (extents x') (etop x + rec))) \<and>
    extents_count (imem x' self) = etop x' - etop x \<and>
    (\<forall>e < etop x. memory (extents x') e = memory (extents x) e) \<and>
    (\<forall>j. j \<noteq> self \<longrightarrow> imem x' j = imem x j)"
proof -
  from file_extents_ok [OF assms] obtain nextents :: u64 and idx where
    ok: "xfs_good env x'" "\<forall>j. j \<noteq> self \<longrightarrow> imem x' j = imem x j"
      "imem x' self = (imem x self)\<lparr>content := \<lparr>c_idx = idx, c_count = ucast nextents\<rparr>\<rparr>"
      "unat idx = etop x" "etop x' = etop x + unat nextents"
      "\<forall>e < etop x. memory (extents x') e = memory (extents x) e"
      "\<forall>rec < unat nextents. extent_at d (at + 176 + 16 * rec) = Inr (memory (extents x') (etop x + rec))"
    by blast
  have "unat nextents < 2 ^ 32" using ok(5) etop_32 [OF ok(1)] by simp
  then have "unat (ucast nextents :: u32) = unat nextents" by (simp add: unat_ucast_mod)
  with ok show ?thesis by (auto simp: content_defs)
qed

theorem file_inline_extents_decoded_witness:
  "\<exists>x'. process_dinode_file_extents two_env two_dinodes 256 (Suc 0)
       (two_state 2 ((\<lambda>_. 0)(Suc 0 := two_file 0 0)) (two_extents 0 0 (\<lambda>_. 0))) = (Inr (), x') \<and>
     extent_at two_dinodes 432 = Inr (memory (extents x') 0) \<and> extents_count (imem x' (Suc 0)) = 1"
proof -
  let ?x = "two_state 2 ((\<lambda>_. 0)(Suc 0 := two_file 0 0)) (two_extents 0 0 (\<lambda>_. 0))"
  have "formats_known ?x"
    by (auto simp: formats_known_def two_state_def two_dinodes_def rd8_def word_le_nat_alt split: if_splits)
  then have good: "xfs_good two_env ?x"
    by (auto simp: xfs_good_def two_state_def two_extents_def two_env_def demo_env_def demo_os_def
        pool_wf_def mprotect_bounded_def pool_room_def pool_bytes_def word_le_nat_alt split: if_splits)
  have e: "etop ?x = 0" "Suc 0 < itop ?x" by (simp_all add: two_state_def two_extents_def)
  from file_inline_extents_decoded [OF good e(2) two_file_extents] two_file_extents e show ?thesis
    by (auto simp: two_state_def two_extents_def)
qed

end
