(* ===== verification/Xal_Xfs_Dirs.thy ===== *)
theory Xal_Xfs_Dirs
  imports Xal_Xfs_Index
begin

text \<open>
  What the directory decoders of the XFS backend read. For blocks and short-form directories written
  as the file system writes them, the decoders add the entries that were written to the pool, in
  order; a free entry ends a block early.
\<close>

section \<open>Entries appended to the pool\<close>

lemma add_dentry_appends:
  assumes g: "xfs_good env x" and self: "self < itop x" and run: "add_dentry env self dentry x = (Inr u, x')"
  shows "xfs_good env x' \<and> itop x' = itop x + 1 \<and>
    imem x' (itop x) = dentry\<lparr>parent_idx := of_nat self\<rparr> \<and>
    (\<forall>j < itop x. j \<noteq> self \<longrightarrow> imem x' j = imem x j)"
proof -
  from run obtain slot x1 where cl: "claim_inodes env 1 x = (Inr slot, x1)"
    and x': "x' = add_content_count self 1 (put_inode (unat slot) (dentry\<lparr>parent_idx := xal_inode_idx x1 self\<rparr>) x1)"
    by (auto simp: add_dentry_def elim!: and_then_InrE)
  note ok = claim_inodes_good [OF g cl]
  have "xfs_good env x'"
    using ok self unfolding x' add_content_count_def set_content_def mod_inode_def
    by (intro put_inode_good) auto
  with ok self show ?thesis
    by (auto simp: x' add_content_count_def set_content_def mod_inode_def xal_inode_at_def xal_inode_idx_def)
qed

text \<open>The entries \<open>ds\<close> were appended, with their parent filled in.\<close>

definition appended :: "nat \<Rightarrow> xal_inode list \<Rightarrow> xal \<Rightarrow> xal \<Rightarrow> bool" where
  "appended self ds x x' \<longleftrightarrow>
     itop x' = itop x + length ds \<and>
     (\<forall>k < length ds. imem x' (itop x + k) = (ds ! k)\<lparr>parent_idx := of_nat self\<rparr>) \<and>
     (\<forall>j < itop x. j \<noteq> self \<longrightarrow> imem x' j = imem x j)"

lemma appended_Cons:
  assumes "itop y = itop x + 1" and "imem y (itop x) = d\<lparr>parent_idx := of_nat self\<rparr>"
    and "\<forall>j < itop x. j \<noteq> self \<longrightarrow> imem y j = imem x j" and "appended self ds y z" and "self < itop x"
  shows "appended self (d # ds) x z"
  unfolding appended_def
proof (intro conjI allI impI)
  show "itop z = itop x + length (d # ds)" using assms by (simp add: appended_def)
  show "imem z j = imem x j" if "j < itop x" "j \<noteq> self" for j
    using assms that by (simp add: appended_def)
  show "imem z (itop x + k) = ((d # ds) ! k)\<lparr>parent_idx := of_nat self\<rparr>" if "k < length (d # ds)" for k
  proof (cases k)
    case 0
    with assms show ?thesis by (simp add: appended_def)
  next
    case (Suc k')
    with assms that show ?thesis by (simp add: appended_def)
  qed
qed

lemma add_dentries_appended:
  "xfs_good env x \<Longrightarrow> self < itop x \<Longrightarrow> for_each (add_dentry env self) ds x = (Inr u, x') \<Longrightarrow> appended self ds x x'"
proof (induction ds arbitrary: x)
  case Nil
  then show ?case by (simp add: appended_def)
next
  case (Cons d ds)
  from Cons.prems(3) obtain y where y: "add_dentry env self d x = (Inr (), y)"
    and r: "for_each (add_dentry env self) ds y = (Inr u, x')" by (auto elim!: and_then_InrE)
  note a = add_dentry_appends [OF Cons.prems(1,2) y]
  have "appended self ds y x'" by (rule Cons.IH [OF _ _ r]) (use a Cons.prems(2) in simp_all)
  then show ?case by (rule appended_Cons [rotated 3]) (use a Cons.prems(2) in simp_all)
qed

lemma add_dentries_filled:
  assumes "\<forall>d \<in> set ds. c_count (content d) = 0"
  shows "xfs_good env x \<Longrightarrow> self < itop x \<Longrightarrow> for_each (add_dentry env self) ds x = (Inr u, x') \<Longrightarrow> dir_filled env self x x'"
  using assms
proof (induction ds arbitrary: x)
  case Nil
  then show ?case by (simp add: dir_filled_refl)
next
  case (Cons d ds)
  from Cons.prems(3) obtain y where y: "add_dentry env self d x = (Inr (), y)"
    and r: "for_each (add_dentry env self) ds y = (Inr u, x')" by (auto elim!: and_then_InrE)
  have "dir_filled env self x y" by (rule add_dentry_filled [OF Cons.prems(1,2) _ y]) (use Cons.prems(4) in simp)
  then show ?case
    by (rule dir_filled_step [OF _ Cons.prems(2)]) (use Cons.IH [OF _ _ r] Cons.prems(4) in simp)
qed

section \<open>Blocks as the file system writes them\<close>

text \<open>
  An entry: inode number, name length, name, type, and the bytes up to a multiple of eight, \<open>t\<close>: padding
  and, at the end, the tag, which is the offset of the entry in the block. The code reads none of them.
\<close>

definition enc_size :: "nat \<Rightarrow> nat" where
  "enc_size len = (19 + len) div 8 * 8"

definition enc_dentry :: "xal_inode \<Rightarrow> u8 list \<Rightarrow> u8 list" where
  "enc_dentry e t = be_enc 8 (ino e) @ [namelen e] @ name e @ [ftype e] @ t"

definition valid_dentry :: "xal_inode \<Rightarrow> u8 list \<Rightarrow> bool" where
  "valid_dentry e t \<longleftrightarrow>
     ino e \<noteq> 0 \<and> drop_bit 48 (ino e) \<noteq> 0xffff \<and> name e \<noteq> [] \<and> length (name e) = unat (namelen e) \<and>
     e = 0\<lparr>ino := ino e, namelen := namelen e, name := name e, ftype := ftype e\<rparr> \<and>
     10 + length (name e) + length t = enc_size (length (name e))"

definition enc_dentries :: "(xal_inode \<times> u8 list) list \<Rightarrow> u8 list" where
  "enc_dentries ds = concat (map (\<lambda>(e, t). enc_dentry e t) ds)"

lemma enc_dentries_simps [simp]:
  "enc_dentries [] = []" "enc_dentries ((e, t) # ds) = enc_dentry e t @ enc_dentries ds"
  by (simp_all add: enc_dentries_def)

text \<open>
  What follows the entries of a block of \<open>limit\<close> bytes in the array of \<open>c\<close> bytes: nothing when the block is
  full, a region marked as free, which starts with \<open>0xffff\<close> and its length, or zeros.
\<close>

definition block_end :: "nat \<Rightarrow> nat \<Rightarrow> nat \<Rightarrow> u8 list \<Rightarrow> bool" where
  "block_end limit c len tail \<longleftrightarrow>
     tail = [] \<and> (limit = len \<or> len + 10 \<le> c) \<or> (\<exists>n1 n2 rest. tail = 255 # 255 # n1 # n2 # rest)"

lemma enc_dentry_length: "valid_dentry e t \<Longrightarrow> length (enc_dentry e t) = enc_size (length (name e))"
proof -
  assume "valid_dentry e t"
  then have "10 + length (name e) + length t = enc_size (length (name e))" unfolding valid_dentry_def by blast
  then show ?thesis by (simp add: enc_dentry_def)
qed

lemma be_enc_high: "take 2 (be_enc 8 (w :: u64)) = be_enc 2 (drop_bit 48 w)"
  by (simp add: numeral_eq_Suc)

lemma dentry_size_nat:
  "((12 + ucast (w :: u8) + 7) div 8 * 8 :: u16) = of_nat ((19 + unat w) div 8 * 8)"
proof -
  have w: "unat w < 256" using unsigned_less [of w] by simp
  have u: "unat (ucast w :: u16) = unat w" by (rule unat_ucast_up_eq) simp
  have "unat (12 + ucast w + 7 :: u16) = 19 + unat w"
    using w u by (simp add: unat_word_ariths)
  then have "unat ((12 + ucast w + 7 :: u16) div 8) = (19 + unat w) div 8"
    by (simp add: unat_div)
  then have "unat ((12 + ucast w + 7 :: u16) div 8 * 8) = (19 + unat w) div 8 * 8"
    using w by (simp add: unat_word_ariths)
  moreover have "unat (of_nat ((19 + unat w) div 8 * 8) :: u16) = (19 + unat w) div 8 * 8"
    using w by (intro unat_of_nat_small) simp
  ultimately have "unat ((12 + ucast w + 7 :: u16) div 8 * 8) = unat (of_nat ((19 + unat w) div 8 * 8) :: u16)"
    by (simp only:)
  then show ?thesis using unsigned_word_eqI by blast
qed

lemma be16_of_enc:
  assumes "rdn b i 2 = Inr (be_enc 2 (v :: u64))"
  shows "be16 b i = Inr (ucast v)"
proof -
  have "unat (be_word (be_enc 2 v) :: u16) = unat (ucast v :: u16)"
    by (simp add: be_word_of_nat be_nat_be_enc unat_of_nat unat_ucast_mod take_bit_eq_mod)
  then have "(be_word (be_enc 2 v) :: u16) = ucast v" using unsigned_word_eqI by blast
  with assms show ?thesis by (simp add: be16_def)
qed

lemma high_bits_of_ino:
  assumes "drop_bit 48 (w :: u64) \<noteq> 0xffff"
  shows "(ucast (drop_bit 48 w) :: u16) \<noteq> 0xffff"
proof
  assume "(ucast (drop_bit 48 w) :: u16) = 0xffff"
  then have "unat (ucast (drop_bit 48 w) :: u16) = 65535" by simp
  moreover have "unat w < 2 ^ 64" using unsigned_less [of w] by simp
  then have "unat (drop_bit 48 w) < 2 ^ 16" by (simp add: unat_drop_bit less_mult_imp_div_less)
  ultimately have "unat (drop_bit 48 w) = unat (0xffff :: u64)"
    by (simp add: unat_ucast_mod)
  then show False using assms unsigned_word_eqI by blast
qed

lemma decode_enc_dentry:
  assumes v: "valid_dentry e t" and i: "length pre = i" and c: "length (pre @ enc_dentry e t @ post) \<le> c"
  shows "decode_dentry (buf_of c (pre @ enc_dentry e t @ post)) i = Inr (of_nat (enc_size (length (name e))), e)"
proof -
  let ?b = "buf_of c (pre @ enc_dentry e t @ post)"
  have len: "length (name e) = unat (namelen e)" using v by (simp add: valid_dentry_def)
  have eq: "enc_dentry e t = be_enc 8 (ino e) @ [namelen e] @ name e @ [ftype e] @ t" by (simp add: enc_dentry_def)
  obtain u where u: "be_enc 8 (ino e) = be_enc 2 (drop_bit 48 (ino e)) @ u" and ul: "length u = 6"
  proof
    show "be_enc 8 (ino e) = be_enc 2 (drop_bit 48 (ino e)) @ drop 2 (be_enc 8 (ino e))"
      by (simp only: be_enc_high [symmetric] append_take_drop_id)
  qed simp
  have tag: "rdn ?b i 2 = Inr (be_enc 2 (drop_bit 48 (ino e)))"
    using rdn_mid [of pre i "be_enc 2 (drop_bit 48 (ino e))" 2 "u @ [namelen e] @ name e @ [ftype e] @ t @ post" c]
      i c ul by (simp add: eq u)
  have r1: "rdn ?b i 8 = Inr (be_enc 8 (ino e))"
    using rdn_mid [of pre i "be_enc 8 (ino e)" 8 "[namelen e] @ name e @ [ftype e] @ t @ post" c]
      i c by (simp add: eq)
  have r2: "rd8 ?b (i + 8) = Inr (namelen e)"
    using rd8_mid [of "pre @ be_enc 8 (ino e)" "i + 8" "namelen e" "name e @ [ftype e] @ t @ post" c]
      i c by (simp add: eq)
  have r3: "rdn ?b (i + 9) (unat (namelen e)) = Inr (name e)"
    using rdn_mid [of "pre @ be_enc 8 (ino e) @ [namelen e]" "i + 9" "name e" "unat (namelen e)" "[ftype e] @ t @ post" c]
      i c len by (simp add: eq)
  have r4: "rd8 ?b (i + 9 + unat (namelen e)) = Inr (ftype e)"
    using rd8_mid [of "pre @ be_enc 8 (ino e) @ [namelen e] @ name e" "i + 9 + unat (namelen e)" "ftype e" "t @ post" c]
      i c len by (simp add: eq)
  have size: "((12 + ucast (namelen e) + 7) div 8 * 8 :: u16) = of_nat (enc_size (length (name e)))"
    using dentry_size_nat [of "namelen e"] len by (simp only: enc_size_def)
  show ?thesis
    using be16_of_enc [OF tag] high_bits_of_ino v r2 r3 r4 size
    by (simp add: decode_dentry_def be64_enc [OF r1] valid_dentry_def)
qed

text \<open>Behind the last entry the block is zero, which reads as an entry with inode number 0.\<close>

lemma decode_zero_dentry:
  assumes "length bs = i" and "i + 10 \<le> c"
  shows "decode_dentry (buf_of c bs) i = Inr (of_nat (enc_size 0), 0)"
proof -
  let ?b = "buf_of c bs"
  have z: "rdn ?b (i + j) n = Inr (replicate n 0)" if "i + j + n \<le> c" for j n
    using that assms by (auto simp: rdn_def buf_of_def intro: nth_equalityI)
  have w: "(be_word (replicate n 0) :: 'a::len word) = 0" for n
    by (induction n) (simp_all add: be_word_def)
  have "be16 ?b i = Inr 0" "be64 ?b i = Inr 0"
    using z [of 0 2] z [of 0 8] assms by (simp_all add: be_defs w del: replicate.simps)
  moreover have "rd8 ?b (i + 8) = Inr 0" "rd8 ?b (i + 9) = Inr 0" "rdn ?b (i + 9) 0 = Inr []"
    using assms by (simp_all add: rd8_def buf_of_def)
  ultimately show ?thesis
    using dentry_size_nat [of 0]
    by (simp add: decode_dentry_def enc_size_def zero_xal_inode_ext_def)
qed

lemma enc_size_small: "len < 256 \<Longrightarrow> unat (of_nat (enc_size len) :: u16) = enc_size len"
  by (intro unat_of_nat_small) (simp add: enc_size_def)

lemma decode_free_dentry:
  assumes "length pre = i" and "length (pre @ 255 # 255 # n1 # n2 # rest) \<le> c"
  shows "\<exists>n. decode_dentry (buf_of c (pre @ 255 # 255 # n1 # n2 # rest)) i = Inr (n, 0)"
proof -
  have "rdn (buf_of c (pre @ 255 # 255 # n1 # n2 # rest)) i 2 = Inr [255, 255]"
    using rdn_mid [of pre i "[255, 255]" 2 "n1 # n2 # rest" c] assms by simp
  moreover have "rdn (buf_of c (pre @ 255 # 255 # n1 # n2 # rest)) (i + 2) 2 = Inr [n1, n2]"
    using rdn_mid [of "pre @ [255, 255]" "i + 2" "[n1, n2]" 2 rest c] assms by simp
  ultimately show ?thesis by (simp add: decode_dentry_def be16_def) (simp add: be_word_def)
qed

lemma dblock_entries_end:
  assumes "length pre \<le> limit" and "length (pre @ tail) \<le> c" and "block_end limit c (length pre) tail"
  shows "dblock_entries env limit (buf_of c (pre @ tail)) self (length pre) x = (Inr (), x)"
proof (cases "limit \<le> length pre")
  case False
  have "\<exists>n. decode_dentry (buf_of c (pre @ tail)) (length pre) = Inr (n, 0)"
    using assms(3) unfolding block_end_def
  proof (elim disjE conjE exE)
    assume "tail = []" "length pre + 10 \<le> c"
    then show ?thesis using decode_zero_dentry [of pre "length pre" c] by simp
  next
    fix n1 n2 rest assume t: "tail = 255 # 255 # n1 # n2 # rest"
    show ?thesis unfolding t by (rule decode_free_dentry) (use assms(2) t in simp_all)
  qed (use False in simp)
  then obtain n where "decode_dentry (buf_of c (pre @ tail)) (length pre) = Inr (n, 0)" ..
  then show ?thesis by (subst dblock_entries.simps) simp
qed (simp add: dblock_entries.simps)

lemma dblock_entries_written:
  assumes "\<forall>(e, t) \<in> set ds. valid_dentry e t"
    and "length (pre @ enc_dentries ds) \<le> limit" and "length (pre @ enc_dentries ds @ tail) \<le> c"
    and "block_end limit c (length (pre @ enc_dentries ds)) tail"
  shows "dblock_entries env limit (buf_of c (pre @ enc_dentries ds @ tail)) self (length pre) x
    = for_each (add_dentry env self) (filter (\<lambda>e. \<not> is_dot_entry e) (map fst ds)) x"
  using assms
proof (induction ds arbitrary: pre x)
  case Nil
  then show ?case using dblock_entries_end [of pre limit tail c] by simp
next
  case (Cons d ds)
  obtain e t where d: "d = (e, t)" by (cases d)
  have v: "valid_dentry e t" using Cons.prems(1) d by simp
  have len: "length (name e) < 256"
    using v unsigned_less [of "namelen e"] by (simp add: valid_dentry_def)
  have pos: "0 < length (enc_dentry e t)" using v by (simp add: enc_dentry_length enc_size_def)
  have lt: "\<not> limit \<le> length pre"
    using Cons.prems(2) pos unfolding d enc_dentries_simps length_append by linarith
  have dec: "decode_dentry (buf_of c (pre @ enc_dentries (d # ds) @ tail)) (length pre)
      = Inr (of_nat (enc_size (length (name e))), e)"
    using decode_enc_dentry [OF v refl, of pre "enc_dentries ds @ tail" c] Cons.prems(3) by (simp add: d)
  have r: "dblock_entries env limit (buf_of c (pre @ enc_dentries (d # ds) @ tail)) self (length pre + enc_size (length (name e)))
      = for_each (add_dentry env self) (filter (\<lambda>e. \<not> is_dot_entry e) (map fst ds))"
    using Cons.IH [of "pre @ enc_dentry e t"] Cons.prems enc_dentry_length [OF v] by (intro ext) (simp add: d)
  have "ino e \<noteq> 0" "namelen e \<noteq> 0" using v by (auto simp: valid_dentry_def)
  then show ?case
    using lt dec r enc_size_small [OF len] by (subst dblock_entries.simps) (simp add: d)
qed

section \<open>Short-form directories\<close>

text \<open>An entry with an inode number of \<open>w\<close> bytes (4 or 8); the two bytes of the offset are not read.\<close>

definition enc_sf :: "nat \<Rightarrow> xal_inode \<Rightarrow> u8 list" where
  "enc_sf w e = [namelen e, 0, 0] @ name e @ [ftype e] @ be_enc w (ino e)"

definition valid_sf :: "nat \<Rightarrow> xal_inode \<Rightarrow> bool" where
  "valid_sf w e \<longleftrightarrow> length (name e) = unat (namelen e) \<and> unat (ino e) < 256 ^ w"

lemma be32_of_enc:
  assumes "rdn b i 4 = Inr (be_enc 4 (v :: u64))" and "unat v < 256 ^ 4"
  shows "be32 b i = Inr (ucast v)"
proof -
  have "unat (be_word (be_enc 4 v) :: u32) = unat (ucast v :: u32)"
    using assms(2) by (simp add: be_word_of_nat be_nat_be_enc unat_of_nat unat_ucast_mod take_bit_eq_mod)
  then have "(be_word (be_enc 4 v) :: u32) = ucast v" using unsigned_word_eqI by blast
  with assms show ?thesis by (simp add: be32_def)
qed

text \<open>
  Entries of one width are decoded as written: the count of wide entries is 0 for entries with
  four-byte numbers, and at least the number of entries for wide ones.
\<close>

definition sf_width :: "u8 \<Rightarrow> nat" where
  "sf_width i8 = (if i8 = 0 then 4 else 8)"

lemma sf_entries_one:
  assumes "rd8 b cur = Inr nl" and "rdn b (cur + 3) (unat nl) = Inr nm"
    and "rd8 b (cur + 3 + unat nl) = Inr ft"
    and "(if i8 \<noteq> 0 then be64 b (cur + 3 + unat nl + 1)
          else sbind (be32 b (cur + 3 + unat nl + 1)) (\<lambda>w. Inr (ucast w))) = Inr v"
  shows "sf_entries b (Suc n) slot cur i8 x =
    sf_entries b n (slot + 1) (cur + 3 + unat nl + 1 + sf_width i8) (if i8 \<noteq> 0 then i8 - 1 else i8)
      (mod_inode slot (\<lambda>d. d\<lparr>namelen := nl, name := nm @ drop (unat nl) (name d), ftype := ft, ino := v\<rparr>) x)"
  using assms by (cases "i8 = 0") (simp_all add: sf_width_def Let_def)

lemma sf_entries_decode:
  assumes "xfs_good env x" and "slot + length es \<le> itop x"
    and "\<forall>e \<in> set es. valid_sf (sf_width i8) e" and "i8 = 0 \<or> length es \<le> unat i8"
    and "\<forall>k < length es. name (imem x (slot + k)) = []"
    and "length (pre @ concat (map (enc_sf (sf_width i8)) es) @ post) \<le> c"
  shows "\<exists>x'. sf_entries (buf_of c (pre @ concat (map (enc_sf (sf_width i8)) es) @ post)) (length es)
      slot (length pre) i8 x = (Inr (), x') \<and>
    (\<forall>k < length es. imem x' (slot + k) = (imem x (slot + k))
       \<lparr>namelen := namelen (es ! k), name := name (es ! k), ftype := ftype (es ! k), ino := ino (es ! k)\<rparr>) \<and>
    (\<forall>j < slot. imem x' j = imem x j)"
  using assms
proof (induction es arbitrary: pre slot i8 x)
  case Nil
  then show ?case by simp
next
  case (Cons e es)
  let ?w = "sf_width i8"
  let ?rest = "concat (map (enc_sf ?w) es) @ post"
  let ?b = "buf_of c (pre @ concat (map (enc_sf ?w) (e # es)) @ post)"
  have v: "length (name e) = unat (namelen e)" "unat (ino e) < 256 ^ ?w"
    using Cons.prems(3) by (auto simp: valid_sf_def)
  have w8: "?w \<le> 8" by (simp add: sf_width_def)
  have eq: "pre @ concat (map (enc_sf ?w) (e # es)) @ post
      = pre @ [namelen e, 0, 0] @ name e @ [ftype e] @ be_enc ?w (ino e) @ ?rest"
    by (simp add: enc_sf_def)
  have c: "length (pre @ [namelen e, 0, 0] @ name e @ [ftype e] @ be_enc ?w (ino e) @ ?rest) \<le> c"
    using Cons.prems(6) by (simp only: eq)
  have r1: "rd8 ?b (length pre) = Inr (namelen e)"
    unfolding eq using rd8_mid [of pre "length pre" "namelen e" "[0, 0] @ name e @ [ftype e] @ be_enc ?w (ino e) @ ?rest" c] c by simp
  have r2: "rdn ?b (length pre + 3) (unat (namelen e)) = Inr (name e)"
    unfolding eq using rdn_mid [of "pre @ [namelen e, 0, 0]" "length pre + 3" "name e" "unat (namelen e)"
        "[ftype e] @ be_enc ?w (ino e) @ ?rest" c] c v(1) by simp
  have r3: "rd8 ?b (length pre + 3 + unat (namelen e)) = Inr (ftype e)"
    unfolding eq using rd8_mid [of "pre @ [namelen e, 0, 0] @ name e" "length pre + 3 + unat (namelen e)" "ftype e"
        "be_enc ?w (ino e) @ ?rest" c] c v(1) by simp
  have r4: "rdn ?b (length pre + 3 + unat (namelen e) + 1) ?w = Inr (be_enc ?w (ino e))"
    unfolding eq using rdn_mid [of "pre @ [namelen e, 0, 0] @ name e @ [ftype e]" "length pre + 3 + unat (namelen e) + 1"
        "be_enc ?w (ino e)" ?w ?rest c] c v(1) by simp
  have num: "(if i8 \<noteq> 0 then be64 ?b (length pre + 3 + unat (namelen e) + 1)
       else sbind (be32 ?b (length pre + 3 + unat (namelen e) + 1)) (\<lambda>w. Inr (ucast w))) = Inr (ino e)"
  proof (cases "i8 = 0")
    case True
    have "unat (ucast (ucast (ino e) :: u32) :: u64) = unat (ino e)"
      using v(2) True by (simp add: unat_ucast_mod sf_width_def)
    then have "(ucast (ucast (ino e) :: u32) :: u64) = ino e" using unsigned_word_eqI by blast
    moreover have "be32 ?b (length pre + 3 + unat (namelen e) + 1) = Inr (ucast (ino e))"
      using be32_of_enc r4 v(2) True by (simp add: sf_width_def)
    ultimately show ?thesis using True by simp
  next
    case False
    then show ?thesis using be64_enc r4 by (simp add: sf_width_def)
  qed
  define x1 where "x1 = mod_inode slot (\<lambda>d. d\<lparr>namelen := namelen e,
       name := name e @ drop (unat (namelen e)) (name d), ftype := ftype e, ino := ino e\<rparr>) x"
  let ?i8 = "if i8 \<noteq> 0 then i8 - 1 else i8"
  have step: "sf_entries ?b (length (e # es)) slot (length pre) i8 x =
      sf_entries ?b (length es) (slot + 1) (length pre + 3 + unat (namelen e) + 1 + ?w) ?i8 x1"
    using sf_entries_one [OF r1 r2 r3 num, of "length es" slot x] by (simp only: x1_def length_Cons)
  have pos: "length pre + 3 + unat (namelen e) + 1 + ?w = length (pre @ enc_sf ?w e)"
    using v(1) by (simp add: enc_sf_def)
  have i8: "?i8 = 0 \<or> length es \<le> unat ?i8" and same: "es = [] \<or> sf_width ?i8 = ?w"
  proof -
    have "unat (i8 - 1) = unat i8 - 1" if "i8 \<noteq> 0" using that by (rule unat_minus_one)
    then show "?i8 = 0 \<or> length es \<le> unat ?i8" using Cons.prems(4) by auto
    show "es = [] \<or> sf_width ?i8 = ?w"
    proof (cases "i8 = 0 \<or> es = []")
      case False
      then have "2 \<le> unat i8" using Cons.prems(4) by (cases es) auto
      then have "unat (i8 - 1) \<noteq> 0" using False by (simp add: unat_minus_one)
      then have "i8 - 1 \<noteq> 0" by (metis unat_0)
      then show ?thesis using False by (simp add: sf_width_def)
    qed auto
  qed
  have rest: "concat (map (enc_sf (sf_width ?i8)) es) = concat (map (enc_sf ?w) es)"
    using same by auto
  have buf: "?b = buf_of c ((pre @ enc_sf ?w e) @ concat (map (enc_sf (sf_width ?i8)) es) @ post)"
    unfolding rest by simp
  have g1: "xfs_good env x1" using Cons.prems(1,2) unfolding x1_def by (intro mod_inode_good) auto
  have "\<exists>x'. sf_entries (buf_of c ((pre @ enc_sf ?w e) @ concat (map (enc_sf (sf_width ?i8)) es) @ post)) (length es)
      (slot + 1) (length (pre @ enc_sf ?w e)) ?i8 x1 = (Inr (), x') \<and>
    (\<forall>k < length es. imem x' (slot + 1 + k) = (imem x1 (slot + 1 + k))
       \<lparr>namelen := namelen (es ! k), name := name (es ! k), ftype := ftype (es ! k), ino := ino (es ! k)\<rparr>) \<and>
    (\<forall>j < slot + 1. imem x' j = imem x1 j)"
  proof (rule Cons.IH [OF g1 _ _ i8])
    show "slot + 1 + length es \<le> itop x1" using Cons.prems(2) by (simp add: x1_def)
    show "\<forall>e \<in> set es. valid_sf (sf_width ?i8) e" using Cons.prems(3) same by auto
    show "\<forall>k < length es. name (imem x1 (slot + 1 + k)) = []"
      using Cons.prems(5) by (auto simp: x1_def)
    show "length ((pre @ enc_sf ?w e) @ concat (map (enc_sf (sf_width ?i8)) es) @ post) \<le> c"
      using Cons.prems(6) unfolding rest by simp
  qed
  then obtain x' where run: "sf_entries ?b (length es) (slot + 1) (length (pre @ enc_sf ?w e)) ?i8 x1 = (Inr (), x')"
    and new: "\<forall>k < length es. imem x' (slot + 1 + k) = (imem x1 (slot + 1 + k))
       \<lparr>namelen := namelen (es ! k), name := name (es ! k), ftype := ftype (es ! k), ino := ino (es ! k)\<rparr>"
    and old: "\<forall>j < slot + 1. imem x' j = imem x1 j"
    unfolding buf by blast
  have n0: "name (imem x slot) = []" using Cons.prems(5) by auto
  have "imem x' (slot + k) = (imem x (slot + k))
       \<lparr>namelen := namelen ((e # es) ! k), name := name ((e # es) ! k), ftype := ftype ((e # es) ! k),
        ino := ino ((e # es) ! k)\<rparr>" if "k < length (e # es)" for k
  proof (cases k)
    case 0
    then show ?thesis using old n0 by (simp add: x1_def)
  next
    case (Suc k')
    then show ?thesis using new that by (auto simp: x1_def)
  qed
  moreover have "imem x' j = imem x j" if "j < slot" for j using old that by (simp add: x1_def)
  moreover have "sf_entries ?b (length (e # es)) slot (length pre) i8 x = (Inr (), x')"
    using run by (simp only: step pos)
  ultimately show ?case by blast
qed

section \<open>Properties\<close>

definition demo_entry :: "u64 \<Rightarrow> string \<Rightarrow> u8 \<Rightarrow> xal_inode" where
  "demo_entry i s t = \<lparr>ino = i, isize = 0, content = 0, ftype = t, namelen = of_nat (length s),
     name = bytes_of s, parent_idx = 0\<rparr>"

lemma dentry_no_content: "content (0\<lparr>ino := i, namelen := l, name := n, ftype := t\<rparr>) = 0"
  by (simp add: zero_xal_inode_ext_def)

text \<open>The two entries with padding and tags as they stand at the offsets 64 and 80.\<close>

definition demo_block :: "(xal_inode \<times> u8 list) list" where
  "demo_block = [(demo_entry 5 ''.'' 2, [0, 0, 0, 0, 64]), (demo_entry 7 ''ab'' 1, [0, 0, 0, 80])]"

lemma demo_block_valid: "\<forall>(e, t) \<in> set demo_block. valid_dentry e t"
  by (simp add: demo_block_def valid_dentry_def demo_entry_def bytes_of_def enc_size_def zero_xal_inode_ext_def)

text \<open>
  C36 (directory blocks round trip). A directory block holds entries one after the other from offset 64,
  each padded and tagged, and behind them a free region, zeros or nothing. The loop over such a block
  adds exactly these entries to the pool, in their order and without those for the directory itself and
  its parent, each with the directory as its parent and with the bytes that were written; it fails
  exactly where adding one of them fails.
\<close>

theorem dir_block_roundtrip:
  assumes "\<forall>(e, t) \<in> set ds. valid_dentry e t" and "length hdr = 64"
    and "length (hdr @ enc_dentries ds) \<le> limit" and "length (hdr @ enc_dentries ds @ tail) \<le> c"
    and "block_end limit c (length (hdr @ enc_dentries ds)) tail"
    and "xfs_good env x" and "self < itop x" and "es = filter (\<lambda>e. \<not> is_dot_entry e) (map fst ds)"
    and "dblock_entries env limit (buf_of c (hdr @ enc_dentries ds @ tail)) self 64 x = (r, x')"
  shows "for_each (add_dentry env self) es x = (r, x') \<and>
    (r = Inr () \<longrightarrow> itop x' = itop x + length es \<and>
       (\<forall>k < length es. imem x' (itop x + k) = (es ! k)\<lparr>parent_idx := of_nat self\<rparr>) \<and>
       c_count (content (imem x' self)) = c_count (content (imem x self)) + of_nat (length es) \<and>
       (\<forall>j < itop x. j \<noteq> self \<longrightarrow> imem x' j = imem x j))"
proof -
  have run: "for_each (add_dentry env self) es x = (r, x')"
    using dblock_entries_written [OF assms(1,3-5), of env self x] assms(2,8,9) by simp
  have "content e = 0" if "valid_dentry e t" for e t
  proof -
    have "e = 0\<lparr>ino := ino e, namelen := namelen e, name := name e, ftype := ftype e\<rparr>"
      using that by (simp add: valid_dentry_def)
    then show ?thesis by (metis dentry_no_content)
  qed
  then have "\<forall>e \<in> set es. c_count (content e) = 0"
    using assms(1,8) by (fastforce simp: zero_xal_content_ext_def)
  from add_dentries_filled [OF this assms(6,7)] add_dentries_appended [OF assms(6,7)] run
  show ?thesis by (cases r) (auto simp: appended_def dir_filled_def)
qed

theorem dir_block_roundtrip_witness:
  "\<exists>x'. dblock_entries two_env 4096 (buf_of 65536 (replicate 64 0 @ enc_dentries demo_block @
        [255, 255, 15, 160] @ replicate 3996 0)) 0 64
        (two_state 1 ((\<lambda>_. 0)(0 := two_root 1 0)) (two_extents 0 0 (\<lambda>_. 0))) = (Inr (), x') \<and>
     itop x' = 2 \<and> name (imem x' 1) = bytes_of ''ab''"
proof -
  let ?x = "two_state 1 ((\<lambda>_. 0)(0 := two_root 1 0)) (two_extents 0 0 (\<lambda>_. 0))"
  let ?tail = "[255, 255, 15, 160] @ replicate 3996 (0 :: u8)"
  let ?es = "[demo_entry 7 ''ab'' 1]"
  have es: "?es = filter (\<lambda>e. \<not> is_dot_entry e) (map fst demo_block)"
    by (simp add: demo_block_def is_dot_entry_def demo_entry_def bytes_of_def)
  have l: "length (enc_dentries demo_block) = 32"
    by (simp add: demo_block_def enc_dentry_def demo_entry_def bytes_of_def)
  obtain x' r where run: "dblock_entries two_env 4096 (buf_of 65536 (replicate 64 0 @ enc_dentries demo_block @ ?tail)) 0 64 ?x = (r, x')"
    by fastforce
  have "formats_known ?x"
    by (auto simp: formats_known_def two_state_def two_dinodes_def rd8_def word_le_nat_alt split: if_splits)
  then have good: "xfs_good two_env ?x"
    by (auto simp: xfs_good_def two_state_def two_extents_def two_env_def demo_env_def demo_os_def
        pool_wf_def mprotect_bounded_def pool_room_def pool_bytes_def word_le_nat_alt split: if_splits)
  have top: "itop ?x = 1" by (simp add: two_state_def)
  have e: "block_end 4096 65536 n ?tail" for n by (simp add: block_end_def)
  have "for_each (add_dentry two_env 0) ?es ?x = (r, x') \<and> (r = Inr () \<longrightarrow> itop x' = itop ?x + length ?es \<and>
      (\<forall>k < length ?es. imem x' (itop ?x + k) = (?es ! k)\<lparr>parent_idx := of_nat 0\<rparr>))"
    using dir_block_roundtrip [OF demo_block_valid _ _ _ e good _ es run] by (simp add: l top del: replicate.simps)
  moreover have "\<exists>y. for_each (add_dentry two_env 0) ?es ?x = (Inr (), y)"
    by (simp add: add_dentry_def two_claim_child)
  ultimately show ?thesis using run top by (auto simp: demo_entry_def)
qed

text \<open>
  Note (a free entry hides the rest of the block). When the entry at the current offset is
  a free one (its first two bytes are 0xffff, its length follows), the loop stops and reports
  success: the decoded inode number of a free entry is zero, so the length that was read to step
  over it is not used, and whatever entries follow it in the block are lost.
\<close>

theorem free_entry_ends_block:
  assumes "ofz < limit" and "be16 b ofz = Inr 0xffff" and "be16 b (ofz + 2) = Inr len"
  shows "dblock_entries env limit b self ofz x = (Inr (), x)"
  using assms by (subst dblock_entries.simps) (simp add: decode_dentry_def)

theorem free_entry_ends_block_witness:
  "dblock_entries two_env 4096 (buf_of 65536 (replicate 64 0 @ [255, 255, 0, 16] @ replicate 12 0 @
     enc_dentries demo_block)) 0 64 two_xal = (Inr (), two_xal)"
proof (rule free_entry_ends_block)
  let ?bs = "replicate 64 0 @ [255, 255, 0, 16] @ replicate 12 0 @ enc_dentries demo_block"
  have l: "length ?bs = 112"
    by (simp add: demo_block_def enc_dentry_def demo_entry_def bytes_of_def del: replicate.simps)
  show "be16 (buf_of 65536 ?bs) 64 = Inr 0xffff"
    using rdn_mid [of "replicate 64 0" 64 "[255, 255]" 2 "[0, 16] @ replicate 12 0 @ enc_dentries demo_block" 65536] l
    by (simp add: be16_def be_word_def del: replicate.simps)
  show "be16 (buf_of 65536 ?bs) (64 + 2) = Inr 16"
    using rdn_mid [of "replicate 64 0 @ [255, 255]" 66 "[0, 16]" 2 "replicate 12 0 @ enc_dentries demo_block" 65536] l
    by (simp add: be16_def be_word_def del: replicate.simps)
qed simp

text \<open>
  Note (a block with a wrong magic number is an empty block). When the read succeeds but
  the block does not start with either magic number of directory blocks, the function logs a
  failure and returns \<open>err\<close>, which is 0: the caller goes on as if the block had no entries.
\<close>

theorem bad_magic_reported_as_success:
  assumes "read_block env (ucast (dirblocksize (sb x))) (xal_fsbno_offset x fsbno) x = (Inr b, y)"
    and "be32 b 0 = Inr magic" and "magic \<notin> {XAL_ODF_DIR3_DATA_MAGIC, XAL_ODF_DIR3_BLOCK_MAGIC}"
  shows "process_dinode_dir_extents_dblock env fsbno self x = (Inr (), y) \<and> inodes y = inodes x"
  using assms by (auto simp: process_dinode_dir_extents_dblock_def read_block_def split: prod.splits)

theorem bad_magic_reported_as_success_witness:
  "\<exists>y. process_dinode_dir_extents_dblock leaf_env 1 0 (leaf_xal\<lparr>sb := (sb leaf_xal)\<lparr>dirblocksize := 88\<rparr>\<rparr>)
     = (Inr (), y)"
proof -
  let ?x = "leaf_xal\<lparr>sb := (sb leaf_xal)\<lparr>dirblocksize := 88\<rparr>\<rparr>"
  let ?b = "\<lparr>cap = ODF_BLOCK_FS_BYTES_MAX, bytes = (\<lambda>j. if j < 88 then leaf_disk (88 + j) else 0)\<rparr>"
  let ?io = "\<lparr>cap = BUF_NBYTES, bytes = (\<lambda>j. if j < 88 then leaf_disk (88 + j) else 0)\<rparr>"
  have rd: "dev_read_into leaf_env 88 88 (buf_of ODF_BLOCK_FS_BYTES_MAX []) (buf_of BUF_NBYTES []) = (Inr ?b, ?io)"
    by (subst dev_read_into_eq [where data = "map leaf_disk [88..<176]"])
      (simp_all add: leaf_env_def two_env_def demo_env_def buf_of_def del: upt_rec_numeral cong: if_cong)
  have ofz: "xal_fsbno_offset ?x 1 = 88"
    by (simp add: xal_fsbno_offset_def leaf_xal_def agblk_mask_int_eq Let_def mask_eq_exp_minus_1
        del: exp_minus_1_mask)
  have r: "read_block leaf_env (ucast (dirblocksize (sb ?x))) (xal_fsbno_offset ?x 1) ?x
      = (Inr ?b, ?x\<lparr>io_buf := ?io\<rparr>)"
  proof -
    have "io_buf ?x = buf_of BUF_NBYTES []" by (simp add: leaf_xal_def)
    then show ?thesis unfolding read_block_def ofz using rd by simp
  qed
  have "be32 ?b 0 = Inr 0x424d4133" by (simp add: leaf_disk_def be_defs rdn_def be_word_def upt_small)
  from bad_magic_reported_as_success [OF r this] show ?thesis by auto
qed

text \<open>
  Note (short-form directories round trip). The entries of a short-form directory whose
  inode numbers all have the same width (the count of wide entries is 0, or at least the number of
  entries) are decoded as they were written, into the claimed slots, in order.
\<close>

theorem short_form_roundtrip:
  assumes "xfs_good env x" and "slot + length es \<le> itop x"
    and "\<forall>e \<in> set es. valid_sf (sf_width i8) e" and "i8 = 0 \<or> length es \<le> unat i8"
    and "\<forall>k < length es. name (imem x (slot + k)) = []"
    and "length (pre @ concat (map (enc_sf (sf_width i8)) es) @ post) \<le> c"
  shows "\<exists>x'. sf_entries (buf_of c (pre @ concat (map (enc_sf (sf_width i8)) es) @ post)) (length es)
      slot (length pre) i8 x = (Inr (), x') \<and>
    (\<forall>k < length es. ino (imem x' (slot + k)) = ino (es ! k) \<and> name (imem x' (slot + k)) = name (es ! k) \<and>
       namelen (imem x' (slot + k)) = namelen (es ! k) \<and> ftype (imem x' (slot + k)) = ftype (es ! k)) \<and>
    (\<forall>j < slot. imem x' j = imem x j)"
  using sf_entries_decode [OF assms] by auto

theorem short_form_roundtrip_witness:
  "\<exists>x'. sf_entries (buf_of 512 (replicate 182 0 @ concat (map (enc_sf 4) [demo_entry 7 ''ab'' 1]) @ [])) (length [demo_entry 7 ''ab'' 1])
      1 (length (replicate 182 (0 :: u8))) 0 (two_state 2 (\<lambda>_. 0) (two_extents 0 0 (\<lambda>_. 0))) = (Inr (), x') \<and>
     ino (imem x' 1) = 7 \<and> name (imem x' 1) = bytes_of ''ab''"
proof -
  let ?x = "two_state 2 (\<lambda>_. 0) (two_extents 0 0 (\<lambda>_. 0))"
  have "formats_known ?x"
    by (auto simp: formats_known_def two_state_def two_dinodes_def rd8_def word_le_nat_alt split: if_splits)
  then have good: "xfs_good two_env ?x"
    by (auto simp: xfs_good_def two_state_def two_extents_def two_env_def demo_env_def demo_os_def
        pool_wf_def mprotect_bounded_def pool_room_def pool_bytes_def word_le_nat_alt split: if_splits)
  have w: "sf_width 0 = 4" by (simp add: sf_width_def)
  have v: "valid_sf 4 (demo_entry 7 ''ab'' 1)" by (simp add: valid_sf_def demo_entry_def bytes_of_def)
  have l: "length (enc_sf 4 (demo_entry 7 ''ab'' 1)) = 10" by (simp add: enc_sf_def demo_entry_def bytes_of_def)
  have t: "itop ?x = 2" "imem ?x 1 = 0" by (simp_all add: two_state_def)
  from short_form_roundtrip [OF good, of 1 "[demo_entry 7 ''ab'' 1]" 0 "replicate 182 0" "[]" 512] w v l t
  show ?thesis by (auto simp: demo_entry_def simp del: sf_entries.simps replicate.simps)
qed

end
