(* ===== verification/Xal_Open.thy ===== *)
theory Xal_Open
  imports Xal_Protocol Xal_Xfs_Dirs
begin

text \<open>
  Opening and closing as the caller sees it (src/xal.c: retrieve_mountpoint, xal_open; the close
  functions of the backends): the table of mounts decides the backend, and an opened xal can be
  indexed and searched. The device, the table of mounts and the shared memory calls are parameters.
\<close>

section \<open>The mountpoint of a device\<close>

text \<open>
  \<open>fscanf(f, "%s %s%*[^\n]\n", d, m)\<close> on the bytes of the file: two words, then the rest of the line.
  The arrays \<open>d\<close> and \<open>m\<close> hold \<open>XAL_PATH_MAXLEN\<close> bytes and a NUL.
\<close>

definition is_space :: "u8 \<Rightarrow> bool" where
  "is_space b \<longleftrightarrow> 9 \<le> b \<and> b \<le> 13 \<or> b = 32"

definition scan_word :: "cstr \<Rightarrow> cstr \<times> cstr" where
  "scan_word bs =
     (let bs = dropWhile is_space bs
      in (takeWhile (\<lambda>b. \<not> is_space b) bs, dropWhile (\<lambda>b. \<not> is_space b) bs))"

definition skip_line :: "cstr \<Rightarrow> cstr" where
  "skip_line bs = dropWhile is_space (dropWhile (\<lambda>b. b \<noteq> 10) bs)"

lemma scan_word_length:
  "scan_word bs = (w, rest) \<Longrightarrow> length rest + length w \<le> length bs"
proof -
  have "length (takeWhile P xs) + length (dropWhile P xs) = length xs" for P and xs :: cstr
    by (metis length_append takeWhile_dropWhile_id)
  then show "scan_word bs = (w, rest) \<Longrightarrow> length rest + length w \<le> length bs"
    using length_dropWhile_le [of is_space bs] by (auto simp: scan_word_def Let_def add.commute)
qed

lemma skip_line_length: "length (skip_line bs) \<le> length bs"
  unfolding skip_line_def using length_dropWhile_le le_trans by blast

function find_mount :: "cstr \<Rightarrow> cstr \<Rightarrow> fail + cstr option" where
  "find_mount uri bs =
     (let (d, bs1) = scan_word bs
      in if d = [] then Inr None
         else if XAL_PATH_MAXLEN < length d then Inl (Fault OutOfBounds)
         else let (m, bs2) = scan_word bs1
              in if m = [] then Inr None
                 else if XAL_PATH_MAXLEN < length m then Inl (Fault OutOfBounds)
                 else if strcmp (cstr_of d) uri = 0 then Inr (Some (cstr_of m))
                 else find_mount uri (skip_line bs2))"
  by pat_completeness auto
termination
proof (relation "measure (\<lambda>(uri, bs). length bs)")
  fix uri bs p d bs1 q m bs2
  assume "p = scan_word bs" "(d, bs1) = p" "d \<noteq> []" "q = scan_word bs1" "(m, bs2) = q"
  then have "length bs1 + length d \<le> length bs" "length bs2 + length m \<le> length bs1"
    using scan_word_length [of bs d bs1] scan_word_length [of bs1 m bs2] by simp_all
  moreover have "0 < length d" using \<open>d \<noteq> []\<close> by simp
  ultimately have "length (skip_line bs2) < length bs" using skip_line_length [of bs2] by linarith
  then show "((uri, skip_line bs2), uri, bs) \<in> measure (\<lambda>(uri, bs). length bs)" by simp
qed simp

declare find_mount.simps [simp del]

text \<open>\<open>mounts\<close> is \<open>/proc/mounts\<close>: the errno of \<open>fopen\<close>, or the bytes of the file.\<close>

definition retrieve_mountpoint :: "int + cstr \<Rightarrow> cstr \<Rightarrow> fail + cstr" where
  "retrieve_mountpoint mounts dev_uri =
     (case mounts of
        Inl e \<Rightarrow> Inl (Err (- e))
      | Inr bs \<Rightarrow>
          sbind (find_mount dev_uri bs) (\<lambda>found.
            case found of None \<Rightarrow> Inl (Err (- EINVAL)) | Some m \<Rightarrow> Inr m))"

section \<open>Opening\<close>

text \<open>The part of \<open>struct xnvme_spec_idfy_ns\<close> the code reads.\<close>

record nvme_ns =
  nlbaf :: u8
  flbas_format :: u8
  flbas_format_msb :: u8
  lbaf_ds :: "nat \<Rightarrow> u8"

record open_env =
  dev_uri :: "cstr option"
  proc_mounts :: "int + cstr"
  open_fs :: fs_env
  open_xfs :: xfs_env
  dirty_shm_open :: "cstr \<Rightarrow> int + int"
  dirty_ftruncate :: int
  dirty_mmap :: "int + bool"
  dev_ns :: "int + nvme_ns"

text \<open>What \<open>*xal\<close> holds when \<open>xal_open\<close> returns: nothing was stored, a xal, or one that was closed again.\<close>

datatype handle = HandleNone | HandleOpen xal | HandleClosed xal

definition opts_default :: xal_opts where
  "opts_default = \<lparr>opt_be = XAL_BACKEND_UNSET, opt_watch_mode = XAL_WATCHMODE_NONE,
     opt_file_lookupmode = XAL_FILE_LOOKUPMODE_TRAVERSE, opt_shm_name = None\<rparr>"

text \<open>
  The choice of the backend, which is written back into the options of the caller. An error of
  \<open>retrieve_mountpoint\<close> means that the device is not mounted; the overflow of its arrays stays a fault.
\<close>

definition choose_backend :: "open_env \<Rightarrow> cstr \<Rightarrow> xal_opts \<Rightarrow> fail + (cstr \<times> xal_opts)" where
  "choose_backend env uri opts =
     (if opt_be opts = XAL_BACKEND_UNSET then
        (case retrieve_mountpoint (proc_mounts env) uri of
           Inl (Fault e) \<Rightarrow> Inl (Fault e)
         | Inl (Err e) \<Rightarrow> Inr ([], opts\<lparr>opt_be := XAL_BACKEND_XFS\<rparr>)
         | Inr m \<Rightarrow> Inr (m, opts\<lparr>opt_be := XAL_BACKEND_FIEMAP\<rparr>))
      else Inr ([], opts))"

definition open_backend :: "nat \<Rightarrow> open_env \<Rightarrow> cstr \<Rightarrow> cstr \<Rightarrow> xal_opts \<Rightarrow> fail + xal" where
  "open_backend fuel env uri mnt opts =
     (case opt_be opts of
        XAL_BACKEND_XFS \<Rightarrow> xal_be_xfs_open (open_xfs env) opts
      | XAL_BACKEND_FIEMAP \<Rightarrow>
          sbind (if mnt = [] then retrieve_mountpoint (proc_mounts env) uri else Inr mnt) (\<lambda>m.
            xal_be_fiemap_open fuel (open_fs env) (Some m) opts)
      | _ \<Rightarrow> Inl (Err (- EINVAL)))"

text \<open>The dirty flag in shared memory. Every failure closes the xal that was opened.\<close>

definition share_dirty :: "open_env \<Rightarrow> xal_opts \<Rightarrow> xal \<Rightarrow> (xal, handle) outcome" where
  "share_dirty env opts x =
     (case opt_shm_name opts of
        None \<Rightarrow> (Inr x, HandleOpen x)
      | Some nm \<Rightarrow>
          (case dirty_shm_open env (take (XAL_PATH_MAXLEN + 8) (nm @ bytes_of ''_dirty'')) of
             Inl e \<Rightarrow> (Inl (Err (- e)), HandleClosed x)
           | Inr fd \<Rightarrow>
               if dirty_ftruncate env \<noteq> 0 then (Inl (Err (- dirty_ftruncate env)), HandleClosed x)
               else (case dirty_mmap env of
                       Inl e \<Rightarrow> (Inl (Err (- e)), HandleClosed x)
                     | Inr shared_flag \<Rightarrow>
                         let x = x\<lparr>dirty := shared_flag, dirty_shm := True\<rparr> in (Inr x, HandleOpen x))))"

definition lba_blocksize :: "nvme_ns \<Rightarrow> fail + u32" where
  "lba_blocksize ns =
     (let fidx = (if 16 < nlbaf ns then flbas_format ns + push_bit 4 (flbas_format_msb ns) else flbas_format ns)
      in if 64 \<le> unat fidx then Inl (Fault OutOfBounds)
         else if 32 \<le> unat (lbaf_ds ns (unat fidx)) then Inl (Fault BadShift)
         else Inr (push_bit (unat (lbaf_ds ns (unat fidx))) 1))"

text \<open>
  \<open>xal_open\<close> with the device given or not, and the options of the caller. The state is the handle
  and the options as they are afterwards.
\<close>

definition xal_open :: "nat \<Rightarrow> open_env \<Rightarrow> bool \<Rightarrow> xal_opts option \<Rightarrow> (unit, handle \<times> xal_opts) outcome" where
  "xal_open fuel env dev opts_arg =
     (let opts = (case opts_arg of None \<Rightarrow> opts_default | Some opts \<Rightarrow> opts)
      in if \<not> dev then (Inl (Err (- EINVAL)), HandleNone, opts)
         else case dev_uri env of
           None \<Rightarrow> (Inl (Err (- EINVAL)), HandleNone, opts)
         | Some uri \<Rightarrow>
             (case choose_backend env uri opts of
                Inl e \<Rightarrow> (Inl e, HandleNone, opts)
              | Inr (mnt, opts) \<Rightarrow>
                  (case open_backend fuel env uri mnt opts of
                     Inl e \<Rightarrow> (Inl e, HandleNone, opts)
                   | Inr x \<Rightarrow>
                       (case share_dirty env opts x of
                          (Inl e, h) \<Rightarrow> (Inl e, h, opts)
                        | (Inr x, h) \<Rightarrow>
                            (case dev_ns env of
                               Inl e \<Rightarrow> (Inl (Err (- e)), h, opts)
                             | Inr ns \<Rightarrow>
                                 (case lba_blocksize ns of
                                    Inl e \<Rightarrow> (Inl e, h, opts)
                                  | Inr n \<Rightarrow> (Inr (), HandleOpen (x\<lparr>sb := (sb x)\<lparr>lba_blksze := n\<rparr>\<rparr>), opts)))))))"

section \<open>Closing\<close>

text \<open>What the close functions of the backends release, in order, and the thread they cancel.\<close>

datatype be_release =
    FreeBuf | DestroyDinodes | FreeDinodes | FreeMountpoint | DestroyWatchMap | CloseInotify int
  | CancelThread nat | DestroyPathMap

definition xal_be_xfs_close :: "xal \<Rightarrow> be_release list" where
  "xal_be_xfs_close x = [FreeBuf, DestroyDinodes, FreeDinodes]"

text \<open>The map of watch descriptors exists once the watch mode is set.\<close>

definition xal_be_fiemap_inotify_close :: "xal_inotify \<Rightarrow> be_release list" where
  "xal_be_fiemap_inotify_close i =
     (if watch_mode i = XAL_WATCHMODE_NONE then [] else [DestroyWatchMap]) @
     (if inotify_fd i = 0 then [] else [CloseInotify (inotify_fd i)]) @
     (if inotify_flag i AND XAL_BE_FIEMAP_INOTIFY_RUNNING \<noteq> 0 then [CancelThread (watch_thread i)] else [])"

definition xal_be_fiemap_close :: "xal \<Rightarrow> be_release list" where
  "xal_be_fiemap_close x =
     [FreeMountpoint] @ (case inotify x of None \<Rightarrow> [] | Some i \<Rightarrow> xal_be_fiemap_inotify_close i) @
     (if path_inode_map x = None then [] else [DestroyPathMap])"

section \<open>The table of mounts\<close>

text \<open>A line as the kernel prints it: device, mountpoint, and the rest, in which no field has a space.\<close>

definition mount_line :: "cstr \<times> cstr \<times> cstr \<Rightarrow> cstr" where
  "mount_line e = (case e of (d, m, rest) \<Rightarrow> d @ 32 # m @ 32 # rest @ [10])"

definition mount_field :: "cstr \<Rightarrow> bool" where
  "mount_field w \<longleftrightarrow> w \<noteq> [] \<and> is_cstr w \<and> (\<forall>b \<in> set w. \<not> is_space b) \<and> length w \<le> XAL_PATH_MAXLEN"

definition mount_entry_ok :: "cstr \<times> cstr \<times> cstr \<Rightarrow> bool" where
  "mount_entry_ok e \<longleftrightarrow> (case e of (d, m, rest) \<Rightarrow> mount_field d \<and> mount_field m \<and> 10 \<notin> set rest)"

lemma space_bytes [simp]: "is_space 32" "is_space 10"
  by (simp_all add: is_space_def)

lemma scan_word_field:
  assumes "mount_field w"
  shows "scan_word (w @ 32 # bs) = (w, 32 # bs)" "scan_word (32 # w @ 32 # bs) = (w, 32 # bs)"
proof -
  have w: "\<forall>b \<in> set w. \<not> is_space b" and "w \<noteq> []" using assms by (simp_all add: mount_field_def)
  then have "dropWhile is_space (w @ 32 # bs) = w @ 32 # bs" by (cases w) auto
  moreover have "takeWhile (\<lambda>b. \<not> is_space b) (w @ 32 # bs) = w" "dropWhile (\<lambda>b. \<not> is_space b) (w @ 32 # bs) = 32 # bs"
    using w by (simp_all add: takeWhile_append2 dropWhile_append2)
  ultimately show "scan_word (w @ 32 # bs) = (w, 32 # bs)" "scan_word (32 # w @ 32 # bs) = (w, 32 # bs)"
    by (simp_all add: scan_word_def Let_def)
qed

lemma find_mount_spaces: "find_mount uri (dropWhile is_space bs) = find_mount uri bs"
proof -
  have "dropWhile is_space (dropWhile is_space bs) = dropWhile is_space bs"
    by (induction bs) auto
  then have "scan_word (dropWhile is_space bs) = scan_word bs" by (simp add: scan_word_def)
  then show ?thesis by (subst (1 2) find_mount.simps) (simp add: Let_def)
qed

lemma find_mount_line:
  assumes "mount_entry_ok (d, m, rest)"
  shows "find_mount uri (mount_line (d, m, rest) @ bs) = (if d = uri then Inr (Some m) else find_mount uri bs)"
proof -
  have d: "mount_field d" and m: "mount_field m" and rest: "10 \<notin> set rest"
    using assms by (simp_all add: mount_entry_ok_def)
  have "dropWhile (\<lambda>b. b \<noteq> 10) (32 # rest @ 10 # bs) = 10 # bs"
  proof -
    have "\<forall>b \<in> set rest. b \<noteq> 10" using rest by blast
    then have "dropWhile (\<lambda>b. b \<noteq> 10) (rest @ 10 # bs) = dropWhile (\<lambda>b. b \<noteq> 10) (10 # bs)"
      by (intro dropWhile_append2) simp
    then show ?thesis by simp
  qed
  then have "skip_line (32 # rest @ 10 # bs) = dropWhile is_space bs" by (simp add: skip_line_def)
  then show ?thesis
    using d m find_mount_spaces [of uri bs] scan_word_field(1) [OF d] scan_word_field(2) [OF m]
    by (subst find_mount.simps) (auto simp: mount_line_def mount_field_def cstr_of_id)
qed

lemma find_mount_lines:
  "\<forall>e \<in> set es. mount_entry_ok e \<Longrightarrow>
   find_mount uri (concat (map mount_line es)) = Inr (map_option (\<lambda>e. fst (snd e)) (find (\<lambda>e. fst e = uri) es))"
proof (induction es)
  case Nil
  show ?case by (subst find_mount.simps) (simp add: scan_word_def)
next
  case (Cons e es)
  obtain d m rest where "e = (d, m, rest)" by (cases e)
  with Cons find_mount_line [of d m rest uri "concat (map mount_line es)"] show ?case by simp
qed

text \<open>
  C16 (the first line of the device decides). For a table as the kernel prints it, the mountpoint
  that is retrieved is the one of the first line of the device, byte for byte, and it is an error
  when the device has no line.
\<close>

theorem mountpoint_of_first_line:
  assumes "\<forall>e \<in> set es. mount_entry_ok e"
  shows "retrieve_mountpoint (Inr (concat (map mount_line es))) uri =
    (case find (\<lambda>e. fst e = uri) es of None \<Rightarrow> Inl (Err (- EINVAL)) | Some e \<Rightarrow> Inr (fst (snd e)))"
  using find_mount_lines [OF assms] by (simp add: retrieve_mountpoint_def split: option.split)

definition mini_mounts :: "(cstr \<times> cstr \<times> cstr) list" where
  "mini_mounts = [(bytes_of ''proc'', bytes_of ''/proc'', bytes_of ''proc rw 0 0''),
     (bytes_of ''/dev/x'', mini_m, bytes_of ''xfs rw 0 0'')]"

lemma mini_mounts_ok: "\<forall>e \<in> set mini_mounts. mount_entry_ok e"
  by (simp add: mini_mounts_def mount_entry_ok_def mount_field_def is_cstr_def is_space_def bytes_of_def)

theorem mountpoint_of_first_line_witness:
  "retrieve_mountpoint (Inr (concat (map mount_line mini_mounts))) (bytes_of ''/dev/x'') = Inr mini_m"
  using mountpoint_of_first_line [OF mini_mounts_ok, of "bytes_of ''/dev/x''"]
  by (simp add: mini_mounts_def bytes_of_def)

lemma find_mount_cstr: "find_mount uri bs = Inr (Some m) \<Longrightarrow> is_cstr m"
proof (induction uri bs rule: find_mount.induct)
  case (1 uri bs)
  obtain d bs1 where d: "scan_word bs = (d, bs1)" by fastforce
  obtain w bs2 where w: "scan_word bs1 = (w, bs2)" by fastforce
  note run = "1.prems" [unfolded find_mount.simps [of uri bs] Let_def d w prod.case]
  show ?case
  proof (cases "d \<noteq> [] \<and> \<not> XAL_PATH_MAXLEN < length d \<and> w \<noteq> [] \<and> \<not> XAL_PATH_MAXLEN < length w")
    case True
    show ?thesis
    proof (cases "strcmp (cstr_of d) uri = 0")
      case True
      with run show ?thesis by (auto simp: is_cstr_cstr_of split: if_splits)
    next
      case no: False
      with run True "1.IH" [OF d [symmetric] refl _ _ w [symmetric] refl] show ?thesis by (auto split: if_splits)
    qed
  qed (use run in \<open>auto split: if_splits\<close>)
qed

lemma retrieve_mountpoint_cstr: "retrieve_mountpoint mounts uri = Inr m \<Longrightarrow> is_cstr m"
  by (auto simp: retrieve_mountpoint_def find_mount_cstr split: sum.splits option.splits elim!: sbind_InrE)

section \<open>What opening gives\<close>

lemma xal_open_InrD:
  assumes "xal_open fuel env dev (Some opts) = (Inr u, h, opts')"
  shows "\<exists>uri mnt x b x1 n. dev \<and> dev_uri env = Some uri \<and> choose_backend env uri opts = Inr (mnt, opts') \<and>
    open_backend fuel env uri mnt opts' = Inr x \<and>
    (x1 = x \<or> x1 = x\<lparr>dirty := b, dirty_shm := True\<rparr>) \<and> h = HandleOpen (x1\<lparr>sb := (sb x1)\<lparr>lba_blksze := n\<rparr>\<rparr>)"
proof -
  obtain uri where dev: "dev" "dev_uri env = Some uri"
    using assms by (auto simp: xal_open_def Let_def split: if_splits option.splits)
  obtain mnt o2 where c: "choose_backend env uri opts = Inr (mnt, o2)"
    using assms dev by (auto simp: xal_open_def Let_def split: sum.splits)
  obtain x where x: "open_backend fuel env uri mnt o2 = Inr x"
    using assms dev c by (auto simp: xal_open_def Let_def split: sum.splits)
  obtain r hh where s: "share_dirty env o2 x = (r, hh)" by fastforce
  obtain x1 where r: "r = Inr x1"
    using assms dev c x s by (auto simp: xal_open_def Let_def split: sum.splits)
  have "\<exists>b. x1 = x \<or> x1 = x\<lparr>dirty := b, dirty_shm := True\<rparr>"
    using s r by (auto simp: share_dirty_def Let_def split: option.splits sum.splits if_splits)
  moreover obtain n where "h = HandleOpen (x1\<lparr>sb := (sb x1)\<lparr>lba_blksze := n\<rparr>\<rparr>)" "opts' = o2"
    using assms dev c x s r by (auto simp: xal_open_def Let_def split: sum.splits)
  ultimately show ?thesis using dev c x by blast
qed

lemma xfs_open_type:
  assumes "pools_bounded env" and "xal_be_xfs_open env opts = Inr x"
  shows "be_type x = XAL_BACKEND_XFS"
proof -
  from xfs_open_ok [OF assms] obtain cand x1 where "be_type cand = XAL_BACKEND_XFS"
      "groups_opened cand (unat (agcount (sb cand))) x1" and x: "x = x1\<lparr>inodes := inodes x, extents := extents x\<rparr>"
    by blast
  moreover have "be_type x = be_type x1" by (subst x) simp
  ultimately show ?thesis by (auto simp: groups_opened_def)
qed

text \<open>
  C15 (the mounts decide the backend). Without a backend in the options, a successful \<open>xal_open\<close>
  takes the mounted file system when the device has a line in the table of mounts and reads the
  device when the search of the table ends with an error; it does not succeed when a field of the
  table overflows the arrays of the search. The choice is left in the options of the caller, where
  a later \<open>xal_open\<close> finds it instead of looking again.
\<close>

theorem open_chooses_backend:
  assumes "xal_open fuel env dev (Some opts) = (Inr u, h, opts')" and "opt_be opts = XAL_BACKEND_UNSET"
    and "fs_pools_bounded (open_fs env)" and "pools_bounded (open_xfs env)"
  shows "\<exists>uri x. dev_uri env = Some uri \<and> h = HandleOpen x \<and> be_type x = opt_be opts' \<and>
    (case retrieve_mountpoint (proc_mounts env) uri of
       Inl (Fault e) \<Rightarrow> False
     | Inl (Err e) \<Rightarrow> opt_be opts' = XAL_BACKEND_XFS
     | Inr m \<Rightarrow> opt_be opts' = XAL_BACKEND_FIEMAP \<and> mountpoint x = m)"
proof -
  obtain uri mnt x b x1 n where r: "dev_uri env = Some uri" "choose_backend env uri opts = Inr (mnt, opts')"
    "open_backend fuel env uri mnt opts' = Inr x" "x1 = x \<or> x1 = x\<lparr>dirty := b, dirty_shm := True\<rparr>"
    "h = HandleOpen (x1\<lparr>sb := (sb x1)\<lparr>lba_blksze := n\<rparr>\<rparr>)"
    using xal_open_InrD [OF assms(1)] by blast
  have same: "be_type x1 = be_type x" "mountpoint x1 = mountpoint x" using r(4) by auto
  show ?thesis
  proof (cases "retrieve_mountpoint (proc_mounts env) uri")
    case (Inl f)
    with r(2) assms(2) obtain e where f: "f = Err e" "opts' = opts\<lparr>opt_be := XAL_BACKEND_XFS\<rparr>"
      by (auto simp: choose_backend_def split: fail.splits)
    moreover from this r(3) have "xal_be_xfs_open (open_xfs env) opts' = Inr x" by (simp add: open_backend_def)
    from xfs_open_type [OF assms(4) this] have "be_type x = XAL_BACKEND_XFS" .
    ultimately show ?thesis using r(1,5) same Inl by simp
  next
    case (Inr m)
    then have "opts' = opts\<lparr>opt_be := XAL_BACKEND_FIEMAP\<rparr>" "mnt = m"
      using r(2) assms(2) by (simp_all add: choose_backend_def)
    with r(3) Inr have "xal_be_fiemap_open fuel (open_fs env) (Some m) opts' = Inr x" by (simp add: open_backend_def split: if_splits)
    from fiemap_open_ok [OF assms(3) this] show ?thesis
      using r same Inr \<open>opts' = _\<close> by auto
  qed
qed

text \<open>
  C9 (open, index, look up). Once \<open>xal_open\<close> has opened a mounted file system and \<open>xal_index\<close> has
  indexed it, the tree mirrors the file system below the mountpoint of the device, and
  \<open>xal_get_inode\<close> finds every inode under the path it has there.
\<close>

theorem open_index_lookup:
  assumes "xal_open fuel env dev (Some opts) = (Inr u, HandleOpen x, opts')" and "be_type x = XAL_BACKEND_FIEMAP"
    and "fs_pools_bounded (open_fs env)" "pools_bounded (open_xfs env)" "fs_names_ok (open_fs env)"
      "fs_alloc_ok (open_fs env) AllocFiemap"
    and "xal_index (xal_be_fiemap_index fuel' (open_fs env)) x = (Inr v, y)" and "j < itop y" "j \<noteq> 0"
  shows "xal_get_inode (Some y) (Some (name (imem y j))) = Inr j \<and> mirrors (open_fs env) y j \<and>
    (\<exists>uri rest. dev_uri env = Some uri \<and>
       (\<exists>m. retrieve_mountpoint (proc_mounts env) uri = Inr m \<and> name (imem y j) = m @ 47 # rest))"
proof -
  let ?fs = "open_fs env"
  obtain uri mnt x0 b x1 n where r: "dev_uri env = Some uri" "choose_backend env uri opts = Inr (mnt, opts')"
    "open_backend fuel env uri mnt opts' = Inr x0" "x1 = x0 \<or> x1 = x0\<lparr>dirty := b, dirty_shm := True\<rparr>"
    "x = x1\<lparr>sb := (sb x1)\<lparr>lba_blksze := n\<rparr>\<rparr>"
    using xal_open_InrD [OF assms(1)] by blast
  have be: "be_type x0 = XAL_BACKEND_FIEMAP" using r(4,5) assms(2) by auto
  obtain m where m: "retrieve_mountpoint (proc_mounts env) uri = Inr m"
    and o: "xal_be_fiemap_open fuel ?fs (Some m) opts' = Inr x0"
  proof (cases "opt_be opts'")
    case XAL_BACKEND_XFS
    with r(3) have "xal_be_xfs_open (open_xfs env) opts' = Inr x0" by (simp add: open_backend_def)
    from xfs_open_type [OF assms(4) this] be show ?thesis by simp
  next
    case XAL_BACKEND_FIEMAP
    have "mnt = [] \<or> retrieve_mountpoint (proc_mounts env) uri = Inr mnt"
      using r(2) by (auto simp: choose_backend_def split: if_splits sum.splits fail.splits)
    with XAL_BACKEND_FIEMAP r(3) that show ?thesis
      by (auto simp: open_backend_def elim!: sbind_InrE split: if_splits)
  qed (use r(3) in \<open>simp_all add: open_backend_def\<close>)
  from fiemap_open_ok [OF assms(3) o]
  have x0: "index_start ?fs x0" "mountpoint x0 = m" "\<not> shared_view x0" by (auto simp: index_start_def)
  have start: "index_start ?fs x" "mountpoint x = m" "\<not> shared_view x"
    using x0 r(4,5) by (auto simp: index_start_def fs_good_def)
  from assms(7) start(3) have run: "xal_be_fiemap_index fuel' ?fs x = (Inr v, y)" by (simp add: xal_index_def)
  have mc: "is_cstr (mountpoint x)" using retrieve_mountpoint_cstr [OF m] start(2) by simp
  note y = fiemap_index_indexed [OF start(1) mc run]
  have mir: "mirrors ?fs y j" using y assms(8) by (simp add: indexed_def)
  have ft: "be_type y = XAL_BACKEND_FIEMAP" "mountpoint y = m"
    using fiemap_index_ok [OF start(1) run] assms(2) start(2) by simp_all
  have "tree_wf (imem y) (itop y)" using y by (simp add: indexed_def)
  then have "in_path_map y j"
    using mir assms(6,8) by (auto simp: mirrors_def tree_wf_def)
  then have "xal_get_inode (Some y) (Some (name (imem y j))) = Inr j"
    by (intro indexed_get [OF y assms(5) ft(1) assms(8,9)]) (simp add: in_path_map_def)
  moreover obtain rest where "name (imem y j) = mountpoint y @ 47 # rest"
    using traverse_to [OF y assms(5,8,9)] by blast
  ultimately show ?thesis using mir r(1) m ft(2) by auto
qed

subsection \<open>The small mount, opened\<close>

definition mini_open_env :: open_env where
  "mini_open_env = \<lparr>dev_uri = Some (bytes_of ''/dev/x''), proc_mounts = Inr (concat (map mount_line mini_mounts)),
     open_fs = mini_fs, open_xfs = zero_env, dirty_shm_open = (\<lambda>_. Inl 2), dirty_ftruncate = 0, dirty_mmap = Inl 12,
     dev_ns = Inr \<lparr>nlbaf = 0, flbas_format = 0, flbas_format_msb = 0, lbaf_ds = (\<lambda>_. 9)\<rparr>\<rparr>"

definition mini_user_opts :: xal_opts where
  "mini_user_opts = mini_opts\<lparr>opt_be := XAL_BACKEND_UNSET\<rparr>"

lemma mini_mountpoint: "retrieve_mountpoint (proc_mounts mini_open_env) (bytes_of ''/dev/x'') = Inr mini_m"
  using find_mount_lines [OF mini_mounts_ok, of "bytes_of ''/dev/x''"]
  by (simp add: mini_open_env_def retrieve_mountpoint_def) (simp add: mini_mounts_def bytes_of_def)

abbreviation mini_opened_fs :: xal where
  "mini_opened_fs \<equiv> mini_xal\<lparr>sb := sb_null\<lparr>rootino := 2, blocksize := 4096\<rparr>\<rparr>"

lemma mini_fiemap_open: "xal_be_fiemap_open 3 mini_fs (Some mini_m) mini_opts = Inr mini_opened_fs"
  by (simp add: xal_be_fiemap_open_def mini_kernel mini_opts_def open_watch_def mini_total inotify_null_def
      xal_be_fiemap_inotify_init_def Let_def shm_name_too_long_def open_pools_def shm_part_def
      xal_pool_map_def xal_pool_grow_def open_state_def mini_xal_def mini_pools_def xal_null_def pool_null_def mini_stat_def)

lemma mini_opened: "xal_open 3 mini_open_env True (Some mini_user_opts) = (Inr (), HandleOpen mini_xal, mini_opts)"
proof -
  have parts: "dev_uri mini_open_env = Some (bytes_of ''/dev/x'')" "open_fs mini_open_env = mini_fs"
    "dev_ns mini_open_env = Inr \<lparr>nlbaf = 0, flbas_format = 0, flbas_format_msb = 0, lbaf_ds = (\<lambda>_. 9)\<rparr>"
    by (simp_all add: mini_open_env_def)
  have c: "choose_backend mini_open_env (bytes_of ''/dev/x'') mini_user_opts = Inr (mini_m, mini_opts)"
    by (simp add: choose_backend_def mini_user_opts_def mini_mountpoint) (simp add: mini_opts_def)
  note mini_fiemap_open
  moreover have "opt_be mini_opts = XAL_BACKEND_FIEMAP" "opt_shm_name mini_opts = None" by (simp_all add: mini_opts_def)
  ultimately show ?thesis
    by (simp add: xal_open_def parts c open_backend_def share_dirty_def lba_blocksize_def)
      (simp add: mini_xal_def mini_pools_def)
qed

lemma zero_bounded: "pools_bounded zero_env"
  by (auto simp: pools_bounded_def zero_env_def demo_env_def demo_os_def word_le_nat_alt split: if_splits)

lemma mini_open_parts: "open_fs mini_open_env = mini_fs" "open_xfs mini_open_env = zero_env"
  by (simp_all add: mini_open_env_def)

theorem open_chooses_backend_witness:
  "opt_be mini_user_opts = XAL_BACKEND_UNSET \<and> be_type mini_xal = XAL_BACKEND_FIEMAP \<and> mountpoint mini_xal = mini_m"
proof -
  have o: "opt_be mini_user_opts = XAL_BACKEND_UNSET" by (simp add: mini_user_opts_def)
  have uri: "dev_uri mini_open_env = Some (bytes_of ''/dev/x'')" by (simp add: mini_open_env_def)
  have "fs_pools_bounded (open_fs mini_open_env)" "pools_bounded (open_xfs mini_open_env)"
    by (simp_all add: mini_open_parts mini_bounded zero_bounded)
  from open_chooses_backend [OF mini_opened o this] show ?thesis
    using o by (auto simp: uri mini_mountpoint)
qed

theorem open_index_lookup_witness:
  "xal_get_inode (Some mini_index) (Some (bytes_of ''/m/a/c'')) = Inr 3"
proof -
  have "\<not> shared_view mini_xal" by (simp add: mini_xal_def mini_defs)
  then have run: "xal_index (xal_be_fiemap_index 3 (open_fs mini_open_env)) mini_xal = (Inr (), mini_index)"
    by (simp add: xal_index_def mini_open_parts mini_run)
  have "name (imem mini_index 3) = bytes_of ''/m/a/c''" by (simp add: mini_paths)
  then show ?thesis
    using open_index_lookup [OF mini_opened mini_facts(2) _ _ _ _ run, of 3]
    by (simp add: mini_open_parts mini_bounded zero_bounded mini_names_ok mini_facts)
qed

text \<open>
  Note (a failed open leaves a handle behind). When the backend opens but the last query of the device
  fails, \<open>xal_open\<close> returns the error with an open xal in \<open>*xal\<close> that nobody closes; when the shared
  dirty flag cannot be set up, it returns with a pointer to the xal it has closed.
\<close>

theorem failed_open_leaves_handle:
  assumes "dev" and "dev_uri env = Some uri" and "choose_backend env uri opts = Inr (mnt, opts')"
    and "open_backend fuel env uri mnt opts' = Inr x"
  shows "(opt_shm_name opts' = None \<longrightarrow> dev_ns env = Inl e \<longrightarrow>
      xal_open fuel env dev (Some opts) = (Inl (Err (- e)), HandleOpen x, opts')) \<and>
    (opt_shm_name opts' = Some nm \<longrightarrow> dirty_shm_open env (take 263 (nm @ bytes_of ''_dirty'')) = Inl e \<longrightarrow>
      xal_open fuel env dev (Some opts) = (Inl (Err (- e)), HandleClosed x, opts'))"
  using assms by (simp add: xal_open_def share_dirty_def)

theorem failed_open_leaves_handle_witness:
  "xal_open 3 (mini_open_env\<lparr>dev_ns := Inl 5\<rparr>) True (Some mini_opts) =
     (Inl (Err (- 5)), HandleOpen mini_opened_fs, mini_opts)"
proof -
  let ?env = "mini_open_env\<lparr>dev_ns := Inl 5\<rparr>"
  have uri: "dev_uri ?env = Some (bytes_of ''/dev/x'')" by (simp add: mini_open_env_def)
  have o: "opt_be mini_opts = XAL_BACKEND_FIEMAP" "opt_shm_name mini_opts = None" by (simp_all add: mini_opts_def)
  have c: "choose_backend ?env (bytes_of ''/dev/x'') mini_opts = Inr ([], mini_opts)"
    by (simp add: choose_backend_def o)
  note mini_fiemap_open
  moreover have "retrieve_mountpoint (proc_mounts ?env) (bytes_of ''/dev/x'') = Inr mini_m" using mini_mountpoint by simp
  ultimately have "open_backend 3 ?env (bytes_of ''/dev/x'') [] mini_opts =
      Inr mini_opened_fs"
    by (simp add: open_backend_def o mini_open_parts)
  from failed_open_leaves_handle [OF _ uri c this, of True 5 "[]"] show ?thesis by (simp add: o)
qed

section \<open>Closing while the thread runs\<close>

text \<open>All that \<open>xal_close\<close> releases, with the part of the backend in its place.\<close>

definition close_order :: "xal \<Rightarrow> (release + be_release) list" where
  "close_order x = concat (map (\<lambda>r. if r \<noteq> BackendClose then [Inl r]
       else map Inr (case be_type x of XAL_BACKEND_XFS \<Rightarrow> xal_be_xfs_close x
                     | XAL_BACKEND_FIEMAP \<Rightarrow> xal_be_fiemap_close x | _ \<Rightarrow> []))
     (xal_close (Some x)))"

text \<open>
  Note (the thread is cancelled too late). \<open>xal_close\<close> unmaps both pools and destroys the map of watch
  descriptors before it cancels a running watch thread, which uses all three.
\<close>

theorem thread_outlives_its_memory:
  assumes "be_type x = XAL_BACKEND_FIEMAP" and "\<not> shared_view x" and "inotify x = Some i"
    and "watch_mode i \<noteq> XAL_WATCHMODE_NONE" and "inotify_flag i AND XAL_BE_FIEMAP_INOTIFY_RUNNING \<noteq> 0"
  shows "\<exists>before after. close_order x = before @ Inr (CancelThread (watch_thread i)) # after \<and>
    {Inl UnmapInodes, Inl UnmapExtents, Inr DestroyWatchMap} \<subseteq> set before"
proof -
  let ?dirty = "if dirty_shm x then [Inl UnmapDirty] else []"
  let ?fd = "if inotify_fd i = 0 then [] else [Inr (CloseInotify (inotify_fd i))]"
  let ?before = "[Inl UnmapInodes, Inl UnmapExtents] @ ?dirty @ [Inr FreeMountpoint, Inr DestroyWatchMap] @ ?fd"
  have "close_order x = ?before @ Inr (CancelThread (watch_thread i)) #
      (if path_inode_map x = None then [] else [Inr DestroyPathMap]) @ [Inl FreeXal]"
    using assms by (simp add: close_order_def xal_close_def xal_be_fiemap_close_def xal_be_fiemap_inotify_close_def)
  moreover have "{Inl UnmapInodes, Inl UnmapExtents, Inr DestroyWatchMap} \<subseteq> set ?before" by simp
  ultimately show ?thesis by blast
qed

theorem thread_outlives_its_memory_witness:
  "\<exists>before after. close_order mini_watched = before @ Inr (CancelThread 1) # after \<and> Inl UnmapInodes \<in> set before"
proof -
  have "be_type mini_watched = XAL_BACKEND_FIEMAP" "\<not> shared_view mini_watched"
    by (simp_all add: mini_watched_def mini_index_def mini_defs)
  from thread_outlives_its_memory [OF this, of "mini_watch\<lparr>watch_thread := 1, inotify_flag := 1\<rparr>"]
  show ?thesis by (auto simp: mini_watched_def)
qed

end
