(* ===== verification/Xal_Print.thy ===== *)
theory Xal_Print
  imports Xal_Open
begin

text \<open>
  The printers of the library (src/pp.c, the names of events in src/xal_be_fiemap_inotify.c) and the number formats of \<open>printf\<close> they use. A printer yields
  the number the C function returns, the sum of what \<open>printf\<close> returned, and the bytes on stdout, which
  is assumed to accept them. The host is little-endian.
\<close>

section \<open>Formats of printf\<close>

definition digit :: "nat \<Rightarrow> u8" where
  "digit d = of_nat (if d < 10 then 48 + d else 87 + d)"

text \<open>\<open>%u\<close>, \<open>%x\<close> and \<open>%08X\<close>\<close>

fun dec :: "nat \<Rightarrow> cstr" where
  "dec n = (if n < 10 then [digit n] else dec (n div 10) @ [digit (n mod 10)])"

fun hex :: "nat \<Rightarrow> cstr" where
  "hex n = (if n < 16 then [digit n] else hex (n div 16) @ [digit (n mod 16)])"

declare dec.simps [simp del] hex.simps [simp del]

definition upper :: "u8 \<Rightarrow> u8" where
  "upper b = (if 97 \<le> b \<and> b \<le> 122 then b - 32 else b)"

definition hex8 :: "nat \<Rightarrow> cstr" where
  "hex8 n = replicate (8 - length (hex n)) 48 @ map upper (hex n)"

definition sdec :: "int \<Rightarrow> cstr" where
  "sdec i = (if i < 0 then [45] else []) @ dec (nat \<bar>i\<bar>)"

text \<open>\<open>%.*s\<close>: at most \<open>n\<close> bytes of a C string.\<close>

definition prec_str :: "nat \<Rightarrow> u8 list \<Rightarrow> cstr" where
  "prec_str n s = cstr_of (take n s)"

text \<open>One \<open>printf\<close> of a literal, some text and the end of the line, and a sequence of them.\<close>

definition field :: "string \<Rightarrow> cstr \<Rightarrow> cstr" where
  "field key val = bytes_of key @ val @ [10]"

definition prints :: "cstr list \<Rightarrow> int \<times> cstr" where
  "prints ss = (int (length (concat ss)), concat ss)"

text \<open>A printer that calls another one and adds what it returns.\<close>

definition plus_out :: "int \<times> cstr \<Rightarrow> int \<times> cstr \<Rightarrow> int \<times> cstr" where
  "plus_out a b = (fst a + fst b, snd a @ snd b)"

section \<open>Structures of the library\<close>

definition xal_ag_pp :: "xal_ag option \<Rightarrow> int \<times> cstr" where
  "xal_ag_pp ago =
     (case ago of
        None \<Rightarrow> prints [field ''xal_ag: ~'' []]
      | Some ag \<Rightarrow> prints [
          field ''xal_ag:'' [],
          field ''  seqno: '' (dec (unat (seqno ag))),
          field ''  offset: '' (sdec (sint (ag_offset ag))),
          field ''  agf_length: '' (dec (unat (agf_length ag))),
          field ''  agi_count: '' (dec (unat (agi_count ag))),
          field ''  agi_root: '' (dec (unat (agi_root ag))),
          field ''  agi_level: '' (dec (unat (agi_level ag)))])"

text \<open>The loop over the allocation groups.\<close>

definition xal_be_xfs_pp :: "xal \<Rightarrow> fail + int \<times> cstr" where
  "xal_be_xfs_pp x =
     (if length (ags x) < unat (agcount (sb x)) then Inl (Fault OutOfBounds)
      else Inr (fold (\<lambda>i out. plus_out out (xal_ag_pp (Some (ags x ! i)))) [0..<unat (agcount (sb x))] (0, [])))"

definition xal_be_fiemap_pp :: "xal \<Rightarrow> int \<times> cstr" where
  "xal_be_fiemap_pp x = prints [field ''xal_be_fiemap:'' [], field ''  mountpoint: '' (cstr_of (mountpoint x))]"

definition xal_pp :: "xal option \<Rightarrow> fail + int \<times> cstr" where
  "xal_pp xo =
     (case xo of
        None \<Rightarrow> Inr (prints [field ''xal: ~'' []])
      | Some x \<Rightarrow>
          let out = prints [
            field ''xal:'' [],
            field ''  sb.blocksize: '' (dec (unat (blocksize (sb x)))),
            field ''  sb.sectsize: '' (dec (unat (sectsize (sb x)))),
            field ''  sb.inodesize: '' (dec (unat (inodesize (sb x)))),
            field ''  sb.inopblock: '' (dec (unat (inopblock (sb x)))),
            field ''  sb.inopblog: '' (dec (unat (inopblog (sb x)))),
            field ''  sb.icount: '' (dec (unat (icount (sb x)))),
            field ''  sb.nallocated: '' (dec (unat (nallocated (sb x)))),
            field ''  sb.rootino: '' (dec (unat (rootino (sb x)))),
            field ''  sb.agblocks: '' (dec (unat (agblocks (sb x)))),
            field ''  sb.agblklog: '' (dec (unat (agblklog (sb x)))),
            field ''  sb.agcount: '' (dec (unat (agcount (sb x)))),
            field ''  sb.dirblocksize: '' (dec (unat (dirblocksize (sb x))))]
          in case be_type x of
               XAL_BACKEND_XFS \<Rightarrow> sbind (xal_be_xfs_pp x) (\<lambda>more. Inr (plus_out out more))
             | XAL_BACKEND_FIEMAP \<Rightarrow> Inr (plus_out out (xal_be_fiemap_pp x))
             | _ \<Rightarrow> Inr out)"

definition xal_extent_pp :: "xal_extent option \<Rightarrow> int \<times> cstr" where
  "xal_extent_pp eo =
     (case eo of
        None \<Rightarrow> prints [field ''xal_extent: ~'' []]
      | Some e \<Rightarrow> prints [
          field ''xal_extent:'' [],
          field ''  start_offset: '' (dec (unat (start_offset e))),
          field ''  start_block: '' (dec (unat (start_block e))),
          field ''  nblocks: '' (dec (unat (nblocks e))),
          field ''  flag: '' (dec (unat (flag e)))])"

definition xal_extent_converted_pp :: "xal_extent_converted option \<Rightarrow> int \<times> cstr" where
  "xal_extent_converted_pp eo =
     (case eo of
        None \<Rightarrow> prints [field ''xal_extent_converted: ~'' []]
      | Some e \<Rightarrow> prints ([
          field ''xal_extent_converted:'' [],
          field ''  start_offset: '' (dec (unat (cv_start_offset e))),
          field ''  start_block: '' (dec (unat (cv_start_block e)))] @
          (case cv_unit e of
             XAL_EXTENT_UNIT_BYTES \<Rightarrow> [field ''  bytes: '' (dec (unat (cv_size e))), field ''  unit: XAL_EXTENT_UNIT_BYTES'' []]
           | XAL_EXTENT_UNIT_LBA \<Rightarrow> [field ''  nblocks: '' (dec (unat (cv_size e))), field ''  unit: XAL_EXTENT_UNIT_LBA'' []])))"

text \<open>\<open>%p\<close> of the map is whatever the platform prints, \<open>addr\<close> here.\<close>

definition xal_inotify_pp :: "cstr \<Rightarrow> xal_inotify option \<Rightarrow> int \<times> cstr" where
  "xal_inotify_pp addr io =
     (case io of
        None \<Rightarrow> prints [field ''xal_inotify: ~'' []]
      | Some i \<Rightarrow> prints [
          field ''xal_inotify:'' [],
          field ''  fd: '' (sdec (inotify_fd i)),
          field ''  inode_map addr: '' addr,
          (case watch_mode i of
             XAL_WATCHMODE_NONE \<Rightarrow> field ''  watchmode: XAL_WATCHMODE_NONE'' []
           | XAL_WATCHMODE_DIRTY_DETECTION \<Rightarrow> field ''  watchmode: XAL_WATCHMODE_DIRTY_DETECTION'' []
           | XAL_WATCHMODE_EXTENT_UPDATE \<Rightarrow> field ''  watchmode: XAL_WATCHMODE_EXTENT_UPDATE'' []),
          field ''  watch_thread_id: '' (sdec (sint (of_nat (watch_thread i) :: u64)))])"

section \<open>Structures on disk\<close>

definition le32 :: "cbuf \<Rightarrow> nat \<Rightarrow> fail + u32" where
  "le32 b i = sbind (rdn b i 4) (\<lambda>bs. Inr (be_word (rev bs)))"

definition xal_odf_sb_pp :: "cbuf \<Rightarrow> fail + int \<times> cstr" where
  "xal_odf_sb_pp b =
     sbind (be32 b 0) (\<lambda>magicnum.
     sbind (be32 b 4) (\<lambda>blocksize.
     sbind (be64 b 56) (\<lambda>rootino.
     sbind (be32 b 84) (\<lambda>agblocks.
     sbind (be32 b 88) (\<lambda>agcount.
     sbind (be16 b 102) (\<lambda>sectsize.
     sbind (be16 b 104) (\<lambda>inodesize.
     sbind (rdn b 108 12) (\<lambda>fname.
     sbind (rd8 b 192) (\<lambda>dirblklog.
       Inr (prints [
         field ''xal_odf_sb:'' [],
         field ''  magicnum: 0x'' (hex (unat magicnum)),
         field ''  blocksize: 0x'' (hex (unat blocksize) @ bytes_of ''x''),
         field ''  rootino: '' (hex (unat rootino) @ bytes_of ''zu''),
         field ''  agblocks: '' (hex (unat agblocks) @ bytes_of ''d''),
         field ''  agcount: '' (hex (unat agcount) @ bytes_of ''d''),
         field ''  sectsize: '' (hex (unat sectsize) @ bytes_of ''u''),
         field ''  inodesize: '' (hex (unat inodesize) @ bytes_of ''u''),
         field ''  fname: '' ([39] @ prec_str 12 fname @ [39]),
         field ''  dirblklog: 0x'' (dec (unat dirblklog) @ bytes_of ''x'')]))))))))))"

definition xal_odf_agf_pp :: "cbuf \<Rightarrow> fail + int \<times> cstr" where
  "xal_odf_agf_pp b =
     sbind (be32 b 0) (\<lambda>magicnum.
     sbind (be32 b 8) (\<lambda>seqno.
     sbind (be32 b 12) (\<lambda>len.
       Inr (prints [
         field ''xal_odf_agf:'' [],
         field ''  magicnum: 0x'' (hex (unat magicnum)),
         field ''  seqno: 0x'' (hex (unat seqno)),
         field ''  length: 0x'' (hex (unat len))]))))"

definition xal_odf_agi_pp :: "cbuf \<Rightarrow> fail + int \<times> cstr" where
  "xal_odf_agi_pp b =
     sbind (be32 b 0) (\<lambda>magicnum.
     sbind (be32 b 8) (\<lambda>seqno.
     sbind (be32 b 12) (\<lambda>len.
       Inr (prints [
         field ''xal_agi:'' [],
         field ''  magicnum: 0x'' (hex (unat magicnum)),
         field ''  seqno: 0x'' (hex (unat seqno)),
         field ''  length: 0x'' (hex (unat len))]))))"

text \<open>The fields are not converted from big-endian here.\<close>

definition xal_odf_agfl_pp :: "cbuf \<Rightarrow> fail + int \<times> cstr" where
  "xal_odf_agfl_pp b =
     sbind (le32 b 0) (\<lambda>magicnum.
     sbind (le32 b 4) (\<lambda>seqno.
       Inr (prints [
         field ''xal_odf_agfl:'' [],
         field ''  magicnum: 0x'' (hex (unat magicnum)),
         field ''  seqno: 0x'' (hex (unat seqno))])))"

definition xal_odf_dinode_format_str :: "int \<Rightarrow> string" where
  "xal_odf_dinode_format_str val =
     (if val = 3 then ''btree'' else if val = 0 then ''dev'' else if val = 2 then ''extents''
      else if val = 1 then ''local'' else if val = 4 then ''uuid'' else ''INODE_FORMAT_UNKNOWN'')"

definition mode_to_type_str :: "u32 \<Rightarrow> string" where
  "mode_to_type_str mode =
     (if S_ISDIR mode then ''directory'' else if S_ISREG mode then ''file'' else ''UNEXPECTED'')"

definition quoted :: "string \<Rightarrow> cstr" where
  "quoted s = bytes_of '' | '' @ [39] @ bytes_of s @ [39]"

definition xal_odf_dinode_pp :: "cbuf \<Rightarrow> fail + int \<times> cstr" where
  "xal_odf_dinode_pp b =
     sbind (be16 b 0) (\<lambda>magic.
     sbind (be16 b 2) (\<lambda>mode.
     sbind (rd8 b 5) (\<lambda>format.
     sbind (be64 b 152) (\<lambda>ino.
       Inr (prints [
         field ''xal_dinode:'' [],
         field ''  magic: 0x'' (hex (unat magic) @ bytes_of '' | 0x'' @ hex 0x494e),
         field ''  mode: 0x'' (hex (unat mode) @ quoted (mode_to_type_str (ucast mode))),
         field ''  format: 0x'' (dec (unat format) @ quoted (xal_odf_dinode_format_str (uint format))),
         field ''  ino: '' (dec (unat ino))])))))"

text \<open>A block header of the inode B+tree, as \<open>read_iab3_block\<close> leaves it.\<close>

record btree_sfmt =
  sfmt_magic :: u32
  sfmt_level :: u16
  sfmt_numrecs :: u16
  sfmt_leftsib :: u32
  sfmt_rightsib :: u32
  sfmt_blkno :: u64

definition xal_odf_btree_iab3_sfmt_pp :: "btree_sfmt option \<Rightarrow> int \<times> cstr" where
  "xal_odf_btree_iab3_sfmt_pp io =
     (case io of
        None \<Rightarrow> prints [field ''xal_ofd_btree_iab3: ~'' []]
      | Some i \<Rightarrow> prints [
          field ''xal_ofd_btree_iab3:'' [],
          field ''  magic: 0x'' (hex8 (unat (sfmt_magic i)) @ bytes_of '' / '' @
             [39] @ prec_str 4 (rev (be_enc 4 (sfmt_magic i))) @ [39]),
          field ''  level: '' (dec (unat (sfmt_level i))),
          field ''  numrecs: '' (dec (unat (sfmt_numrecs i))),
          field ''  leftsib: 0x'' (hex8 (unat (sfmt_leftsib i))),
          field ''  rightsib: 0x'' (hex8 (unat (sfmt_rightsib i))),
          field ''  blkno: '' (dec (unat (sfmt_blkno i div 8)))])"

text \<open>\<open>freecount\<close> is not part of the record as the decoder keeps it.\<close>

definition xal_odf_inobt_rec_pp :: "u8 \<Rightarrow> inobt_rec option \<Rightarrow> int \<times> cstr" where
  "xal_odf_inobt_rec_pp freecount ro =
     (case ro of
        None \<Rightarrow> prints [field ''xal_ofd_inobt_rec: ~'' []]
      | Some r \<Rightarrow> prints [
          field ''xal_ofd_inobt_rec:'' [],
          field ''  startino: '' (dec (unat (startino r))),
          field ''  holemask: '' (dec (unat (holemask r))),
          field ''  count: '' (dec (unat (rec_count r))),
          field ''  freecount: '' (dec (unat freecount)),
          field ''  free: '' (dec (unat (rec_free r)))])"

section \<open>Inodes\<close>

text \<open>An extent in units of 512 bytes: begin and end in the file, begin and end on the device.\<close>

definition bmap_range :: "xal \<Rightarrow> xal_extent \<Rightarrow> u64 \<times> u64 \<times> u64 \<times> u64" where
  "bmap_range x e =
     (let bs = ucast (xal_get_sb_blocksize x);
          fofz_begin = (start_offset e * bs) div 512;
          fofz_end = fofz_begin + (nblocks e * bs) div 512 - 1;
          bofz_begin = xal_fsbno_offset x (start_block e) div 512;
          bofz_end = bofz_begin + (nblocks e * bs) div 512 - 1
      in (fofz_begin, fofz_end, bofz_begin, bofz_end))"

definition bmap_line :: "u64 \<times> u64 \<times> u64 \<times> u64 \<Rightarrow> cstr" where
  "bmap_line r =
     (case r of (a, b, c, d) \<Rightarrow>
        bytes_of ''- ['' @ dec (unat a) @ bytes_of '', '' @ dec (unat b) @ bytes_of '', '' @
        dec (unat c) @ bytes_of '', '' @ dec (unat d) @ bytes_of '']'' @ [10])"

definition extent_lines :: "xal \<Rightarrow> xal_inode \<Rightarrow> cstr list" where
  "extent_lines x inode =
     map (\<lambda>i. bmap_line (bmap_range x (xal_extent_at x (extents_idx inode + i)))) [0..<extents_count inode]"

definition inode_fields :: "xal \<Rightarrow> xal_inode \<Rightarrow> cstr list" where
  "inode_fields x inode =
     [field ''xal_inode:'' [],
      field ''  ino: 0x'' (hex8 (unat (ino inode))),
      field ''  size: '' (dec (unat (isize inode))),
      field ''  namelen: '' (dec (unat (namelen inode))),
      field ''  name: '' ([39] @ prec_str 256 (name inode) @ [39]),
      field ''  ftype: '' (dec (unat (ftype inode)))] @
     (if ftype inode = XAL_ODF_DIR3_FT_DIR
      then [field ''  dentries.count: '' (dec (dentries_count inode))]
      else if ftype inode = XAL_ODF_DIR3_FT_REG_FILE
      then field ''  extents.count: '' (dec (extents_count inode)) # extent_lines x inode
      else [])"

text \<open>
  \<open>xal_inode_pp\<close>: the counter of the loop over the children has 8 bits, and what the calls for the
  children return is not added.
\<close>

fun xal_inode_pp :: "nat \<Rightarrow> xal \<Rightarrow> nat option \<Rightarrow> fail + int \<times> cstr"
  and children_pp :: "nat \<Rightarrow> xal \<Rightarrow> xal_inode \<Rightarrow> u8 \<Rightarrow> fail + cstr" where
  "xal_inode_pp fuel x None = Inr (prints [field ''xal_inode: ~'' []])"
| "xal_inode_pp 0 x (Some i) = Inl (Fault OutOfFuel)"
| "xal_inode_pp (Suc fuel) x (Some i) =
     (let inode = xal_inode_at x i; out = prints (inode_fields x inode)
      in if ftype inode = XAL_ODF_DIR3_FT_DIR
         then sbind (children_pp fuel x inode 0) (\<lambda>more. Inr (fst out, snd out @ more))
         else Inr out)"
| "children_pp 0 x inode i = Inl (Fault OutOfFuel)"
| "children_pp (Suc fuel) x inode i =
     (if ucast i < c_count (content inode) then
        sbind (xal_inode_pp fuel x (Some (dentries_idx inode + unat i))) (\<lambda>(wrtn, out).
        sbind (children_pp fuel x inode (i + 1)) (\<lambda>more. Inr (out @ more)))
      else Inr [])"

section \<open>Reading the numbers back\<close>

definition is_digit :: "u8 \<Rightarrow> bool" where
  "is_digit b \<longleftrightarrow> 48 \<le> b \<and> b \<le> 57"

definition undec :: "cstr \<Rightarrow> nat" where
  "undec bs = foldl (\<lambda>a b. a * 10 + (unat b - 48)) 0 bs"

text \<open>All numbers of a line, as any reader that skips what is not a digit sees them.\<close>

function read_nums :: "cstr \<Rightarrow> nat list" where
  "read_nums bs =
     (case dropWhile (\<lambda>b. \<not> is_digit b) bs of
        [] \<Rightarrow> []
      | b # bs' \<Rightarrow> undec (takeWhile is_digit (b # bs')) # read_nums (dropWhile is_digit (b # bs')))"
  by pat_completeness auto
termination
proof (relation "measure length")
  fix bs b bs'
  assume *: "dropWhile (\<lambda>b. \<not> is_digit b) bs = b # bs'"
  then have "is_digit b" using hd_dropWhile [of "\<lambda>b. \<not> is_digit b" bs] by auto
  then have "length (dropWhile is_digit (b # bs')) \<le> length bs'" by (simp add: length_dropWhile_le)
  also have "\<dots> < length bs" using length_dropWhile_le [of "\<lambda>b. \<not> is_digit b" bs] * by simp
  finally show "(dropWhile is_digit (b # bs'), bs) \<in> measure length" by simp
qed simp

declare read_nums.simps [simp del]

lemma digit_small: "d < 10 \<Longrightarrow> unat (digit d) = 48 + d"
  unfolding digit_def by (simp only: if_True unat_of_nat) (simp add: take_bit_eq_mod)

lemma is_digit_digit: "d < 10 \<Longrightarrow> is_digit (digit d)"
  using digit_small [of d] by (simp add: is_digit_def word_le_nat_alt)

lemma dec_digits: "list_all is_digit (dec n) \<and> dec n \<noteq> []"
proof (induction n rule: dec.induct)
  case (1 n)
  then show ?case using is_digit_digit by (subst (1 2) dec.simps) auto
qed

lemma undec_snoc: "undec (bs @ [b]) = undec bs * 10 + (unat b - 48)"
  by (simp add: undec_def)

lemma undec_dec: "undec (dec n) = n"
proof (induction n rule: dec.induct)
  case (1 n)
  show ?case
  proof (cases "n < 10")
    case True
    then show ?thesis using digit_small [of n] by (subst dec.simps) (simp add: undec_def)
  next
    case False
    with 1 have "undec (dec (n div 10)) = n div 10" by simp
    then show ?thesis using False digit_small [of "n mod 10"] by (subst dec.simps) (simp add: undec_snoc)
  qed
qed

lemma read_nums_skip: "list_all (\<lambda>b. \<not> is_digit b) p \<Longrightarrow> read_nums (p @ bs) = read_nums bs"
  by (subst (1 2) read_nums.simps) (simp add: list_all_iff dropWhile_append2)

lemma read_nums_none: "list_all (\<lambda>b. \<not> is_digit b) p \<Longrightarrow> read_nums p = []"
  by (subst read_nums.simps) (simp add: list_all_iff dropWhile_eq_Nil_conv [THEN iffD2])

lemma read_nums_dec:
  assumes "\<not> is_digit c"
  shows "read_nums (dec n @ c # bs) = n # read_nums (c # bs)"
proof -
  obtain b bs' where d: "dec n = b # bs'" using dec_digits by (cases "dec n") auto
  have all: "list_all is_digit (dec n)" using dec_digits by blast
  then have "dropWhile (\<lambda>b. \<not> is_digit b) (dec n @ c # bs) = dec n @ c # bs" by (simp add: d)
  moreover have "takeWhile is_digit (dec n @ c # bs) = dec n" "dropWhile is_digit (dec n @ c # bs) = c # bs"
    using all assms by (simp_all add: list_all_iff takeWhile_append2 dropWhile_append2)
  ultimately show ?thesis
    by (subst read_nums.simps) (simp only: d append_Cons list.case, simp only: d [symmetric] append_Cons [symmetric] undec_dec)
qed

text \<open>
  C20 (a printed extent can be read back). The line printed for an extent contains exactly the four
  numbers, in decimal, for every value of 64 bits, each followed by a separator.
\<close>

theorem bmap_line_roundtrip:
  "read_nums (bmap_line (a, b, c, d)) = [unat a, unat b, unat c, unat d]"
proof -
  have s: "bytes_of ''- ['' = [45, 32, 91]" "bytes_of '', '' = [44, 32]" "bytes_of '']'' = [93]"
    by (simp_all add: bytes_of_def)
  have sep: "read_nums (45 # 32 # 91 # bs) = read_nums bs" "read_nums (44 # 32 # bs) = read_nums bs"
    "read_nums [93, 10] = []" for bs
    using read_nums_skip [of "[45, 32, 91]" bs] read_nums_skip [of "[44, 32]" bs] read_nums_none [of "[93, 10]"]
    by (simp_all add: is_digit_def)
  have n: "\<not> is_digit 44" "\<not> is_digit 93" by (simp_all add: is_digit_def)
  show ?thesis by (simp add: bmap_line_def s read_nums_dec [OF n(1)] read_nums_dec [OF n(2)] sep)
qed

section \<open>The recursion over a directory\<close>

definition inode_text :: "xal \<Rightarrow> nat \<Rightarrow> cstr" where
  "inode_text x i = concat (inode_fields x (xal_inode_at x i))"

text \<open>The loop over the children from the counter \<open>k\<close> on, when no counter of 8 bits wraps around.\<close>

lemma children_pp_loop:
  assumes small: "dentries_count inode < 256"
    and child: "\<And>j g. j < dentries_count inode \<Longrightarrow> b \<le> g \<Longrightarrow>
      xal_inode_pp g x (Some (dentries_idx inode + j)) = Inr (w j, out j)"
  shows "k \<le> dentries_count inode \<Longrightarrow> dentries_count inode - k + Suc b \<le> fuel \<Longrightarrow>
    children_pp fuel x inode (of_nat k) = Inr (concat (map out [k..<dentries_count inode]))"
proof (induction "dentries_count inode - k" arbitrary: k fuel)
  case 0
  then obtain g where "fuel = Suc g" by (cases fuel) auto
  moreover have "unat (of_nat k :: u8) = k" using small 0 by (simp add: unat_of_nat)
  ultimately show ?case using 0 by (simp add: word_less_nat_alt content_defs unat_ucast_mod)
next
  case (Suc m)
  from Suc.prems obtain g where g: "fuel = Suc g" by (cases fuel) auto
  have k: "k < dentries_count inode" using Suc.hyps(2) by simp
  then have u: "unat (of_nat k :: u8) = k" using small by (simp add: unat_of_nat)
  have "m = dentries_count inode - Suc k" using Suc.hyps(2) by simp
  from Suc.hyps(1) [OF this, of g] k Suc.prems(2) g
  have "children_pp g x inode (of_nat (Suc k)) = Inr (concat (map out [Suc k..<dentries_count inode]))" by simp
  then have rest: "children_pp g x inode (of_nat k + 1) = Inr (concat (map out [Suc k..<dentries_count inode]))"
    by (simp add: add.commute)
  have "b \<le> g" using Suc.prems(2) g by simp
  from child [OF k this] have c: "xal_inode_pp g x (Some (dentries_idx inode + k)) = Inr (w k, out k)" .
  have less: "(ucast (of_nat k :: u8) :: u32) < c_count (content inode)"
    using k u by (simp add: word_less_nat_alt content_defs unat_ucast_mod)
  show ?case using k by (simp add: g less u c rest upt_conv_Cons)
qed

lemma concat_map_concat: "concat (map (\<lambda>k. concat (f k)) ks) = concat (concat (map f ks))"
  by (induction ks) simp_all

lemma xal_inode_pp_tree:
  assumes wf: "tree_wf (memory (inodes x)) n" and small: "\<forall>j < n. dentries_count (xal_inode_at x j) < 256"
  shows "i < n \<Longrightarrow> 257 * (n - i) \<le> fuel \<Longrightarrow>
    xal_inode_pp fuel x (Some i) =
      Inr (fst (prints (inode_fields x (xal_inode_at x i))),
           concat (map (inode_text x) (subtree (n - i) (memory (inodes x)) i)))"
proof (induction "n - i" arbitrary: i fuel rule: less_induct)
  case less
  let ?m = "memory (inodes x)"
  obtain g where g: "fuel = Suc g" using less.prems by (cases fuel) auto
  obtain h where h: "n - i = Suc h" using less.prems by (cases "n - i") auto
  let ?inode = "xal_inode_at x i"
  have at: "?m j = xal_inode_at x j" for j by (simp add: xal_inode_at_def)
  show ?case
  proof (cases "xal_inode_is_dir ?inode")
    case False
    then show ?thesis unfolding g h subtree_Suc at
      by (simp add: xal_inode_is_dir_def inode_text_def prints_def Let_def)
  next
    case True
    have kids: "i < dentries_idx ?inode + k \<and> dentries_idx ?inode + k < n" if "k < dentries_count ?inode" for k
      using tree_child [OF wf less.prems(1) True [folded at] that [folded at]] by (simp add: at)
    let ?out = "\<lambda>k. concat (map (inode_text x) (subtree h ?m (dentries_idx ?inode + k)))"
    let ?w = "\<lambda>k. fst (prints (inode_fields x (xal_inode_at x (dentries_idx ?inode + k))))"
    have "children_pp g x ?inode (of_nat 0) = Inr (concat (map ?out [0..<dentries_count ?inode]))"
    proof (rule children_pp_loop [where b = "257 * h" and w = ?w])
      show "dentries_count ?inode < 256" using small less.prems(1) by simp
      show "xal_inode_pp f x (Some (dentries_idx ?inode + j)) = Inr (?w j, ?out j)"
        if j: "j < dentries_count ?inode" and f: "257 * h \<le> f" for j f
      proof -
        note c = kids [OF j]
        have le: "n - (dentries_idx ?inode + j) \<le> h" using c h by linarith
        then have "257 * (n - (dentries_idx ?inode + j)) \<le> f" using f by linarith
        moreover have "subtree (n - (dentries_idx ?inode + j)) ?m (dentries_idx ?inode + j) =
            subtree h ?m (dentries_idx ?inode + j)"
          unfolding subtree_def by (simp only: preorder_fuel [OF wf conjunct2 [OF c] le])
        moreover have "n - (dentries_idx ?inode + j) < n - i" using c by linarith
        ultimately show ?thesis using less.hyps [of "dentries_idx ?inode + j" f] c by simp
      qed
      have "dentries_count ?inode < 256" "257 * Suc h \<le> Suc g" using less.prems small g h by simp_all
      then show "dentries_count ?inode - 0 + Suc (257 * h) \<le> g" unfolding minus_nat.diff_0 mult_Suc_right by linarith
    qed simp
    then show ?thesis
      using True unfolding g h subtree_Suc at
      by (simp add: xal_inode_is_dir_def inode_text_def [of x i] prints_def Let_def map_concat comp_def concat_map_concat)
  qed
qed

text \<open>
  C18 (printing an inode prints its subtree). On a tree whose directories have fewer than 256 entries,
  \<open>xal_inode_pp\<close> ends and prints the fields of every descendant of the inode exactly once, in the order of
  the walk; but it returns the number of bytes printed for the inode alone.
\<close>

theorem inode_pp_prints_subtree:
  assumes "tree_wf (memory (inodes x)) n" and "\<forall>j < n. dentries_count (xal_inode_at x j) < 256"
    and "i < n" and "257 * (n - i) \<le> fuel"
  shows "xal_inode_pp fuel x (Some i) =
      Inr (int (length (inode_text x i)), concat (map (inode_text x) (map fst (tree_order (memory (inodes x)) n i)))) \<and>
    distinct (map fst (tree_order (memory (inodes x)) n i)) \<and>
    set (map fst (tree_order (memory (inodes x)) n i)) = {j. descendant (memory (inodes x)) i j}"
  using xal_inode_pp_tree [OF assms] tree_order_set [OF assms(1,3)] subtree_distinct [OF assms(1,3), of "n - i"]
  by (simp only: tree_order_def preorder_fst prints_def inode_text_def fst_conv simp_thms)

theorem inode_pp_prints_subtree_witness:
  "xal_inode_pp 1028 demo_tree (Some 0) =
     Inr (int (length (inode_text demo_tree 0)),
       inode_text demo_tree 0 @ inode_text demo_tree 1 @ inode_text demo_tree 3 @ inode_text demo_tree 2)"
proof -
  have "tree_order (memory (inodes demo_tree)) 4 0 = [(0, 0), (1, 1), (3, 2), (2, 1)]" by code_simp
  note order = this
  have small: "\<forall>j < 4. dentries_count (xal_inode_at demo_tree j) < 256"
    by (simp add: demo_tree_simps xal_inode_at_def)
  have fuel: "257 * (4 - 0) \<le> (1028 :: nat)" by simp
  note conjunct1 [OF inode_pp_prints_subtree [OF demo_tree_wf small _ fuel]]
  then show ?thesis unfolding order by (simp only: list.map fst_conv concat.simps append_Nil2 zero_less_numeral)
qed

lemma children_pp_never: "256 \<le> c_count (content inode) \<Longrightarrow> children_pp fuel x inode i \<noteq> Inr out"
proof (induction fuel arbitrary: i out)
  case (Suc fuel)
  have "unat i < 256" using unsigned_less [of i] by simp
  then have "unat (ucast i :: u32) < 256" by (simp add: unat_ucast_mod)
  then have "(ucast i :: u32) < c_count (content inode)"
    using Suc.prems by (simp add: word_less_nat_alt word_le_nat_alt)
  then show ?case using Suc.IH [OF Suc.prems] by (auto elim!: sbind_InrE)
qed simp

text \<open>
  C29 (a large directory is printed for ever). The loop over the children counts with 8 bits: for a
  directory with 256 entries or more, \<open>xal_inode_pp\<close> does not end, no matter how long it runs.
\<close>

theorem inode_pp_never_ends:
  assumes "xal_inode_is_dir (xal_inode_at x i)" and "256 \<le> c_count (content (xal_inode_at x i))"
  shows "xal_inode_pp fuel x (Some i) \<noteq> Inr r"
proof (cases fuel)
  case (Suc g)
  then show ?thesis
    using assms(1) children_pp_never [OF assms(2), of g x 0] by (auto simp: xal_inode_is_dir_def Let_def elim!: sbind_InrE)
qed simp

theorem inode_pp_never_ends_witness:
  "\<forall>fuel r. xal_inode_pp fuel (put_inode 0 (demo_inode 2 1 256 [] XAL_POOL_IDX_NONE) demo_tree) (Some 0) \<noteq> Inr r"
proof (intro allI)
  fix fuel r
  show "xal_inode_pp fuel (put_inode 0 (demo_inode 2 1 256 [] XAL_POOL_IDX_NONE) demo_tree) (Some 0) \<noteq> Inr r"
    by (rule inode_pp_never_ends) (simp_all add: demo_inode_def xal_inode_is_dir_def)
qed

section \<open>Names of events\<close>

text \<open>
  \<open>inotify_event_mask_pp\<close>, for debug messages: the text in the buffer and the return value, which is that of
  the last \<open>snprintf\<close>, or not initialised when no bit is known. \<open>snprintf\<close> returns the length of the whole
  text, so \<open>idx\<close> may run past a buffer that is too small.
\<close>

definition mask_names :: "(u32 \<times> string) list" where
  "mask_names =
     [(0x2, '' IN_MODIFY''), (0x4, '' IN_ATTRIB''), (0x100, '' IN_CREATE''), (0x200, '' IN_DELETE''),
      (0xC0, '' IN_MOVE''), (0x40000000, '' IN_ISDIR''), (0x8, '' IN_CLOSE_WRITE''), (0x2000, '' IN_UNMOUNT'')]"

fun mask_loop :: "u32 \<Rightarrow> nat \<Rightarrow> (u32 \<times> string) list \<Rightarrow> nat \<Rightarrow> cstr \<Rightarrow> nat option \<Rightarrow> fail + nat option \<times> cstr" where
  "mask_loop m str_sz [] idx str wrtn = Inr (wrtn, str)"
| "mask_loop m str_sz ((b, s) # names) idx str wrtn =
     (if m AND b = 0 then mask_loop m str_sz names idx str wrtn
      else if str_sz < idx then Inl (Fault OutOfBounds)
      else mask_loop m str_sz names (idx + length s)
             (str @ take (str_sz - idx - 1) (bytes_of s)) (Some (length s)))"

definition inotify_event_mask_pp :: "u32 \<Rightarrow> nat \<Rightarrow> fail + nat option \<times> cstr" where
  "inotify_event_mask_pp m str_sz = mask_loop m str_sz mask_names 0 [] None"

definition mask_text :: "u32 \<Rightarrow> (u32 \<times> string) list \<Rightarrow> cstr" where
  "mask_text m names = concat (map (\<lambda>(b, s). if m AND b = 0 then [] else bytes_of s) names)"

lemma mask_loop_fits:
  "idx + length (concat (map snd names)) < str_sz \<Longrightarrow>
     \<exists>w. mask_loop m str_sz names idx str wrtn = Inr (w, str @ mask_text m names)"
proof (induction names arbitrary: idx str wrtn)
  case (Cons bs names)
  obtain b s where bs: "bs = (b, s)" by fastforce
  have le: "idx \<le> str_sz" "length s \<le> str_sz - idx - 1" using Cons.prems by (simp_all add: bs)
  have t: "take (str_sz - idx - 1) (bytes_of s) = bytes_of s" using le(2) by (simp add: bytes_of_def)
  show ?case
    using Cons.IH [of idx str wrtn] Cons.IH [of "idx + length s" "str @ bytes_of s" "Some (length s)"] Cons.prems le t
    by (simp add: bs mask_text_def)
qed (simp add: mask_text_def)

text \<open>
  Note (the buffer for event names is large enough). Into the 128 bytes of the caller, the names of all bits
  of every mask are written completely, and nothing behind them.
\<close>

theorem event_names_fit:
  "\<exists>w. inotify_event_mask_pp m 128 = Inr (w, mask_text m mask_names)"
  using mask_loop_fits [of 0 mask_names 128 m "[]" None] by (simp add: inotify_event_mask_pp_def mask_names_def)

end
