(* ===== verification/Xal_Cli.thy ===== *)
theory Xal_Cli
  imports Xal_Print
begin

text \<open>
  The command line (src/cli.c), the byte dump (src/utils.c) and the tool that prints the extents of all
  files of a mount through the kernel (tools/xal_bmap_mp_yaml.c), which serves as the reference for
  \<open>xal --bmap\<close>. What they write to stdout is modelled, byte for byte; messages on stderr are not.
\<close>

section \<open>Arguments\<close>

record xal_cli_args =
  arg_bmap :: bool
  arg_find :: bool
  arg_meta :: bool
  arg_stats :: bool
  arg_file_lookup_map :: bool
  arg_backend :: "cstr option"
  arg_dev_uri :: "cstr option"
  arg_filename :: "cstr option"

definition no_args :: xal_cli_args where
  "no_args = \<lparr>arg_bmap = False, arg_find = False, arg_meta = False, arg_stats = False,
     arg_file_lookup_map = False, arg_backend = None, arg_dev_uri = None, arg_filename = None\<rparr>"

fun parse_loop :: "cstr list \<Rightarrow> xal_cli_args \<Rightarrow> fail + xal_cli_args" where
  "parse_loop [] args = Inr args"
| "parse_loop (a # argv) args =
     (if a = bytes_of ''--bmap'' then parse_loop argv (args\<lparr>arg_bmap := True\<rparr>)
      else if a = bytes_of ''--find'' then parse_loop argv (args\<lparr>arg_find := True\<rparr>)
      else if a = bytes_of ''--meta'' then parse_loop argv (args\<lparr>arg_meta := True\<rparr>)
      else if a = bytes_of ''--stats'' then parse_loop argv (args\<lparr>arg_stats := True\<rparr>)
      else if a = bytes_of ''--file_lookup_map'' then parse_loop argv (args\<lparr>arg_file_lookup_map := True\<rparr>)
      else if a = bytes_of ''--backend'' then
        (case argv of [] \<Rightarrow> Inl (Err (- EINVAL)) | v # argv \<Rightarrow> parse_loop argv (args\<lparr>arg_backend := Some v\<rparr>))
      else if a = bytes_of ''--filename'' then
        (case argv of [] \<Rightarrow> Inl (Err (- EINVAL)) | v # argv \<Rightarrow> parse_loop argv (args\<lparr>arg_filename := Some v\<rparr>))
      else if arg_dev_uri args = None then parse_loop argv (args\<lparr>arg_dev_uri := Some a\<rparr>)
      else Inl (Err (- EINVAL)))"

definition parse_args :: "cstr list \<Rightarrow> fail + xal_cli_args" where
  "parse_args argv =
     (if length argv < 2 then Inl (Err (- EINVAL))
      else sbind (parse_loop (tl argv) no_args) (\<lambda>args.
             if arg_dev_uri args = None then Inl (Err (- EINVAL)) else Inr args))"

section \<open>Callbacks of the walk\<close>

text \<open>
  The counters of \<open>struct xal_nodeinspector_args\<close> and stdout. A fault inside a callback is kept in place
  of the data, and stops the walk.
\<close>

record inspector =
  ndirs :: u64
  nfiles :: u64
  stdout_bytes :: cstr

definition emit :: "cstr \<Rightarrow> inspector \<Rightarrow> inspector" where
  "emit s st = st\<lparr>stdout_bytes := stdout_bytes st @ s\<rparr>"

definition node_callback ::
  "(xal \<Rightarrow> nat \<Rightarrow> inspector \<Rightarrow> fail + inspector) \<Rightarrow> (fail + inspector) walk_cb" where
  "node_callback f x i c level =
     (case c of
        Inl e \<Rightarrow> (1, Inl e)
      | Inr st \<Rightarrow> (case f x i st of Inl e \<Rightarrow> (1, Inl e) | Inr st' \<Rightarrow> (0, Inr st')))"

text \<open>The device, a separator and the path, as both callbacks print it.\<close>

definition node_path :: "nat \<Rightarrow> cstr \<Rightarrow> xal \<Rightarrow> nat \<Rightarrow> fail + cstr" where
  "node_path fuel uri x i =
     sbind (if parent_idx (xal_inode_at x i) = XAL_POOL_IDX_NONE then Inr []
            else if uri = [] then Inl (Fault OutOfBounds)
            else Inr (if last uri = 47 then [47] else [])) (\<lambda>sep.
     sbind (xal_inode_path_pp fuel x i) (\<lambda>path. Inr (uri @ sep @ path)))"

definition unknown_node :: "xal_inode \<Rightarrow> cstr" where
  "unknown_node inode = bytes_of ''# UNKNOWN('' @ prec_str (unat (namelen inode)) (name inode) @ bytes_of '')''"

definition node_inspector_find :: "nat \<Rightarrow> cstr \<Rightarrow> xal \<Rightarrow> nat \<Rightarrow> inspector \<Rightarrow> fail + inspector" where
  "node_inspector_find fuel uri x i st =
     (let inode = xal_inode_at x i
      in if xal_inode_is_dir inode \<or> xal_inode_is_file inode then
           let st = (if xal_inode_is_dir inode then st\<lparr>ndirs := ndirs st + 1\<rparr> else st\<lparr>nfiles := nfiles st + 1\<rparr>)
           in sbind (node_path fuel uri x i) (\<lambda>p. Inr (emit (p @ [10]) st))
         else Inr (emit (unknown_node inode) st))"

definition pp_inode_extents :: "xal \<Rightarrow> xal_inode \<Rightarrow> cstr" where
  "pp_inode_extents x inode =
     concat (map (\<lambda>i. bmap_line (bmap_range x (xal_extent_at x (extents_idx inode + i)))) [0..<extents_count inode])"

definition node_inspector_bmap :: "nat \<Rightarrow> cstr \<Rightarrow> xal \<Rightarrow> nat \<Rightarrow> inspector \<Rightarrow> fail + inspector" where
  "node_inspector_bmap fuel uri x i st =
     (let inode = xal_inode_at x i
      in if xal_inode_is_dir inode then Inr (st\<lparr>ndirs := ndirs st + 1\<rparr>)
         else if xal_inode_is_file inode then
           sbind (node_path fuel uri x i) (\<lambda>p.
             Inr (emit ([39] @ p @ [39, 58] @
                        (if extents_count inode = 0 then bytes_of '' ~'' @ [10] else [10] @ pp_inode_extents x inode))
                    (st\<lparr>nfiles := nfiles st + 1\<rparr>)))
         else Inr (emit (unknown_node inode) st))"

section \<open>The program\<close>

text \<open>
  What the program meets: the device, the file system when it opens and when it indexes, the dirty flag
  during the two walks, and what the stack holds where \<open>cb_args\<close> is, which the program does not initialise.
\<close>

record cli_env =
  cli_fuel :: nat
  dev_open_errno :: "int option"
  cli_open :: open_env
  index_fs :: fs_env
  index_xfs :: xfs_env
  bmap_loads :: "nat \<Rightarrow> bool"
  find_loads :: "nat \<Rightarrow> bool"
  stack_ndirs :: u64
  stack_nfiles :: u64

text \<open>The functions \<open>index\<close> that the backends put into \<open>struct xal_backend_base\<close>.\<close>

definition backend_index :: "cli_env \<Rightarrow> xal \<Rightarrow> (unit, xal) outcome" where
  "backend_index env x =
     (case be_type x of
        XAL_BACKEND_XFS \<Rightarrow> xal_be_xfs_index (cli_fuel env) (index_xfs env) x
      | XAL_BACKEND_FIEMAP \<Rightarrow> xal_be_fiemap_index (cli_fuel env) (index_fs env) x
      | _ \<Rightarrow> (Inl (Fault NullDeref), x))"

text \<open>A message with an error number, and a walk from the root with fresh counters.\<close>

definition err_line :: "string \<Rightarrow> int \<Rightarrow> cstr" where
  "err_line msg err = bytes_of msg @ bytes_of ''; err('' @ sdec err @ bytes_of '')'' @ [10]"

definition run_walk ::
  "cli_env \<Rightarrow> (nat \<Rightarrow> bool) \<Rightarrow> (xal \<Rightarrow> nat \<Rightarrow> inspector \<Rightarrow> fail + inspector) \<Rightarrow> string \<Rightarrow> xal \<Rightarrow> inspector
     \<Rightarrow> fail + int \<times> inspector" where
  "run_walk env loads f msg x st =
     (case xal_walk (cli_fuel env) loads x (xal_get_root x) (Some (node_callback f))
             (Inr (st\<lparr>ndirs := 0, nfiles := 0\<rparr>)) of
        (_, Inl e) \<Rightarrow> Inl e
      | (Inl (Fault e), _) \<Rightarrow> Inl (Fault e)
      | (Inl (Err err), Inr st) \<Rightarrow> Inr (err, emit (err_line msg err) st)
      | (Inr (), Inr st) \<Rightarrow> Inr (0, st))"

text \<open>What follows the index, up to the label \<open>exit\<close>: the error and stdout.\<close>

definition cli_filename :: "xal_cli_args \<Rightarrow> xal \<Rightarrow> inspector \<Rightarrow> fail + int \<times> inspector" where
  "cli_filename args x st =
     (case arg_filename args of
        None \<Rightarrow> Inr (0, st)
      | Some path \<Rightarrow>
          (case xal_get_inode (Some x) (Some path) of
             Inl (Fault e) \<Rightarrow> Inl (Fault e)
           | Inl (Err err) \<Rightarrow> Inr (err, emit (err_line ''FAILED: xal_get_inode()'' err) st)
           | Inr i \<Rightarrow>
               let inode = xal_inode_at x i
               in Inr (0, emit ([39] @ cstr_of (name inode) @ [39, 58, 10] @ pp_inode_extents x inode) st)))"

definition cli_actions :: "cli_env \<Rightarrow> xal_cli_args \<Rightarrow> xal \<Rightarrow> inspector \<Rightarrow> fail + int \<times> inspector" where
  "cli_actions env args x st =
     (let uri = the (arg_dev_uri args); fuel = cli_fuel env
      in sbind (if arg_bmap args
                then run_walk env (bmap_loads env) (node_inspector_bmap fuel uri)
                       ''xal_walk(.. node_visistor_bmap ..)'' x st
                else Inr (0, st)) (\<lambda>(err, st).
         if err \<noteq> 0 then Inr (err, st)
         else
         sbind (if arg_find args
                then run_walk env (find_loads env) (node_inspector_find fuel uri)
                       ''xal_walk(.. node_visistor_find ..)'' x st
                else Inr (0, st)) (\<lambda>(err, st).
         if err \<noteq> 0 then Inr (err, st)
         else
         sbind (cli_filename args x st) (\<lambda>(err, st).
         if err \<noteq> 0 then Inr (err, st)
         else Inr (0, if arg_stats args
                      then emit (bytes_of ''ndirs('' @ dec (unat (ndirs st)) @ bytes_of ''); nfiles('' @
                                 dec (unat (nfiles st)) @ bytes_of '')'' @ [10]) st
                      else st)))))"

definition cli_backend :: "xal_cli_args \<Rightarrow> fail + xal_opts" where
  "cli_backend args =
     (let opts = opts_default\<lparr>opt_file_lookupmode :=
            (if arg_file_lookup_map args then XAL_FILE_LOOKUPMODE_HASHMAP else XAL_FILE_LOOKUPMODE_TRAVERSE)\<rparr>
      in case arg_backend args of
           Some b \<Rightarrow>
             if b = bytes_of ''xfs'' then Inr (opts\<lparr>opt_be := XAL_BACKEND_XFS\<rparr>)
             else if b = bytes_of ''fiemap'' then Inr (opts\<lparr>opt_be := XAL_BACKEND_FIEMAP\<rparr>)
             else Inl (Err (- EINVAL))
         | None \<Rightarrow> Inr (if arg_filename args = None then opts else opts\<lparr>opt_be := XAL_BACKEND_FIEMAP\<rparr>))"

text \<open>From the open xal on.\<close>

definition cli_run :: "cli_env \<Rightarrow> xal_cli_args \<Rightarrow> xal \<Rightarrow> fail + int \<times> cstr" where
  "cli_run env args x =
     sbind (if arg_meta args then sbind (xal_pp (Some x)) (\<lambda>out. Inr (snd out)) else Inr []) (\<lambda>out.
     let st = \<lparr>ndirs = stack_ndirs env, nfiles = stack_nfiles env, stdout_bytes = out\<rparr>
     in case xal_dinodes_retrieve (cli_fuel env) (index_xfs env) x of
          (Inl (Fault e), x) \<Rightarrow> Inl (Fault e)
        | (Inl (Err err), x) \<Rightarrow> Inr (err, out @ err_line ''xal_dinodes_retrieve(...)'' err)
        | (Inr (), x) \<Rightarrow>
            (case xal_index (backend_index env) x of
               (Inl (Fault e), x) \<Rightarrow> Inl (Fault e)
             | (Inl (Err err), x) \<Rightarrow> Inr (- err, out @ err_line ''xal_index(...)'' err)
             | (Inr (), x) \<Rightarrow>
                 sbind (cli_actions env args x st) (\<lambda>(err, st). Inr (- err, stdout_bytes st))))"

text \<open>
  \<open>main\<close>: what it returns and stdout. When \<open>xal_open\<close> returns an error that is not negative, the
  program goes on with what the handle holds.
\<close>

definition cli_main :: "cli_env \<Rightarrow> cstr list \<Rightarrow> fail + int \<times> cstr" where
  "cli_main env argv =
     (case parse_args argv of
        Inl (Fault e) \<Rightarrow> Inl (Fault e)
      | Inl (Err err) \<Rightarrow> Inr (err, [])
      | Inr args \<Rightarrow>
          (case dev_open_errno env of
             Some e \<Rightarrow> Inr (- e, err_line ''xnvme_dev_open(...)'' e)
           | None \<Rightarrow>
               (case cli_backend args of
                  Inl (Fault e) \<Rightarrow> Inl (Fault e)
                | Inl (Err err) \<Rightarrow>
                    Inr (err, bytes_of ''Invalid backend: '' @ the (arg_backend args) @
                              bytes_of ''; Valid choices: xfs, fiemap'' @ [10])
                | Inr opts \<Rightarrow>
                    (case xal_open (cli_fuel env) (cli_open env) True (Some opts) of
                       (Inl (Fault e), _) \<Rightarrow> Inl (Fault e)
                     | (Inl (Err err), h, _) \<Rightarrow>
                         if err < 0 then Inr (- err, err_line ''xal_open(...)'' err)
                         else (case h of HandleOpen x \<Rightarrow> cli_run env args x | _ \<Rightarrow> Inl (Fault UseAfterFree))
                     | (Inr (), HandleOpen x, _) \<Rightarrow> cli_run env args x
                     | (Inr (), _, _) \<Rightarrow> Inl (Fault UseAfterFree)))))"

section \<open>The dump of a buffer\<close>

text \<open>\<open>dump_bytes\<close>; \<open>%03d\<close> pads to three digits.\<close>

definition dec3 :: "nat \<Rightarrow> cstr" where
  "dec3 n = replicate (3 - length (dec n)) 48 @ dec n"

definition dump_bytes :: "u8 list \<Rightarrow> nat \<Rightarrow> fail + cstr" where
  "dump_bytes buf nbytes =
     (if length buf < nbytes then Inl (Fault OutOfBounds)
      else Inr (concat (map (\<lambda>i.
             let val = buf ! i
             in dec3 i @ bytes_of '': '' @
                (if 31 < val \<and> val < 127 then [39, val, 39] else dec (unat val)) @ [10]) [0..<nbytes])))"

section \<open>The reference tool\<close>

text \<open>
  \<open>process_file\<close>: \<open>fm start\<close> is what the ioctl stores in \<open>fm_extents\<close> for a request from \<open>start\<close> on, or
  nothing when it fails. One request has room for 2396744 extents.
\<close>

abbreviation FIEMAP_EXTENT_LAST :: u32 where "FIEMAP_EXTENT_LAST \<equiv> 1"

text \<open>
  The unit of the numbers is \<open>BLOCK_SIZE\<close>: the macro of \<open>linux/fs.h\<close> if that header defines one, which
  the headers of Linux do with the value 1024, and 512 otherwise. \<open>hdr\<close> is what the header says.
\<close>

definition block_size :: "u64 option \<Rightarrow> u64" where
  "block_size hdr = (case hdr of None \<Rightarrow> 512 | Some n \<Rightarrow> n)"

definition tool_range :: "u64 \<Rightarrow> fiemap_extent \<Rightarrow> u64 \<times> u64 \<times> u64 \<times> u64" where
  "tool_range bsz e =
     (let logical_start = fe_logical e div bsz; physical_start = fe_physical e div bsz;
          length_blocks = fe_length e div bsz;
          logical_end = logical_start + length_blocks - 1; physical_end = physical_start + length_blocks - 1
      in (logical_start, logical_end, physical_start, physical_end))"

definition tool_line :: "u64 \<Rightarrow> fiemap_extent \<Rightarrow> cstr" where
  "tool_line bsz e = bmap_line (tool_range bsz e)"

fun tool_loop :: "u64 \<Rightarrow> nat \<Rightarrow> (u64 \<Rightarrow> fiemap_extent list option) \<Rightarrow> cstr \<Rightarrow> u64 \<Rightarrow> bool \<Rightarrow> fail + cstr" where
  "tool_loop bsz 0 fm fpath start printed = Inl (Fault OutOfFuel)"
| "tool_loop bsz (Suc fuel) fm fpath start printed =
     (case fm start of
        None \<Rightarrow> Inr []
      | Some es \<Rightarrow>
          if es = [] then Inr []
          else
            let out = (if printed then [] else [34] @ fpath @ [34, 58, 10]) @ concat (map (tool_line bsz) es); e = last es
            in if fe_flags e AND FIEMAP_EXTENT_LAST \<noteq> 0 then Inr out
               else sbind (tool_loop bsz fuel fm fpath (fe_logical e + fe_length e) True) (\<lambda>more. Inr (out @ more)))"

definition process_file ::
  "u64 option \<Rightarrow> nat \<Rightarrow> bool \<Rightarrow> bool \<Rightarrow> (u64 \<Rightarrow> fiemap_extent list option) \<Rightarrow> cstr \<Rightarrow> fail + cstr" where
  "process_file hdr fuel is_file can_open fm fpath =
     (if \<not> is_file \<or> \<not> can_open then Inr [] else tool_loop (block_size hdr) fuel fm fpath 0 False)"

section \<open>Arguments read back\<close>

definition opt_flag :: "bool \<Rightarrow> string \<Rightarrow> cstr list" where
  "opt_flag b s = (if b then [bytes_of s] else [])"

definition opt_value :: "cstr option \<Rightarrow> string \<Rightarrow> cstr list" where
  "opt_value v s = (case v of None \<Rightarrow> [] | Some v \<Rightarrow> [bytes_of s, v])"

definition unparse_args :: "xal_cli_args \<Rightarrow> cstr list" where
  "unparse_args args =
     opt_flag (arg_bmap args) ''--bmap'' @ opt_flag (arg_find args) ''--find'' @ opt_flag (arg_meta args) ''--meta'' @
     opt_flag (arg_stats args) ''--stats'' @ opt_flag (arg_file_lookup_map args) ''--file_lookup_map'' @
     opt_value (arg_backend args) ''--backend'' @ opt_value (arg_filename args) ''--filename'' @
     (case arg_dev_uri args of None \<Rightarrow> [] | Some uri \<Rightarrow> [uri])"

definition is_option :: "cstr \<Rightarrow> bool" where
  "is_option a \<longleftrightarrow> a \<in> set (map bytes_of
     [''--bmap'', ''--find'', ''--meta'', ''--stats'', ''--file_lookup_map'', ''--backend'', ''--filename''])"

lemma parse_flags:
  "parse_loop (opt_flag b ''--bmap'' @ argv) args = parse_loop argv (args\<lparr>arg_bmap := arg_bmap args \<or> b\<rparr>)"
  "parse_loop (opt_flag b ''--find'' @ argv) args = parse_loop argv (args\<lparr>arg_find := arg_find args \<or> b\<rparr>)"
  "parse_loop (opt_flag b ''--meta'' @ argv) args = parse_loop argv (args\<lparr>arg_meta := arg_meta args \<or> b\<rparr>)"
  "parse_loop (opt_flag b ''--stats'' @ argv) args = parse_loop argv (args\<lparr>arg_stats := arg_stats args \<or> b\<rparr>)"
  "parse_loop (opt_flag b ''--file_lookup_map'' @ argv) args =
     parse_loop argv (args\<lparr>arg_file_lookup_map := arg_file_lookup_map args \<or> b\<rparr>)"
  "parse_loop (opt_value v ''--backend'' @ argv) args =
     parse_loop argv (if v = None then args else args\<lparr>arg_backend := v\<rparr>)"
  "parse_loop (opt_value v ''--filename'' @ argv) args =
     parse_loop argv (if v = None then args else args\<lparr>arg_filename := v\<rparr>)"
  by (simp_all add: opt_flag_def opt_value_def bytes_of_def split: option.split)

text \<open>
  C21 (the command line is read back). Every set of arguments, written as options in front of a device that
  is not spelled like one of them, is what \<open>parse_args\<close> reads.
\<close>

theorem parse_args_roundtrip:
  assumes "arg_dev_uri args = Some uri" and "\<not> is_option uri"
  shows "parse_args (prog # unparse_args args) = Inr args"
proof -
  have dev: "parse_loop [uri] a = Inr (a\<lparr>arg_dev_uri := Some uri\<rparr>)" if "arg_dev_uri a = None" for a
    using assms(2) that by (simp add: is_option_def)
  have len: "1 < length (prog # unparse_args args)" by (simp add: unparse_args_def assms(1))
  have "parse_loop (unparse_args args) no_args = Inr args"
    unfolding unparse_args_def parse_flags assms(1) option.case
    by (subst dev) (use assms(1) in \<open>cases args, simp add: no_args_def\<close>)+
  with len show ?thesis by (simp add: parse_args_def assms(1))
qed

theorem parse_args_roundtrip_witness:
  "parse_args [bytes_of ''xal'', bytes_of ''--bmap'', bytes_of ''--backend'', bytes_of ''xfs'', bytes_of ''/dev/x''] =
     Inr (no_args\<lparr>arg_bmap := True, arg_backend := Some (bytes_of ''xfs''), arg_dev_uri := Some (bytes_of ''/dev/x'')\<rparr>)"
proof -
  let ?args = "no_args\<lparr>arg_bmap := True, arg_backend := Some (bytes_of ''xfs''), arg_dev_uri := Some (bytes_of ''/dev/x'')\<rparr>"
  have "\<not> is_option (bytes_of ''/dev/x'')" by (simp add: is_option_def bytes_of_def)
  moreover have "unparse_args ?args =
      [bytes_of ''--bmap'', bytes_of ''--backend'', bytes_of ''xfs'', bytes_of ''/dev/x'']"
    by (simp add: unparse_args_def opt_flag_def opt_value_def no_args_def)
  ultimately show ?thesis using parse_args_roundtrip [of ?args "bytes_of ''/dev/x''" "bytes_of ''xal''"] by simp
qed

section \<open>Paths of inodes\<close>

lemma descendant_before:
  assumes "descendant m r j" and "tree_wf m n" and "r < n"
  shows "j < n \<and> (j = r \<or> (parent_of m j < j \<and> descendant m r (parent_of m j)))"
  using assms(1,3)
proof (induction rule: descendant.induct)
  case (child i k j)
  note c = tree_child [OF assms(2) child.prems child.hyps(1,2)]
  from child.IH c(2) have IH: "j < n" "j = dentries_idx (m i) + k \<or>
      parent_of m j < j \<and> descendant m (dentries_idx (m i) + k) (parent_of m j)" by auto
  then show ?case
    using c descendant.child [of m i k, OF child.hyps(1,2)] descendant.self by auto
qed simp

text \<open>On a tree the chain of parents ends, so the path is printed.\<close>

lemma path_pp_ends:
  assumes wf: "tree_wf (memory (inodes x)) n" "r < n" and root: "parent_idx (xal_inode_at x r) = XAL_POOL_IDX_NONE"
  shows "descendant (memory (inodes x)) r j \<Longrightarrow> j < fuel \<Longrightarrow> \<exists>p. xal_inode_path_pp fuel x j = Inr p"
proof (induction j arbitrary: fuel rule: less_induct)
  case (less j)
  then obtain g where g: "fuel = Suc g" by (cases fuel) auto
  show ?case
  proof (cases "parent_idx (xal_inode_at x j) = XAL_POOL_IDX_NONE")
    case False
    then have "j \<noteq> r" using root by auto
    with descendant_before [OF less.prems(1) wf]
    have p: "parent_of (memory (inodes x)) j < j" "descendant (memory (inodes x)) r (parent_of (memory (inodes x)) j)"
      by simp_all
    from less.IH [OF p, of g] less.prems(2) g p(1) False show ?thesis
      by (auto simp: parent_of_def xal_inode_at_def Let_def)
  qed (simp add: g)
qed

lemma node_path_ends:
  assumes "tree_wf (memory (inodes x)) n" and "r < n" and "parent_idx (xal_inode_at x r) = XAL_POOL_IDX_NONE"
    and "uri \<noteq> []" and "descendant (memory (inodes x)) r j" and "n \<le> fuel"
  shows "\<exists>p. node_path fuel uri x j = Inr p"
proof -
  have "j < fuel" using descendant_before [OF assms(5,1,2)] assms(6) by simp
  from path_pp_ends [OF assms(1-3,5) this] assms(4) show ?thesis by (auto simp: node_path_def)
qed

section \<open>A walk that nothing interrupts\<close>

definition node_text :: "nat \<Rightarrow> cstr \<Rightarrow> xal \<Rightarrow> nat \<Rightarrow> cstr" where
  "node_text fuel uri x i = (case node_path fuel uri x i of Inr p \<Rightarrow> p | Inl e \<Rightarrow> [])"

lemma node_callbacks:
  assumes "\<And>k. \<not> loads k" and "\<And>v st. v \<in> set vs \<Longrightarrow> f x (fst v) st = Inr (g (fst v) st)"
  shows "\<exists>k'. for_each (walk_visit loads x (Some (node_callback f))) vs (Inr st, k) =
    (Inr (), Inr (fold g (map fst vs) st), k')"
  using assms(2)
proof (induction vs arbitrary: st k)
  case (Cons v vs)
  have "walk_visit loads x (Some (node_callback f)) v (Inr st, k) = (Inr (), Inr (g (fst v) st), Suc k)"
    using Cons.prems [of v st] assms(1) by (simp add: walk_visit_def cb_step_def node_callback_def)
  with Cons.IH [of "g (fst v) st" "Suc k"] Cons.prems show ?case by auto
qed simp

text \<open>What both backends leave: a tree below the root at position 0.\<close>

definition rooted :: "xal \<Rightarrow> bool" where
  "rooted x \<longleftrightarrow>
     0 < itop x \<and> tree_wf (imem x) (itop x) \<and> {j. descendant (imem x) 0 j} = {0..<itop x} \<and>
     xal_get_root x = 0 \<and> parent_idx (imem x 0) = XAL_POOL_IDX_NONE"

definition walk_order :: "xal \<Rightarrow> nat list" where
  "walk_order x = map fst (tree_order (imem x) (itop x) 0)"

lemma walk_order_set:
  assumes "rooted x"
  shows "distinct (walk_order x)" "set (walk_order x) = {0..<itop x}"
  using assms subtree_distinct [of "imem x" "itop x" 0 "itop x"] tree_order_set [of "imem x" "itop x" 0]
  by (simp_all add: rooted_def walk_order_def tree_order_def preorder_fst)

lemma walk_count:
  assumes "rooted x"
  shows "unat (of_nat (length (filter (\<lambda>i. P (imem x i)) (walk_order x))) :: u64) = card {i. i < itop x \<and> P (imem x i)}"
proof -
  note ord = walk_order_set [OF assms]
  let ?xs = "filter (\<lambda>i. P (imem x i)) (walk_order x)"
  have "length ?xs = card (set ?xs)" using ord(1) distinct_card [of ?xs] by (metis distinct_filter)
  moreover have "set ?xs = {i. i < itop x \<and> P (imem x i)}" using ord(2) by auto
  moreover have "length ?xs \<le> itop x"
    using ord distinct_card [of "walk_order x"] length_filter_le [of "\<lambda>i. P (imem x i)" "walk_order x"] by simp
  moreover have "itop x < 2 ^ LENGTH(64)" by (rule unsigned_less)
  ultimately show ?thesis by (simp add: unat_of_nat_small)
qed

lemma rooted_kind: "rooted x \<Longrightarrow> i < itop x \<Longrightarrow> xal_inode_is_dir (imem x i) \<or> xal_inode_is_file (imem x i)"
  by (auto simp: rooted_def tree_wf_def)

lemma rooted_path:
  assumes "rooted x" and "uri \<noteq> []" and "i < itop x" and "itop x \<le> fuel"
  shows "node_path fuel uri x i = Inr (node_text fuel uri x i)"
proof -
  have "tree_wf (imem x) (itop x)" "0 < itop x" "descendant (imem x) 0 i"
    using assms(1,3) by (auto simp: rooted_def)
  moreover have "parent_idx (xal_inode_at x 0) = XAL_POOL_IDX_NONE" using assms(1) by (simp add: rooted_def xal_inode_at_def)
  ultimately show ?thesis using node_path_ends [of x "itop x" 0 uri i fuel] assms(2,4) by (auto simp: node_text_def)
qed

lemma run_walk_rooted:
  assumes "rooted x" and "itop x \<le> cli_fuel env" and "\<And>k. \<not> loads k"
    and "\<And>i st. i < itop x \<Longrightarrow> f x i st = Inr (g i st)"
  shows "run_walk env loads f msg x st = Inr (0, fold g (walk_order x) (st\<lparr>ndirs := 0, nfiles := 0\<rparr>))"
proof -
  have wf: "tree_wf (imem x) (itop x)" "0 < itop x" and root: "xal_get_root x = 0"
    using assms(1) by (simp_all add: rooted_def)
  have f: "f x (fst v) st = Inr (g (fst v) st)" if "v \<in> set (tree_order (imem x) (itop x) 0)" for v st
    using walk_order_set(2) [OF assms(1)] that by (intro assms(4)) (auto simp: walk_order_def)
  from node_callbacks [of loads "tree_order (imem x) (itop x) 0" f x g, OF assms(3) f] obtain k' where
    "for_each (walk_visit loads x (Some (node_callback f))) (tree_order (imem x) (itop x) 0)
       (Inr (st\<lparr>ndirs := 0, nfiles := 0\<rparr>), 0) = (Inr (), Inr (fold g (walk_order x) (st\<lparr>ndirs := 0, nfiles := 0\<rparr>)), k')"
    by (auto simp: walk_order_def)
  then have "xal_walk (cli_fuel env) loads x 0 (Some (node_callback f)) (Inr (st\<lparr>ndirs := 0, nfiles := 0\<rparr>)) =
      (Inr (), Inr (fold g (walk_order x) (st\<lparr>ndirs := 0, nfiles := 0\<rparr>)))"
    by (subst xal_walk_tree_order [OF wf]) (use assms(2) in simp_all)
  then show ?thesis by (simp only: run_walk_def root prod.case sum.case unit.case)
qed

text \<open>What the callbacks do to the counters and to stdout.\<close>

definition count_node :: "xal \<Rightarrow> nat \<Rightarrow> inspector \<Rightarrow> inspector" where
  "count_node x i st =
     (if xal_inode_is_dir (imem x i) then st\<lparr>ndirs := ndirs st + 1\<rparr> else st\<lparr>nfiles := nfiles st + 1\<rparr>)"

definition listing :: "xal \<Rightarrow> (nat \<Rightarrow> cstr) \<Rightarrow> nat list \<Rightarrow> inspector \<Rightarrow> inspector" where
  "listing x text is st =
     \<lparr>ndirs = ndirs st + of_nat (length (filter (\<lambda>i. xal_inode_is_dir (imem x i)) is)),
      nfiles = nfiles st + of_nat (length (filter (\<lambda>i. \<not> xal_inode_is_dir (imem x i)) is)),
      stdout_bytes = stdout_bytes st @ concat (map text is)\<rparr>"

lemma fold_listing: "fold (\<lambda>i st. emit (text i) (count_node x i st)) is st = listing x text is st"
proof (induction "is" arbitrary: st)
  case (Cons i "is")
  then show ?case by (simp add: listing_def emit_def count_node_def)
qed (simp add: listing_def)

lemma find_callback:
  assumes "rooted x" and "uri \<noteq> []" and "i < itop x" and "itop x \<le> fuel"
  shows "node_inspector_find fuel uri x i st = Inr (emit (node_text fuel uri x i @ [10]) (count_node x i st))"
  using rooted_kind [OF assms(1,3)] rooted_path [OF assms]
  by (auto simp: node_inspector_find_def count_node_def Let_def xal_inode_at_def)

definition bmap_text :: "nat \<Rightarrow> cstr \<Rightarrow> xal \<Rightarrow> nat \<Rightarrow> cstr" where
  "bmap_text fuel uri x i =
     (if xal_inode_is_dir (imem x i) then []
      else [39] @ node_text fuel uri x i @ [39, 58] @
        (if extents_count (imem x i) = 0 then bytes_of '' ~'' @ [10] else [10] @ pp_inode_extents x (imem x i)))"

lemma bmap_callback:
  assumes "rooted x" and "uri \<noteq> []" and "i < itop x" and "itop x \<le> fuel"
  shows "node_inspector_bmap fuel uri x i st = Inr (emit (bmap_text fuel uri x i) (count_node x i st))"
  using rooted_kind [OF assms(1,3)] rooted_path [OF assms]
  by (auto simp: node_inspector_bmap_def count_node_def bmap_text_def Let_def xal_inode_at_def emit_def)

section \<open>Backends\<close>

text \<open>
  What the command line needs of a backend: on a handle that is \<open>ready\<close>, a successful \<open>index\<close> leaves a
  rooted tree. The listings of \<open>--find\<close> and \<open>--bmap\<close> follow for every backend.
\<close>

locale index_backend =
  fixes index :: "xal \<Rightarrow> (unit, xal) outcome" and ready :: "xal \<Rightarrow> bool"
  assumes index_rooted: "ready x \<Longrightarrow> index x = (Inr u, x') \<Longrightarrow> rooted x'"
begin

lemma find_lists:
  assumes "ready x" and "index x = (Inr u, x')" and "itop x' \<le> cli_fuel env" and "uri \<noteq> []" and "\<And>k. \<not> loads k"
  shows "run_walk env loads (node_inspector_find (cli_fuel env) uri) msg x' st =
    Inr (0, listing x' (\<lambda>i. node_text (cli_fuel env) uri x' i @ [10]) (walk_order x') (st\<lparr>ndirs := 0, nfiles := 0\<rparr>))"
proof -
  have r: "rooted x'" by (rule index_rooted [OF assms(1,2)])
  show ?thesis
    unfolding fold_listing [symmetric]
    by (rule run_walk_rooted [OF r assms(3,5)]) (rule find_callback [OF r assms(4) _ assms(3)])
qed

lemma bmap_lists:
  assumes "ready x" and "index x = (Inr u, x')" and "itop x' \<le> cli_fuel env" and "uri \<noteq> []" and "\<And>k. \<not> loads k"
  shows "run_walk env loads (node_inspector_bmap (cli_fuel env) uri) msg x' st =
    Inr (0, listing x' (bmap_text (cli_fuel env) uri x') (walk_order x') (st\<lparr>ndirs := 0, nfiles := 0\<rparr>))"
proof -
  have r: "rooted x'" by (rule index_rooted [OF assms(1,2)])
  show ?thesis
    unfolding fold_listing [symmetric]
    by (rule run_walk_rooted [OF r assms(3,5)]) (rule bmap_callback [OF r assms(4) _ assms(3)])
qed

end

definition xfs_ready :: "xfs_env \<Rightarrow> xal \<Rightarrow> bool" where
  "xfs_ready env x \<longleftrightarrow>
     xfs_good env x \<and>
     (free (inodes x) = 0 \<or> os_mprotect (inodes_os env) (reserved (inodes x) * element_size (inodes x)) = 0)"

interpretation xfs_backend: index_backend "xal_be_xfs_index fuel env" "xfs_ready env" for fuel env
proof unfold_locales
  fix x u x' assume "xfs_ready env x" and run: "xal_be_xfs_index fuel env x = (Inr u, x')"
  then have "xfs_good env x" "free (inodes x) = 0 \<or>
      os_mprotect (inodes_os env) (reserved (inodes x) * element_size (inodes x)) = 0"
    by (simp_all add: xfs_ready_def)
  from xfs_index_ok [OF this run] show "rooted x'" by (simp add: rooted_def xal_get_root_def)
qed

interpretation fiemap_backend: index_backend "xal_be_fiemap_index fuel env" "index_start env" for fuel env
proof unfold_locales
  fix x u x' assume "index_start env x" and "xal_be_fiemap_index fuel env x = (Inr u, x')"
  from fiemap_index_ok [OF this] show "rooted x'" by (simp add: rooted_def xal_get_root_def)
qed

definition backend_ready :: "cli_env \<Rightarrow> xal \<Rightarrow> bool" where
  "backend_ready env x \<longleftrightarrow>
     be_type x = XAL_BACKEND_XFS \<and> xfs_ready (index_xfs env) x \<or>
     be_type x = XAL_BACKEND_FIEMAP \<and> index_start (index_fs env) x"

interpretation any_backend: index_backend "backend_index env" "backend_ready env" for env
proof unfold_locales
  fix x u x' assume ready: "backend_ready env x" and run: "backend_index env x = (Inr u, x')"
  then consider "xfs_ready (index_xfs env) x" "xal_be_xfs_index (cli_fuel env) (index_xfs env) x = (Inr u, x')"
    | "index_start (index_fs env) x" "xal_be_fiemap_index (cli_fuel env) (index_fs env) x = (Inr u, x')"
    by (auto simp: backend_ready_def backend_index_def)
  then show "rooted x'"
    by cases (rule xfs_backend.index_rooted fiemap_backend.index_rooted, assumption, assumption)+
qed

text \<open>
  C8 (\<open>--bmap --find\<close> list everything once). After a successful index by either backend, with a device that
  has a name and no change reported during the walks, the program lists the extents of every file and then
  every inode: each claimed inode exactly once, parents first; the two counters are the numbers of
  directories and of files of the tree.
\<close>

theorem cli_lists_everything:
  assumes "backend_ready env x" and "backend_index env x = (Inr u, x')"
    and "itop x' \<le> cli_fuel env" and "\<forall>k. \<not> bmap_loads env k \<and> \<not> find_loads env k"
    and "arg_bmap args" and "arg_find args" and "\<not> arg_stats args" and "arg_filename args = None"
    and "arg_dev_uri args = Some uri" and "uri \<noteq> []"
  shows "\<exists>st'. cli_actions env args x' st = Inr (0, st') \<and>
    stdout_bytes st' = stdout_bytes st @ concat (map (bmap_text (cli_fuel env) uri x') (walk_order x')) @
      concat (map (\<lambda>i. node_text (cli_fuel env) uri x' i @ [10]) (walk_order x')) \<and>
    unat (ndirs st') = card {i. i < itop x' \<and> xal_inode_is_dir (imem x' i)} \<and>
    unat (nfiles st') = card {i. i < itop x' \<and> xal_inode_is_file (imem x' i)} \<and>
    distinct (walk_order x') \<and> set (walk_order x') = {0..<itop x'} \<and>
    (\<forall>i < itop x'. node_path (cli_fuel env) uri x' i = Inr (node_text (cli_fuel env) uri x' i))"
proof -
  have r: "rooted x'" by (rule any_backend.index_rooted [OF assms(1,2)])
  note ord = walk_order_set [OF r]
  have loads: "\<not> bmap_loads env k" "\<not> find_loads env k" for k using assms(4) by simp_all
  let ?text = "\<lambda>i. node_text (cli_fuel env) uri x' i @ [10]"
  let ?st = "listing x' (bmap_text (cli_fuel env) uri x') (walk_order x') (st\<lparr>ndirs := 0, nfiles := 0\<rparr>)"
  let ?st' = "listing x' ?text (walk_order x') (?st\<lparr>ndirs := 0, nfiles := 0\<rparr>)"
  have run: "cli_actions env args x' st = Inr (0, ?st')"
    using any_backend.bmap_lists [OF assms(1,2,3,10) loads(1)] any_backend.find_lists [OF assms(1,2,3,10) loads(2)] assms(5-9)
    by (simp add: cli_actions_def cli_filename_def Let_def)
  have dirs: "unat (ndirs ?st') = card {i. i < itop x' \<and> xal_inode_is_dir (imem x' i)}"
    using walk_count [OF r, of xal_inode_is_dir] by (simp add: listing_def)
  have "unat (nfiles ?st') = card {i. i < itop x' \<and> \<not> xal_inode_is_dir (imem x' i)}"
    using walk_count [OF r, of "\<lambda>n. \<not> xal_inode_is_dir n"] by (simp add: listing_def)
  moreover have "{i. i < itop x' \<and> \<not> xal_inode_is_dir (imem x' i)} = {i. i < itop x' \<and> xal_inode_is_file (imem x' i)}"
    using rooted_kind [OF r] by (auto simp: xal_inode_is_dir_def xal_inode_is_file_def)
  ultimately have files: "unat (nfiles ?st') = card {i. i < itop x' \<and> xal_inode_is_file (imem x' i)}" by simp
  from run ord rooted_path [OF r assms(10) _ assms(3)] dirs files show ?thesis
    by (intro exI [of _ ?st']) (simp add: listing_def)
qed

definition mini_cli_env :: cli_env where
  "mini_cli_env = \<lparr>cli_fuel = 4, dev_open_errno = None, cli_open = mini_open_env, index_fs = mini_fs,
     index_xfs = open_xfs mini_open_env, bmap_loads = (\<lambda>_. False), find_loads = (\<lambda>_. False),
     stack_ndirs = 7, stack_nfiles = 9\<rparr>"

definition mini_cli_args :: xal_cli_args where
  "mini_cli_args = no_args\<lparr>arg_bmap := True, arg_find := True, arg_dev_uri := Some (bytes_of ''/dev/x'')\<rparr>"

lemma mini_backend: "backend_ready mini_cli_env mini_xal" "backend_index mini_cli_env mini_xal = (Inr (), mini_index)"
proof -
  have "be_type mini_xal = XAL_BACKEND_FIEMAP" by (rule mini_facts)
  then show "backend_ready mini_cli_env mini_xal" "backend_index mini_cli_env mini_xal = (Inr (), mini_index)"
    by (simp_all add: backend_ready_def backend_index_def mini_cli_env_def mini_good mini_run)
qed

theorem cli_lists_everything_witness:
  "\<exists>st'. cli_actions mini_cli_env mini_cli_args mini_index \<lparr>ndirs = 7, nfiles = 9, stdout_bytes = []\<rparr> = Inr (0, st') \<and>
     unat (ndirs st') = 2 \<and> unat (nfiles st') = 2 \<and> set (walk_order mini_index) = {0..<4}"
proof -
  have top: "itop mini_index = 4" by (simp add: mini_index_def)
  have "itop mini_index \<le> cli_fuel mini_cli_env" by (simp add: top mini_cli_env_def)
  moreover have "\<forall>k. \<not> bmap_loads mini_cli_env k \<and> \<not> find_loads mini_cli_env k" by (simp add: mini_cli_env_def)
  moreover have "arg_bmap mini_cli_args" "arg_find mini_cli_args" "\<not> arg_stats mini_cli_args"
    "arg_filename mini_cli_args = None" "arg_dev_uri mini_cli_args = Some (bytes_of ''/dev/x'')"
    by (simp_all add: mini_cli_args_def no_args_def)
  moreover have "bytes_of ''/dev/x'' \<noteq> []" by (simp add: bytes_of_def)
  moreover have "{i. i < (4 :: nat) \<and> xal_inode_is_dir (imem mini_index i)} = {0, 1}"
    "{i. i < (4 :: nat) \<and> xal_inode_is_file (imem mini_index i)} = {2, 3}"
    by (auto simp: mini_index_def mini_tree_def less_Suc_eq numeral_eq_Suc xal_inode_is_dir_def xal_inode_is_file_def
        mini_inode_def)
  ultimately show ?thesis
    using cli_lists_everything [OF mini_backend, of mini_cli_args "bytes_of ''/dev/x''"
        "\<lparr>ndirs = 7, nfiles = 9, stdout_bytes = []\<rparr>"]
    unfolding top by (auto simp: card_insert_if)
qed

section \<open>Paths of a FIEMAP index\<close>

lemma fiemap_path_step:
  assumes x: "indexed env x" and names: "fs_names_ok env" and j: "j < itop x" "j \<noteq> 0"
  shows "parent_of (imem x) j < j \<and> xal_inode_is_dir (imem x (parent_of (imem x) j)) \<and>
    (\<exists>e. name (imem x j) = path_of x (parent_of (imem x) j) @ 47 # e) \<and>
    xal_inode_path_pp (Suc fuel) x j =
      sbind (xal_inode_path_pp fuel x (parent_of (imem x) j)) (\<lambda>out. Inr (out @ 47 # name (imem x j)))"
proof -
  obtain p k where p: "p < j" "xal_inode_is_dir (imem x p)" "k < dentries_count (imem x p)"
    "j = dentries_idx (imem x p) + k" using indexed_parent [OF x j] by blast
  have wf: "tree_wf (imem x) (itop x)" and top: "itop x < 2 ^ 32" and "mirrors env x p"
    using x p(1) j(1) by (simp_all add: indexed_def)
  then have "dir_mirrors env x p" using p(2) by (simp add: mirrors_def)
  then obtain e where e: "name (imem x j) = path_of x p @ 47 # e" "length (name (imem x j)) \<le> XAL_INODE_NAME_MAXLEN"
    "namelen (imem x j) = of_nat (length (name (imem x j)))"
    unfolding dir_mirrors_def p(4) using p(3) by metis
  have par: "parent_of (imem x) j = p" using tree_child(3) [OF wf _ p(2,3)] p(1,4) j(1) by simp
  then have "parent_idx (imem x j) \<noteq> XAL_POOL_IDX_NONE" using p(1) j(1) top by (auto simp: parent_of_def)
  moreover have "unat (namelen (imem x j)) = length (name (imem x j))" using e(2,3) by (simp add: unat_of_nat)
  ultimately show ?thesis
    using p par e(1) name_cstr [OF x names j] by (auto simp: Let_def xal_inode_at_def parent_of_def)
qed

text \<open>
  C30 (\<open>--find\<close> repeats the paths of a mount). The FIEMAP backend stores full paths as names, and the path
  that is printed joins the names of all ancestors: below the first level of directories, the path of the
  directory comes twice in the path of every entry.
\<close>

theorem fiemap_find_repeats_paths:
  assumes "index_start env x" and "is_cstr (mountpoint x)" and "fs_names_ok env"
    and "xal_be_fiemap_index fuel env x = (Inr u, x')" and "j < itop x'"
    and "parent_of (imem x') j \<noteq> 0" and "j \<noteq> 0" and "itop x' \<le> wfuel"
  shows "\<exists>pre entry. xal_inode_path_pp wfuel x' j =
      Inr (pre @ 47 # name (imem x' (parent_of (imem x') j)) @ 47 # name (imem x' (parent_of (imem x') j)) @ 47 # entry) \<and>
    name (imem x' j) = name (imem x' (parent_of (imem x') j)) @ 47 # entry"
proof -
  let ?p = "parent_of (imem x') j"
  have x: "indexed env x'" by (rule fiemap_index_indexed [OF assms(1,2,4)])
  obtain f where f: "wfuel = Suc (Suc f)" using assms(5,7,8) by (cases wfuel) (simp, metis Suc_leI not_less_eq_eq
      le_zero_eq less_Suc0 less_le_trans not0_implies_Suc)
  note sj = fiemap_path_step [OF x assms(3,5,7), of "Suc f"]
  then obtain e where e: "name (imem x' j) = name (imem x' ?p) @ 47 # e" using assms(6) by (auto simp: path_of_def)
  have p: "?p < itop x'" "?p \<noteq> 0" using sj assms(5,6) by auto
  have r: "rooted x'" by (rule fiemap_backend.index_rooted [OF assms(1,4)])
  have "descendant (imem x') 0 ?p" using r p(1) by (auto simp: rooted_def)
  moreover have "?p < Suc f" using sj assms(5,8) f by linarith
  ultimately have "\<exists>out. xal_inode_path_pp (Suc f) x' ?p = Inr out"
    by (intro path_pp_ends [of x' "itop x'" 0]) (use r in \<open>simp_all add: rooted_def xal_inode_at_def\<close>)
  then obtain out where out: "xal_inode_path_pp (Suc f) x' ?p = Inr out" by blast
  obtain pre where pre: "out = pre @ 47 # name (imem x' ?p)"
    using fiemap_path_step [OF x assms(3) p, of f] out by (auto elim!: sbind_InrE)
  show ?thesis
    using sj out e by (intro exI [of _ pre] exI [of _ e]) (simp add: f pre)
qed

theorem fiemap_find_repeats_paths_witness:
  "\<exists>pre entry. xal_inode_path_pp 4 mini_index 3 =
     Inr (pre @ 47 # bytes_of ''/m/a'' @ 47 # bytes_of ''/m/a'' @ 47 # entry) \<and> bytes_of ''/m/a/c'' = bytes_of ''/m/a'' @ 47 # entry"
proof -
  have r: "xal_be_fiemap_index 3 mini_fs mini_xal = (Inr (), mini_index)" by (rule mini_run) simp
  have m: "itop mini_index = 4" "parent_of (imem mini_index) 3 = 1" "name (imem mini_index 1) = bytes_of ''/m/a''"
    "name (imem mini_index 3) = bytes_of ''/m/a/c''"
    by (simp_all add: mini_index_def mini_tree_def mini_paths [symmetric] parent_of_def mini_inode_def)
  from fiemap_find_repeats_paths [OF mini_good mini_facts(1) mini_names_ok r, of 3 4] show ?thesis unfolding m by simp
qed

section \<open>The reference tool\<close>

definition fe_end :: "fiemap_extent \<Rightarrow> nat" where
  "fe_end e = unat (fe_logical e) + unat (fe_length e)"

text \<open>The extents of a file: in order, not empty, and the last one flagged as such.\<close>

fun extents_from :: "nat \<Rightarrow> fiemap_extent list \<Rightarrow> bool" where
  "extents_from lo [] = True"
| "extents_from lo (e # es) \<longleftrightarrow>
     lo \<le> unat (fe_logical e) \<and> 0 < unat (fe_length e) \<and> fe_end e < 2 ^ 64 \<and>
     (fe_flags e AND FIEMAP_EXTENT_LAST \<noteq> 0 \<longleftrightarrow> es = []) \<and> extents_from (fe_end e) es"

text \<open>A kernel that reports up to \<open>chunk\<close> of the extents that reach behind the start of the request.\<close>

definition serves :: "nat \<Rightarrow> fiemap_extent list \<Rightarrow> (u64 \<Rightarrow> fiemap_extent list option) \<Rightarrow> bool" where
  "serves chunk es fm \<longleftrightarrow>
     0 < chunk \<and> (\<forall>start. fm start = Some (take chunk (dropWhile (\<lambda>e. fe_end e \<le> unat start) es)))"

lemma extents_from_after: "extents_from lo es \<Longrightarrow> \<forall>e \<in> set es. lo < fe_end e"
proof (induction es arbitrary: lo)
  case (Cons e es)
  then have "lo < fe_end e" by (simp add: fe_end_def)
  with Cons.IH [of "fe_end e"] Cons.prems show ?case by auto
qed simp

lemma extents_from_split:
  "extents_from lo (xs @ e # ys) \<Longrightarrow>
     (fe_flags e AND FIEMAP_EXTENT_LAST \<noteq> 0 \<longleftrightarrow> ys = []) \<and> unat (fe_logical e + fe_length e) = fe_end e \<and>
     (\<forall>d \<in> set xs. fe_end d \<le> fe_end e) \<and> (\<forall>d \<in> set ys. fe_end e < fe_end d)"
proof (induction xs arbitrary: lo)
  case Nil
  then have "unat (fe_logical e) + unat (fe_length e) < 2 ^ LENGTH(64)" by (simp add: fe_end_def)
  from unat_add_no_wrap [OF this] Nil extents_from_after [of "fe_end e" ys] show ?case by (simp add: fe_end_def)
next
  case (Cons d xs)
  then have "extents_from (fe_end d) (xs @ e # ys)" by simp
  with Cons.IH extents_from_after [OF this] show ?case by auto
qed

lemma served_rest:
  assumes "extents_from 0 (xs @ e # ys)"
  shows "dropWhile (\<lambda>d. fe_end d \<le> unat (fe_logical e + fe_length e)) (xs @ e # ys) = ys"
proof -
  note s = extents_from_split [OF assms]
  have "dropWhile (\<lambda>d. fe_end d \<le> fe_end e) ys = ys" using s by (cases ys) auto
  then show ?thesis using s by (simp add: dropWhile_append2)
qed

lemma tool_loop_prints:
  assumes es: "extents_from 0 es" and fm: "serves chunk es fm"
  shows "es = pre @ rest \<Longrightarrow> dropWhile (\<lambda>d. fe_end d \<le> unat start) es = rest \<Longrightarrow> length rest < fuel \<Longrightarrow>
    tool_loop bsz fuel fm fpath start printed =
      Inr (if rest = [] then []
           else (if printed then [] else [34] @ fpath @ [34, 58, 10]) @ concat (map (tool_line bsz) rest))"
proof (induction fuel arbitrary: pre rest start printed)
  case (Suc fuel)
  have chunk: "0 < chunk" and served: "fm start = Some (take chunk rest)" using fm Suc.prems(2) by (simp_all add: serves_def)
  show ?case
  proof (cases "rest = []")
    case False
    define e where "e = last (take chunk rest)"
    have ne: "take chunk rest \<noteq> []" using False chunk by simp
    have split: "es = (pre @ butlast (take chunk rest)) @ e # drop chunk rest"
      using append_butlast_last_id [OF ne] Suc.prems(1) by (simp add: e_def) (metis append_Cons append_Nil append_assoc append_take_drop_id)
    note s = extents_from_split [OF es [unfolded split]]
    have next_rest: "dropWhile (\<lambda>d. fe_end d \<le> unat (fe_logical e + fe_length e)) es = drop chunk rest"
      unfolding split by (rule served_rest) (use es split in simp)
    show ?thesis
    proof (cases "drop chunk rest = []")
      case True
      then have "take chunk rest = rest" by simp
      with True s False served show ?thesis by (simp add: e_def Let_def)
    next
      case more: False
      have "tool_loop bsz fuel fm fpath (fe_logical e + fe_length e) True = Inr (concat (map (tool_line bsz) (drop chunk rest)))"
        using Suc.IH [of "(pre @ butlast (take chunk rest)) @ [e]", OF _ next_rest, of True] split more Suc.prems(3) chunk by simp
      moreover have "concat (map (tool_line bsz) rest) =
          concat (map (tool_line bsz) (take chunk rest)) @ concat (map (tool_line bsz) (drop chunk rest))"
        by (metis append_take_drop_id concat_append map_append)
      ultimately show ?thesis using s more False ne served by (simp add: e_def [symmetric] Let_def)
    qed
  qed (use served in simp)
qed simp

lemma tool_prints_every_extent_ok:
  assumes "extents_from 0 es" and "serves chunk es fm" and "length es < fuel"
  shows "process_file hdr fuel True True fm fpath =
    Inr (if es = [] then [] else [34] @ fpath @ [34, 58, 10] @ concat (map (tool_line (block_size hdr)) es))"
proof -
  have "dropWhile (\<lambda>d. fe_end d \<le> unat (0 :: u64)) es = es"
    using extents_from_after [OF assms(1)] by (cases es) auto
  from tool_loop_prints [OF assms(1,2) _ this assms(3), of "[]" "block_size hdr" fpath False] show ?thesis
    by (simp add: process_file_def)
qed

text \<open>
  C19 (the tool prints every extent once). Whatever number of extents fits into one request, the loop of
  the tool ends after at most one request per extent, and prints all extents of the file in order.
\<close>

theorem tool_prints_every_extent:
  assumes "extents_from 0 es" and "serves chunk es fm" and "length es < fuel"
  shows "process_file hdr fuel True True fm fpath =
    Inr (if es = [] then [] else [34] @ fpath @ [34, 58, 10] @ concat (map (tool_line (block_size hdr)) es))"
  by (rule tool_prints_every_extent_ok [OF assms])

definition mini_file_extents :: "fiemap_extent list" where
  "mini_file_extents =
     [\<lparr>fe_logical = 0, fe_physical = 0x10000, fe_length = 0x2000, fe_flags = 0\<rparr>,
      \<lparr>fe_logical = 0x2000, fe_physical = 0x80000, fe_length = 0x1000, fe_flags = 1\<rparr>]"

definition honest :: "nat \<Rightarrow> fiemap_extent list \<Rightarrow> u64 \<Rightarrow> fiemap_extent list option" where
  "honest chunk es start = Some (take chunk (dropWhile (\<lambda>e. fe_end e \<le> unat start) es))"

lemma honest_serves: "0 < chunk \<Longrightarrow> serves chunk es (honest chunk es)"
  by (simp add: serves_def honest_def)

theorem tool_prints_every_extent_witness:
  "process_file None 3 True True (honest 1 mini_file_extents) (bytes_of ''/m/b'') =
     Inr ([34] @ bytes_of ''/m/b'' @ [34, 58, 10] @ bytes_of ''- [0, 15, 128, 143]'' @ [10] @
          bytes_of ''- [16, 23, 1024, 1031]'' @ [10])"
proof -
  have "extents_from 0 mini_file_extents" by (simp add: mini_file_extents_def fe_end_def)
  moreover have "serves 1 mini_file_extents (honest 1 mini_file_extents)" by (rule honest_serves) simp
  moreover have "length mini_file_extents < 3" "mini_file_extents \<noteq> []" by (simp_all add: mini_file_extents_def)
  moreover have "concat (map (tool_line (block_size None)) mini_file_extents) =
      bytes_of ''- [0, 15, 128, 143]'' @ [10] @ bytes_of ''- [16, 23, 1024, 1031]'' @ [10]"
    by (simp add: mini_file_extents_def block_size_def tool_line_def tool_range_def bmap_line_def dec.simps digit_def bytes_of_def)
  ultimately show ?thesis
    using tool_prints_every_extent [of mini_file_extents 1 "honest 1 mini_file_extents" 3 None "bytes_of ''/m/b''"] by simp
qed

section \<open>The extents of the library against the tool\<close>

definition block_aligned :: "u32 \<Rightarrow> fiemap_extent \<Rightarrow> bool" where
  "block_aligned bs e \<longleftrightarrow>
     unat bs dvd unat (fe_logical e) \<and> unat bs dvd unat (fe_physical e) \<and> unat bs dvd unat (fe_length e)"

lemma div_mult_aligned:
  assumes "unat bs dvd unat (w :: u64)"
  shows "w div ucast bs * ucast (bs :: u32) = w"
proof -
  have b: "unat (ucast bs :: u64) = unat bs" by (simp add: unat_ucast_up_eq)
  have "unat w < 2 ^ LENGTH(64)" by (rule unsigned_less)
  moreover have m: "unat (w div ucast bs) * unat (ucast bs :: u64) = unat w" using assms by (simp add: unat_div b)
  ultimately have "unat (w div ucast bs * ucast bs :: u64) = unat (w div ucast bs) * unat (ucast bs :: u64)"
    by (intro unat_mult_no_wrap) simp
  with m show ?thesis by (metis unsigned_word_eqI)
qed

lemma unat_numeral_512: "unat (512 :: u64) = 512"
  by simp

lemma bmap_range_fiemap:
  assumes "be_type x = XAL_BACKEND_FIEMAP" and "block_aligned (blocksize (sb x)) e"
  shows "bmap_range x (fiemap_to_extent (blocksize (sb x)) e) = tool_range 512 e"
  using assms
  by (simp add: bmap_range_def tool_range_def fiemap_to_extent_def xal_get_sb_blocksize_def xal_fsbno_offset_def
      block_aligned_def div_mult_aligned Let_def)

text \<open>The bytes that four numbers in units of \<open>u\<close> stand for, and those of an extent of the kernel.\<close>

definition byte_range :: "nat \<Rightarrow> u64 \<times> u64 \<times> u64 \<times> u64 \<Rightarrow> nat \<times> nat \<times> nat \<times> nat" where
  "byte_range u r = (case r of (a, b, c, d) \<Rightarrow> (unat a * u, (unat b + 1) * u, unat c * u, (unat d + 1) * u))"

definition kernel_range :: "fiemap_extent \<Rightarrow> nat \<times> nat \<times> nat \<times> nat" where
  "kernel_range e =
     (unat (fe_logical e), unat (fe_logical e) + unat (fe_length e),
      unat (fe_physical e), unat (fe_physical e) + unat (fe_length e))"

definition unit_aligned :: "u64 \<Rightarrow> fiemap_extent \<Rightarrow> bool" where
  "unit_aligned u e \<longleftrightarrow>
     unat u dvd unat (fe_logical e) \<and> unat u dvd unat (fe_physical e) \<and> unat u dvd unat (fe_length e)"

lemma end_of_units:
  assumes "1 < unat (u :: u64)" and "unat u dvd unat a" and "unat u dvd unat n" and "0 < unat n"
  shows "(unat (a div u + n div u - 1) + 1) * unat u = unat a + unat (n :: u64)"
proof -
  obtain i j where i: "unat a = unat u * i" and j: "unat n = unat u * j" using assms(2,3) by (auto simp: dvd_def)
  have ij: "unat (a div u) = i" "unat (n div u) = j" "0 < j" using assms(1,4) i j by (auto simp: unat_div)
  have "2 * i \<le> unat a" "2 * j \<le> unat n" using assms(1) i j by auto
  moreover have "unat a < 2 ^ 64" "unat n < 2 ^ 64" using unsigned_less [of a] unsigned_less [of n] by simp_all
  ultimately have "unat (a div u) + unat (n div u) < 2 ^ LENGTH(64)" using ij by simp
  then have sum: "unat (a div u + n div u) = i + j" using ij by (simp add: unat_add_no_wrap)
  then have "a div u + n div u \<noteq> 0" using ij(3) by (metis add_gr_0 less_numeral_extra(3) unat_0)
  then have "unat (a div u + n div u - 1) + 1 = i + j" using sum ij(3) by (simp add: unat_minus_one)
  then show ?thesis using i j by (simp add: distrib_left mult.commute)
qed

lemma tool_range_bytes:
  assumes "1 < unat u" and "unit_aligned u e" and "0 < unat (fe_length e)"
  shows "byte_range (unat u) (tool_range u e) = kernel_range e"
proof -
  have d: "unat u dvd unat (fe_logical e)" "unat u dvd unat (fe_physical e)" "unat u dvd unat (fe_length e)"
    using assms(2) by (simp_all add: unit_aligned_def)
  have "unat (fe_logical e div u) * unat u = unat (fe_logical e)" "unat (fe_physical e div u) * unat u = unat (fe_physical e)"
    using d by (simp_all add: unat_div)
  then show ?thesis
    using end_of_units [OF assms(1) d(1,3) assms(3)] end_of_units [OF assms(1) d(2,3) assms(3)]
    by (simp add: byte_range_def tool_range_def kernel_range_def Let_def)
qed

lemma byte_range_unit:
  assumes "byte_range u r = byte_range v r"
  shows "u = v"
proof -
  obtain a b c d where r: "r = (a, b, c, d)" by (cases r)
  have "(unat b + 1) * u = (unat b + 1) * v"
    using assms unfolding byte_range_def r prod.case prod.inject by blast
  then show ?thesis by (simp only: mult_cancel1) simp
qed

lemma extents_from_lengths: "extents_from lo es \<Longrightarrow> \<forall>e \<in> set es. 0 < unat (fe_length e)"
proof (induction es arbitrary: lo)
  case (Cons e es)
  then have "0 < unat (fe_length e)" "\<forall>d \<in> set es. 0 < unat (fe_length d)" using Cons.IH [of "fe_end e"] by simp_all
  then show ?case by simp
qed simp

text \<open>
  C6 (\<open>xal\<close> prints the extents the tool prints). After a successful index, for every file of the mount
  whose extents the kernel reports in order and aligned to blocks, the lines of \<open>xal --bmap\<close> and \<open>xal
  --filename\<close> and those of the reference tool, which asks the kernel itself, stand for the same bytes
  of the file and of the device, which are those the kernel reports: \<open>xal\<close> counts in units of 512
  bytes, the tool in units of \<open>BLOCK_SIZE\<close>. So the numbers are the same only where \<open>linux/fs.h\<close> leaves
  the unit at 512 bytes.
\<close>

theorem bmap_agrees_with_tool:
  assumes "index_start env x" and "xal_be_fiemap_index fuel env x = (Inr u, x')"
    and "be_type x = XAL_BACKEND_FIEMAP" and "fs_alloc_ok env AllocFiemap"
    and "p < itop x'" and "xal_inode_is_file (imem x' p)"
    and "read_fiemap env (path_of x' p) = Inr (m, es)" and "length es = unat m" and "es \<noteq> []"
    and "\<forall>e \<in> set es. block_aligned (blocksize (sb x)) e"
    and "512 dvd unat (blocksize (sb x))" and "1 < unat (block_size hdr)" and "unat (block_size hdr) dvd unat (blocksize (sb x))"
    and "extents_from 0 es" and "serves chunk es fm" and "length es < tfuel"
  shows "\<exists>rs ts. pp_inode_extents x' (imem x' p) = concat (map bmap_line rs) \<and>
    process_file hdr tfuel True True fm (path_of x' p) =
      Inr ([34] @ path_of x' p @ [34, 58, 10] @ concat (map bmap_line ts)) \<and>
    map (byte_range 512) rs = map kernel_range es \<and>
    map (byte_range (unat (block_size hdr))) ts = map kernel_range es \<and>
    (rs = ts \<longleftrightarrow> block_size hdr = 512)"
proof -
  let ?u = "block_size hdr"
  let ?rs = "map (tool_range 512) es" and ?ts = "map (tool_range ?u) es"
  note ok = fiemap_index_ok [OF assms(1,2)]
  then have "file_mirrors env x' p" using assms(5,6) by (simp add: mirror_inv_def mirrors_def)
  then have n: "extents_count (imem x' p) = length es" and
    at: "\<And>i. i < length es \<Longrightarrow> xal_extent_at x' (extents_idx (imem x' p) + i) = fiemap_to_extent (blocksize (sb x')) (es ! i)"
    using assms(4,7,8) by (auto simp: file_mirrors_def xal_extent_at_def)
  have x': "be_type x' = XAL_BACKEND_FIEMAP" "sb x' = sb x" using ok assms(3) by simp_all
  have "bmap_range x' (xal_extent_at x' (extents_idx (imem x' p) + i)) = tool_range 512 (es ! i)"
    if "i < length es" for i
    using bmap_range_fiemap [OF x'(1), of "es ! i"] assms(10) that by (simp add: at x'(2))
  then have "map (\<lambda>i. bmap_range x' (xal_extent_at x' (extents_idx (imem x' p) + i))) [0..<length es] = ?rs"
    by (intro nth_equalityI) simp_all
  then have "map bmap_line (map (\<lambda>i. bmap_range x' (xal_extent_at x' (extents_idx (imem x' p) + i))) [0..<length es])
      = map bmap_line ?rs" by (rule arg_cong)
  then have pp: "pp_inode_extents x' (imem x' p) = concat (map bmap_line ?rs)"
    by (simp only: pp_inode_extents_def n map_map comp_def)
  have "map (tool_line ?u) es = map bmap_line ?ts" by (simp add: tool_line_def)
  with tool_prints_every_extent_ok [OF assms(14-16), of hdr] assms(9)
  have tool: "process_file hdr tfuel True True fm (path_of x' p) =
      Inr ([34] @ path_of x' p @ [34, 58, 10] @ concat (map bmap_line ?ts))" by (simp only: if_False)
  have len: "\<forall>e \<in> set es. 0 < unat (fe_length e)" by (rule extents_from_lengths [OF assms(14)])
  have al: "\<forall>e \<in> set es. unit_aligned 512 e" "\<forall>e \<in> set es. unit_aligned ?u e"
    using assms(10,11,13) by (auto simp: unit_aligned_def block_aligned_def intro: dvd_trans)
  have rs: "map (byte_range 512) ?rs = map kernel_range es"
    using tool_range_bytes [of 512] al(1) len by simp
  have ts: "map (byte_range (unat ?u)) ?ts = map kernel_range es"
    using tool_range_bytes [OF assms(12)] al(2) len by simp
  have "?u = 512" if same: "?rs = ?ts"
  proof -
    obtain e where e: "e \<in> set es" using assms(9) by (cases es) auto
    have "byte_range 512 (tool_range 512 e) = kernel_range e" "byte_range (unat ?u) (tool_range ?u e) = kernel_range e"
      using rs ts e by simp_all
    moreover have "tool_range 512 e = tool_range ?u e" using same e by simp
    ultimately have "unat ?u = 512" by (metis byte_range_unit)
    then show ?thesis by (metis unat_numeral_512 unsigned_word_eqI)
  qed
  then have "?rs = ?ts \<longleftrightarrow> ?u = 512" by auto
  with pp tool rs ts show ?thesis by blast
qed

text \<open>With the header of Linux, the tool prints other numbers than \<open>xal\<close> for the same extent.\<close>

theorem bmap_agrees_with_tool_witness:
  "\<exists>es rs ts. read_fiemap mini_fs mini_b = Inr (1, es) \<and>
     pp_inode_extents mini_index (imem mini_index 2) = concat (map bmap_line rs) \<and>
     process_file (Some 1024) 2 True True (honest 1 es) mini_b = Inr ([34] @ mini_b @ [34, 58, 10] @ concat (map bmap_line ts)) \<and>
     map (byte_range 512) rs = map (byte_range 1024) ts \<and> rs \<noteq> ts"
proof -
  let ?es = "[\<lparr>fe_logical = 0, fe_physical = 0x10000, fe_length = 0x2000, fe_flags = 1\<rparr>]"
  have r: "xal_be_fiemap_index 3 mini_fs mini_xal = (Inr (), mini_index)" by (rule mini_run) simp
  have m: "2 < itop mini_index" "xal_inode_is_file (imem mini_index 2)" "path_of mini_index 2 = mini_b"
    by (simp_all add: mini_index_def mini_tree_def path_of_def)
  have b: "blocksize (sb mini_xal) = 4096" by (simp add: mini_xal_def mini_defs)
  then have "\<forall>e \<in> set ?es. block_aligned (blocksize (sb mini_xal)) e" by (simp add: block_aligned_def)
  moreover have "extents_from 0 ?es" by (simp add: fe_end_def)
  moreover have "serves 1 ?es (honest 1 ?es)" by (rule honest_serves) simp
  moreover have "block_size (Some 1024) = 1024" by (simp add: block_size_def)
  ultimately show ?thesis
    using bmap_agrees_with_tool [OF mini_good r mini_facts(2,3) m(1,2), of 1 ?es "Some 1024" 1 "honest 1 ?es" 2] mini_kernel(10)
    unfolding m(3) by (simp add: b) metis
qed

section \<open>The type of an indexed handle\<close>

text \<open>
  What an index leaves, for the backend of the handle: pools in order; for XFS known formats and the
  extents of every file inside the pool; for FIEMAP the watches and the tree of the mount.
\<close>

definition handle_typed :: "cli_env \<Rightarrow> xal \<Rightarrow> bool" where
  "handle_typed env x \<longleftrightarrow>
     (case be_type x of
        XAL_BACKEND_XFS \<Rightarrow> xfs_good (index_xfs env) x \<and> extents_inside x
      | XAL_BACKEND_FIEMAP \<Rightarrow> mirror_inv (index_fs env) {} x
      | _ \<Rightarrow> False) \<and> rooted x"

text \<open>
  C14 (an index leaves a well-typed handle). A successful index of either backend, started on a handle that is
  ready for it, leaves a handle of the same backend whose pools, tree and extents are in order and whose
  flag is clean, whether the handle was fresh or held the tree of an earlier index.
\<close>

theorem index_leaves_typed_handle:
  assumes "backend_ready env x" and "backend_index env x = (Inr u, x')"
  shows "handle_typed env x' \<and> be_type x' = be_type x \<and> \<not> dirty x'"
proof -
  have r: "rooted x'" by (rule any_backend.index_rooted [OF assms(1,2)])
  consider "be_type x = XAL_BACKEND_XFS" "xfs_ready (index_xfs env) x"
    | "be_type x = XAL_BACKEND_FIEMAP" "index_start (index_fs env) x"
    using assms(1) by (auto simp: backend_ready_def)
  then show ?thesis
  proof cases
    case 1
    then have run: "xal_be_xfs_index (cli_fuel env) (index_xfs env) x = (Inr u, x')"
      using assms(2) by (simp add: backend_index_def)
    from 1 xfs_index_ok [OF _ _ run] r show ?thesis by (simp add: xfs_ready_def handle_typed_def)
  next
    case 2
    then have run: "xal_be_fiemap_index (cli_fuel env) (index_fs env) x = (Inr u, x')"
      using assms(2) by (simp add: backend_index_def)
    from 2 fiemap_index_ok [OF 2(2) run] r show ?thesis by (simp add: handle_typed_def)
  qed
qed

text \<open>Such a handle is ready for the next index as soon as the kernel lets its pool of inodes be cleared.\<close>

lemma typed_handle_ready:
  assumes "handle_typed env x"
    and "os_mprotect (if be_type x = XAL_BACKEND_XFS then inodes_os (index_xfs env) else fs_inodes_os (index_fs env))
      (reserved (inodes x) * element_size (inodes x)) = 0"
  shows "backend_ready env x"
  using assms by (cases "be_type x")
    (auto simp: handle_typed_def backend_ready_def xfs_ready_def index_start_def mirror_inv_def)

theorem index_leaves_typed_handle_witness:
  "handle_typed mini_cli_env mini_index \<and> be_type mini_index = XAL_BACKEND_FIEMAP"
  using index_leaves_typed_handle [OF mini_backend] by (simp add: mini_facts)

section \<open>Two mistakes of the command line\<close>

text \<open>
  \<open>--stats\<close> without \<open>--bmap\<close> or \<open>--find\<close> prints what the stack held where the counters are.
\<close>

lemma stats_without_walk_prints_stack:
  assumes "arg_stats args" and "\<not> arg_bmap args" and "\<not> arg_find args" and "arg_filename args = None"
  shows "cli_actions env args x \<lparr>ndirs = stack_ndirs env, nfiles = stack_nfiles env, stdout_bytes = out\<rparr> =
    Inr (0, \<lparr>ndirs = stack_ndirs env, nfiles = stack_nfiles env, stdout_bytes = out @
      bytes_of ''ndirs('' @ dec (unat (stack_ndirs env)) @ bytes_of ''); nfiles('' @ dec (unat (stack_nfiles env)) @
      bytes_of '')'' @ [10]\<rparr>)"
  using assms by (simp add: cli_actions_def cli_filename_def emit_def Let_def)

text \<open>
  \<open>--filename\<close> with the path of a directory prints as many extents as it has entries, starting with the
  extent whose position in its pool is that of the first entry in the pool of inodes.
\<close>

lemma filename_of_directory_prints_extents:
  assumes "arg_filename args = Some path" and "xal_get_inode (Some x) (Some path) = Inr i"
    and "xal_inode_is_dir (xal_inode_at x i)"
  shows "cli_filename args x st = Inr (0, emit ([39] @ cstr_of (name (xal_inode_at x i)) @ [39, 58, 10] @
    concat (map (\<lambda>k. bmap_line (bmap_range x (xal_extent_at x (dentries_idx (xal_inode_at x i) + k))))
      [0..<dentries_count (xal_inode_at x i)])) st)"
  using assms by (simp add: cli_filename_def pp_inode_extents_def content_defs Let_def)

text \<open>A device whose name is empty makes both callbacks read the byte before it.\<close>

lemma empty_device_reads_before:
  "parent_idx (xal_inode_at x i) \<noteq> XAL_POOL_IDX_NONE \<Longrightarrow> node_path fuel [] x i = Inl (Fault OutOfBounds)"
  by (simp add: node_path_def)

section \<open>The program of the tool\<close>

text \<open>
  \<open>main\<close> of the tool: \<open>visits\<close> lists the paths that \<open>nftw\<close> passes to \<open>process_file\<close>, with whether they are
  files, and \<open>nftw_ok\<close> tells whether it gets to the end.
\<close>

fun tool_visits ::
  "u64 option \<Rightarrow> nat \<Rightarrow> (cstr \<Rightarrow> bool) \<Rightarrow> (cstr \<Rightarrow> u64 \<Rightarrow> fiemap_extent list option) \<Rightarrow> (cstr \<times> bool) list
     \<Rightarrow> fail + cstr" where
  "tool_visits hdr fuel can_open fm [] = Inr []"
| "tool_visits hdr fuel can_open fm ((fpath, is_file) # visits) =
     sbind (process_file hdr fuel is_file (can_open fpath) (fm fpath) fpath) (\<lambda>out.
     sbind (tool_visits hdr fuel can_open fm visits) (\<lambda>more. Inr (out @ more)))"

definition tool_main ::
  "u64 option \<Rightarrow> nat \<Rightarrow> cstr list \<Rightarrow> bool \<Rightarrow> (cstr \<Rightarrow> (cstr \<times> bool) list) \<Rightarrow> bool \<Rightarrow> (cstr \<Rightarrow> bool)
     \<Rightarrow> (cstr \<Rightarrow> u64 \<Rightarrow> fiemap_extent list option) \<Rightarrow> fail + int \<times> cstr" where
  "tool_main hdr fuel argv mem visits nftw_ok can_open fm =
     (if length argv \<noteq> 2 then Inr (1, [])
      else if \<not> mem then Inr (1, [])
      else sbind (tool_visits hdr fuel can_open fm (visits (argv ! 1))) (\<lambda>out. Inr (if nftw_ok then 0 else 1, out)))"

end
