(* ===== verification/Spec2Isabelle.thy ===== *)
theory Spec2Isabelle
  imports Xal_Khash Xal_Cli
begin

text \<open>
  A model of xal, a library that reads the tree of a file system and the extents of its files into
  two pools of fixed-size records, from a block device (XFS) or from a mounted file system (FIEMAP),
  with the command line that prints them and a tool that asks the kernel for the same extents.
  The theories and what they model:

  \<^item> \<open>Xal_Prelude\<close>: machine words, C strings, results (\<open>fail + 'a\<close>, with the negative errno of the code
    or a \<open>fault\<close> where the behaviour is undefined), sequencing of steps and loops.
  \<^item> \<open>Xal_Pool\<close> (src/xal_pool.c): growable pools of elements; the invariant, and that successive claims
    are adjacent, zeroed and leave the other elements alone.
  \<^item> \<open>Xal_Types\<close>, \<open>Xal_Buffer\<close>, \<open>Xal_Geometry\<close>, \<open>Xal_Device\<close>: the structs of the headers, memory with
    bounds, the arithmetic of addresses, inode numbers and packed extents, and reads of the device.
  \<^item> \<open>Xal_Core\<close> (src/xal.c): views of foreign pools, closing, the walk of the tree, accessors.
  \<^item> \<open>Xal_Tree\<close>: the interface of a backend that builds a tree in the pool, as the locale
    \<open>tree_builder\<close>: one step handles an inode and leaves a subtree; the lemmas compose the steps of
    the children of a directory. Both backends interpret it.
  \<^item> \<open>Xal_Dinodes\<close>, \<open>Xal_Xfs\<close>, \<open>Xal_Xfs_Index\<close>, \<open>Xal_Xfs_Dirs\<close> (src/xal_be_xfs.c): opening a device,
    retrieving all inodes through the inode B+trees, and indexing: short-form, block and B+tree
    directories, inline and B+tree extents.
  \<^item> \<open>Xal_Fs\<close>, \<open>Xal_Fiemap\<close>, \<open>Xal_Fiemap_Index\<close>, \<open>Xal_Fiemap_Mount\<close> (src/xal_be_fiemap.c up to
    \<open>xal_be_fiemap_index\<close>): opening a mount and indexing it through the kernel; a successful index
    mirrors the file system. The last theory holds a concrete mount that the witnesses run.
  \<^item> \<open>Xal_Lookup\<close> (the rest of that file): lookup of paths by binary search and by a map.
  \<^item> \<open>Xal_Watch\<close>, \<open>Xal_Protocol\<close> (src/xal_be_fiemap_inotify.c): the events of inotify, the update of
    one file in place, starting and stopping the thread; and any number of threads beside a caller
    who may index, watch and stop at any moment, as a step relation over the atomic accesses of
    \<open>seq_lock\<close> and \<open>dirty\<close>, with the cancellation of a thread as a step of its own. What holds of
    every caller (\<open>reach anytime\<close>), what holds only of one who indexes a dirty handle and watches once
    (\<open>reach careful\<close>), and the races of the others.

  \<^item> \<open>Xal_Open\<close> (src/xal.c, \<open>retrieve_mountpoint\<close> and \<open>xal_open\<close>, and the close functions of the
    backends): how the table of mounts is scanned and the backend chosen, what every failure leaves
    behind, and opening, indexing and lookup composed (\<open>open_index_lookup\<close>).
  \<^item> \<open>Xal_Khash\<close> (tp/khash.h): the open-addressing table behind all maps, with its packed flags, the
    rehash in place and insertions that fail. The locale \<open>map_table\<close> is the interface the library
    uses; its interpretation on the table's own functions is what \<open>kh_table_is_a_map\<close> rests on.
  \<^item> \<open>Xal_Print\<close> (src/pp.c, \<open>inotify_event_mask_pp\<close>): the printf formats in use as functions to bytes,
    and every printer as the text it writes.
  \<^item> \<open>Xal_Cli\<close> (src/cli.c, \<open>dump_bytes\<close> of src/utils.c, tools/xal_bmap_mp_yaml.c): the arguments, the
    callbacks of the walk, \<open>main\<close> up to its exit status and output, and the tool. The locale
    \<open>index_backend\<close> is what the command line needs from an index; XFS, FIEMAP and the dispatch of
    \<open>xal_index\<close> interpret it.

  What is a parameter. The operating system (\<open>pool_os\<close>, \<open>fs_env\<close>, \<open>cli_env\<close>), the device
  (\<open>dev_read\<close>), the table of mounts, the allocator, pthreads, the text of a pointer, the value that
  linux/fs.h gives \<open>BLOCK_SIZE\<close> (the unit of the tool; the command line divides by 512). One \<open>fs_env\<close> is
  the file system during one operation; in \<open>Xal_Protocol\<close> every step may see another one. Outside
  \<open>Xal_Khash\<close> the maps of the code are HOL maps whose insertions may fail; \<open>Xal_Khash\<close> shows that the
  table behaves like one.

  Fuel. The recursions over the directory tree and over B+trees take fuel; running out is the fault
  \<open>OutOfFuel\<close>, never a success. Undefined behaviour is a fault as well and is never continued: a
  path too long for its buffer (the unchecked copies of \<open>process_dentry\<close>, the scan of the mount
  table) ends the run with \<open>OutOfBounds\<close>. For FIEMAP every fuel above the depth of the directories
  below the mountpoint is enough (\<open>depth_bound\<close>, \<open>fiemap_index_ends\<close>); for the walk, and so for the
  command line, the number of inodes is (\<open>walk_visits_descendants_once\<close>, \<open>cli_lists_everything\<close>);
  for the tool one request per extent (\<open>tool_prints_every_extent\<close>). Printing an inode takes 257 per
  level of the tree if every directory has fewer than 256 entries (\<open>inode_pp_prints_subtree\<close>);
  otherwise no fuel is enough (\<open>inode_pp_never_ends\<close>). The probes of the hash table end because a
  bucket is always free.

  Not modelled: \<open>kh_destroy\<close>, which only frees, and the parts of tp/khash.h that the library does not
  use; the messages of \<open>XAL_DEBUG\<close> and those on stderr, which change no state; the fields of the
  structs of xal_odf.h that no code reads; the tests and the build files.
\<close>

end
